(* ===== verification/Vsc_Prelude.thy ===== *)
theory Vsc_Prelude
  imports Main "HOL-Library.Word" "HOL-Library.Multiset" "HOL-Library.Monad_Syntax"
begin

unbundle bit_operations_syntax

text \<open>
  Shared vocabulary of the development: the machine types, the errno values, the way a C
  function that may run into undefined behaviour is written, little-endian byte access,
  and the lemmas on lists that all components use.

  A function whose C original can fail to return normally (a dereference of \<open>NULL\<close>, an
  access outside an object, a division by zero, a loop that does not end) returns an
  \<open>option\<close>: \<open>None\<close> is the absence of a defined return, \<open>Some r\<close> a normal return.
  Error codes are ordinary results: a C \<open>return -EINVAL\<close> is the integer \<open>- EINVAL\<close>.
\<close>

type_synonym byte = "8 word"
type_synonym u32 = "32 word"
type_synonym u64 = "64 word"

text \<open>The errno values the driver returns (\<open>linux/errno.h\<close>).\<close>

abbreviation (input) EPERM :: int where "EPERM \<equiv> 1"
abbreviation (input) ENOENT :: int where "ENOENT \<equiv> 2"
abbreviation (input) EINTR :: int where "EINTR \<equiv> 4"
abbreviation (input) EIO :: int where "EIO \<equiv> 5"
abbreviation (input) EBADF :: int where "EBADF \<equiv> 9"
abbreviation (input) EAGAIN :: int where "EAGAIN \<equiv> 11"
abbreviation (input) ENOMEM :: int where "ENOMEM \<equiv> 12"
abbreviation (input) EACCES :: int where "EACCES \<equiv> 13"
abbreviation (input) EFAULT :: int where "EFAULT \<equiv> 14"
abbreviation (input) EBUSY :: int where "EBUSY \<equiv> 16"
abbreviation (input) EEXIST :: int where "EEXIST \<equiv> 17"
abbreviation (input) ENODEV :: int where "ENODEV \<equiv> 19"
abbreviation (input) EINVAL :: int where "EINVAL \<equiv> 22"
abbreviation (input) ENOTTY :: int where "ENOTTY \<equiv> 25"
abbreviation (input) ENODATA :: int where "ENODATA \<equiv> 61"
abbreviation (input) EALREADY :: int where "EALREADY \<equiv> 114"
abbreviation (input) ENOTSUPP :: int where "ENOTSUPP \<equiv> 524"

text \<open>Results of the SCSI error handlers and of \<open>queuecommand\<close> (\<open>scsi/scsi.h\<close>).\<close>

abbreviation (input) SUCCESS :: int where "SUCCESS \<equiv> 0x2002"
abbreviation (input) FAILED :: int where "FAILED \<equiv> 0x2003"
abbreviation (input) SCSI_MLQUEUE_HOST_BUSY :: int where "SCSI_MLQUEUE_HOST_BUSY \<equiv> 0x1055"

text \<open>Fact collections: frame rules of the operations, and facts about unlinking.\<close>

named_theorems vsc_frame "fields an operation does not write"
named_theorems vsc_inv "operations keep the invariants"

subsection \<open>C's \<open>int\<close>\<close>

text \<open>The value of a 32-bit \<open>int\<close> that receives \<open>x\<close>.\<close>

definition c_int :: "int \<Rightarrow> int" where
  "c_int x = sint (word_of_int x :: u32)"

lemma c_int_small: "- (2 ^ 31) \<le> x \<Longrightarrow> x < 2 ^ 31 \<Longrightarrow> c_int x = x"
  by (simp add: c_int_def sint_sbintrunc' signed_take_bit_int_eq_self)

subsection \<open>Little-endian bytes\<close>

definition le_bytes :: "nat \<Rightarrow> 'a::len word \<Rightarrow> byte list" where
  "le_bytes n w = map (\<lambda>k. ucast (drop_bit (8 * k) w)) [0..<n]"

fun le_word :: "byte list \<Rightarrow> 'a::len word" where
  "le_word [] = 0"
| "le_word (b # bs) = ucast b OR push_bit 8 (le_word bs)"

lemma length_le_bytes [simp]: "length (le_bytes n w) = n"
  by (simp add: le_bytes_def)

lemma le_bytes_Suc: "le_bytes (Suc n) w = ucast w # le_bytes n (drop_bit 8 w)"
proof -
  have "[0..<Suc n] = 0 # map Suc [0..<n]"
    by (metis map_Suc_upt upt_conv_Cons zero_less_Suc)
  then show ?thesis
    by (simp add: le_bytes_def comp_def drop_bit_drop_bit add.commute)
qed

lemma le_word_bytes_take: "le_word (le_bytes n w) = take_bit (8 * n) (w :: 'a::len word)"
proof (induction n arbitrary: w)
  case 0
  then show ?case by (simp add: le_bytes_def)
next
  case (Suc n)
  show ?case
  proof (rule bit_word_eqI)
    fix k
    assume "k < LENGTH('a)"
    then show "bit (le_word (le_bytes (Suc n) w) :: 'a word) k = bit (take_bit (8 * Suc n) w) k"
      by (auto simp: le_bytes_Suc Suc bit_simps)
  qed
qed

lemma le_word_bytes [simp]:
  "le_word (le_bytes 4 (w :: u32)) = w"
  "le_word (le_bytes 8 (v :: u64)) = v"
  by (simp_all add: le_word_bytes_take take_bit_word_eq_self)

subsection \<open>Reading objects in memory\<close>

text \<open>
  An object of kernel memory is its list of bytes. \<open>rd_bytes\<close> reads \<open>n\<close> bytes at an offset
  and is undefined behaviour outside the object; \<open>rd32\<close> and \<open>rd64\<close> read an integer member.
\<close>

definition rd_bytes :: "byte list \<Rightarrow> nat \<Rightarrow> nat \<Rightarrow> byte list option" where
  "rd_bytes buf off n = (if off + n \<le> length buf then Some (take n (drop off buf)) else None)"

definition wr_bytes :: "byte list \<Rightarrow> nat \<Rightarrow> byte list \<Rightarrow> byte list option" where
  "wr_bytes buf off bs =
     (if off + length bs \<le> length buf
      then Some (take off buf @ bs @ drop (off + length bs) buf) else None)"

definition rd32 :: "byte list \<Rightarrow> nat \<Rightarrow> u32 option" where
  "rd32 buf off = map_option le_word (rd_bytes buf off 4)"

definition rd64 :: "byte list \<Rightarrow> nat \<Rightarrow> u64 option" where
  "rd64 buf off = map_option le_word (rd_bytes buf off 8)"

lemma rd_bytes_append: "rd_bytes (xs @ bs @ ys) (length xs) (length bs) = Some bs"
  by (simp add: rd_bytes_def)

lemma length_wr_bytes: "wr_bytes buf off bs = Some buf' \<Longrightarrow> length buf' = length buf"
  by (auto simp: wr_bytes_def split: if_splits)

lemma rd_wr_bytes: "wr_bytes buf off bs = Some buf' \<Longrightarrow> rd_bytes buf' off (length bs) = Some bs"
  by (auto simp: wr_bytes_def rd_bytes_def split: if_splits)

lemma rd32_total: "off + 4 \<le> length buf \<Longrightarrow> rd32 buf off \<noteq> None"
  by (simp add: rd32_def rd_bytes_def)

lemma wr_bytes_None [simp]: "wr_bytes buf off bs = None \<longleftrightarrow> length buf < off + length bs"
  by (auto simp: wr_bytes_def)

subsection \<open>Lists\<close>

lemma remove1_hd: "xs \<noteq> [] \<Longrightarrow> remove1 (hd xs) xs = tl xs"
  by (cases xs) auto

lemma mset_map_remove1:
  "x \<in> set xs \<Longrightarrow> add_mset (f x) (image_mset f (mset (remove1 x xs))) = image_mset f (mset xs)"
  by (metis image_mset_add_mset insert_DiffM mset_remove1 set_mset_mset)

lemma image_mset_list_update_notin:
  "i \<notin> set q \<Longrightarrow> image_mset (\<lambda>j. g (xs[i := x] ! j)) (mset q) = image_mset (\<lambda>j. g (xs ! j)) (mset q)"
  by (rule image_mset_cong) (metis nth_list_update_neq set_mset_mset)

lemma map_list_update_same:
  "i < length xs \<Longrightarrow> g x = g (xs ! i) \<Longrightarrow> g (xs[i := x] ! j) = g (xs ! j)"
  by (cases "i = j") auto

end
