(* ===== verification/Vsc_Abi.thy ===== *)
theory Vsc_Abi
  imports Vsc_Prelude
begin

text \<open>
  The interface with the user-space target, \<^verbatim>\<open>vsc.h\<close>: the limits, the ioctl numbers, the
  message structures and their byte layout. A structure is a record; \<open>enc_\<close> and \<open>dec_\<close>
  functions write and read it in memory. The layout of a structure is computed from its
  member types by the rules of the C ABI, and the start-up check of \<^verbatim>\<open>vsc_sym.c\<close> is
  modelled on those layouts. The locales \<open>byte_codec\<close> and \<open>word_struct\<close> state what the
  message code relies on: a structure read back is the one written, also inside an array.
\<close>

subsection \<open>Limits\<close>

definition VSC_DEFAULT_MAX_CMD_NUMBER :: u32 where "VSC_DEFAULT_MAX_CMD_NUMBER = 2048 * 2048"
definition VSC_DEFAULT_LUN_CMD_NUMBER :: u32 where "VSC_DEFAULT_LUN_CMD_NUMBER = 2048"
definition VSC_MAX_CDB_LEN :: u32 where "VSC_MAX_CDB_LEN = 256"
definition VSC_RQ_MAX_TIMEOUT :: int where "VSC_RQ_MAX_TIMEOUT = 120"
definition VSC_MAX_TARGET_ABNORMAL_TIMEOUT :: u32 where "VSC_MAX_TARGET_ABNORMAL_TIMEOUT = 6000"
definition MAX_BATCH_SCSI_CMD_COUNT :: nat where "MAX_BATCH_SCSI_CMD_COUNT = 4"
definition MAX_BATCH_SCSI_RSP_COUNT :: nat where "MAX_BATCH_SCSI_RSP_COUNT = 4"
definition MAX_CDB_LENGTH :: nat where "MAX_CDB_LENGTH = 16"
definition SCSI_MAX_DATA_BUF_SIZE :: nat where "SCSI_MAX_DATA_BUF_SIZE = 256"
definition VSC_VOL_NAME_LEN :: nat where "VSC_VOL_NAME_LEN = 96"
definition VSC_MAX_VOL_PER_HOST :: nat where "VSC_MAX_VOL_PER_HOST = 128"

subsection \<open>Message types, data types and status codes\<close>

definition VSC_MSG_TYPE_SCSI_CMD :: u32 where "VSC_MSG_TYPE_SCSI_CMD = 0"
definition VSC_MSG_TYPE_EVENT :: u32 where "VSC_MSG_TYPE_EVENT = 1"
definition VSC_MSG_TYPE_SCSI_DATA :: u32 where "VSC_MSG_TYPE_SCSI_DATA = 2"
definition VSC_EVENT_TYPE_ABORT :: u32 where "VSC_EVENT_TYPE_ABORT = 1"
definition VSC_EVENT_TYPE_RESET_DEV :: u32 where "VSC_EVENT_TYPE_RESET_DEV = 2"
definition VSC_MSG_DATA_TYPE_CDB :: u32 where "VSC_MSG_DATA_TYPE_CDB = 1"
definition VSC_MSG_DATA_TYPE_DATA :: u32 where "VSC_MSG_DATA_TYPE_DATA = 2"
definition VSC_MSG_DATA_TYPE_SENSE :: u32 where "VSC_MSG_DATA_TYPE_SENSE = 3"
definition VSC_DISK_RUNNING :: u32 where "VSC_DISK_RUNNING = 2"
definition VSC_DISK_PREPARE_DELETE :: u32 where "VSC_DISK_PREPARE_DELETE = 9"

lemmas vsc_msg_consts =
  VSC_MSG_TYPE_SCSI_CMD_def VSC_MSG_TYPE_EVENT_def VSC_MSG_TYPE_SCSI_DATA_def
  VSC_EVENT_TYPE_ABORT_def VSC_EVENT_TYPE_RESET_DEV_def
  VSC_MSG_DATA_TYPE_CDB_def VSC_MSG_DATA_TYPE_DATA_def VSC_MSG_DATA_TYPE_SENSE_def

text \<open>The command status a response carries, as the macros number it.\<close>

definition CMD_SUCCESS :: u32 where "CMD_SUCCESS = 0"
definition CMD_FAILURE :: u32 where "CMD_FAILURE = 1"
definition CMD_INVALID :: u32 where "CMD_INVALID = 2"
definition CMD_CONNECTION_LOST :: u32 where "CMD_CONNECTION_LOST = 3"
definition CMD_TIMEOUT :: u32 where "CMD_TIMEOUT = 4"
definition CMD_PROTOCOL_ERR :: u32 where "CMD_PROTOCOL_ERR = 5"
definition CMD_NEED_RETRY :: u32 where "CMD_NEED_RETRY = 6"

lemmas cmd_status_consts =
  CMD_SUCCESS_def CMD_FAILURE_def CMD_INVALID_def CMD_CONNECTION_LOST_def
  CMD_TIMEOUT_def CMD_PROTOCOL_ERR_def CMD_NEED_RETRY_def

subsection \<open>Structure layout\<close>

datatype ctype = CU8 | CU32 | CU64 | CArr ctype nat

fun c_align :: "ctype \<Rightarrow> nat" where
  "c_align CU8 = 1"
| "c_align CU32 = 4"
| "c_align CU64 = 8"
| "c_align (CArr t n) = c_align t"

fun c_size :: "ctype \<Rightarrow> nat" where
  "c_size CU8 = 1"
| "c_size CU32 = 4"
| "c_size CU64 = 8"
| "c_size (CArr t n) = c_size t * n"

definition round_up :: "nat \<Rightarrow> nat \<Rightarrow> nat" where
  "round_up n a = (n + a - 1) div a * a"

text \<open>\<open>struct_end ts o\<close> is the end of members \<open>ts\<close> laid out from offset \<open>o\<close>.\<close>

fun struct_end :: "ctype list \<Rightarrow> nat \<Rightarrow> nat" where
  "struct_end [] off = off"
| "struct_end (t # ts) off = struct_end ts (round_up off (c_align t) + c_size t)"

definition struct_align :: "ctype list \<Rightarrow> nat" where
  "struct_align ts = fold (\<lambda>t a. max (c_align t) a) ts 1"

definition sizeof :: "ctype list \<Rightarrow> nat" where
  "sizeof ts = round_up (struct_end ts 0) (struct_align ts)"

definition offsetof :: "ctype list \<Rightarrow> nat \<Rightarrow> nat" where
  "offsetof ts k = round_up (struct_end (take k ts) 0) (c_align (ts ! k))"

lemmas layout_defs = sizeof_def offsetof_def struct_align_def round_up_def

definition vsc_scsi_msg_data_layout :: "ctype list" where
  "vsc_scsi_msg_data_layout = [CU32, CU32, CArr CU8 0, CArr CU8 0]"

definition vsc_scsi_event_layout :: "ctype list" where
  "vsc_scsi_event_layout = [CU32, CArr CU32 2, CU32, CU32, CU32, CArr CU8 4, CArr CU8 0]"

definition vsc_iovec_layout :: "ctype list" where
  "vsc_iovec_layout = [CU64, CU32, CArr CU8 4]"

definition vsc_scsi_data_layout :: "ctype list" where
  "vsc_scsi_data_layout = [CU32, CU32, CU32, CU32, CU32, CArr CU8 0, CArr CU8 0]"

definition vsc_scsi_data_msg_layout :: "ctype list" where
  "vsc_scsi_data_msg_layout = [CU32, CArr CU32 2, CU32, CU32, CU32, CArr CU8 0, CArr CU8 0]"

definition vsc_scsi_msg_layout :: "ctype list" where
  "vsc_scsi_msg_layout = [CU32, CArr CU32 2, CU32, CU32, CU32, CU32, CU32, CU32, CU32]"

definition vsc_scsi_rsp_msg_layout :: "ctype list" where
  "vsc_scsi_rsp_msg_layout = [CU32, CArr CU32 2, CU32, CU32, CU32, CU32]"

lemma layout_sizes [simp]:
  "sizeof vsc_scsi_msg_data_layout = 8"
  "sizeof vsc_scsi_event_layout = 28"
  "sizeof vsc_iovec_layout = 16"
  "sizeof vsc_scsi_data_layout = 20"
  "sizeof vsc_scsi_data_msg_layout = 24"
  "sizeof vsc_scsi_msg_layout = 40"
  "sizeof vsc_scsi_rsp_msg_layout = 28"
  by (simp_all add: layout_defs vsc_scsi_msg_data_layout_def vsc_scsi_event_layout_def
      vsc_iovec_layout_def vsc_scsi_data_layout_def vsc_scsi_data_msg_layout_def
      vsc_scsi_msg_layout_def vsc_scsi_rsp_msg_layout_def)

definition MAX_SCSI_MSG_AND_CDB_LENGTH :: nat where
  "MAX_SCSI_MSG_AND_CDB_LENGTH =
     (sizeof vsc_scsi_msg_layout + MAX_CDB_LENGTH) * MAX_BATCH_SCSI_CMD_COUNT"

definition MAX_SCSI_DATA_AND_RSP_LENGTH :: nat where
  "MAX_SCSI_DATA_AND_RSP_LENGTH =
     (SCSI_MAX_DATA_BUF_SIZE + sizeof vsc_scsi_rsp_msg_layout) * MAX_BATCH_SCSI_RSP_COUNT"

lemma max_lengths [simp]:
  "MAX_SCSI_MSG_AND_CDB_LENGTH = 224" "MAX_SCSI_DATA_AND_RSP_LENGTH = 1136"
  by (simp_all add: MAX_SCSI_MSG_AND_CDB_LENGTH_def MAX_SCSI_DATA_AND_RSP_LENGTH_def
      MAX_CDB_LENGTH_def MAX_BATCH_SCSI_CMD_COUNT_def MAX_BATCH_SCSI_RSP_COUNT_def
      SCSI_MAX_DATA_BUF_SIZE_def)

subsection \<open>The start-up check\<close>

definition align_ok :: "ctype list \<Rightarrow> nat \<Rightarrow> bool" where
  "align_ok ts k \<longleftrightarrow> sizeof ts = offsetof ts k"

definition vsc_sym_data_align_chk :: int where
  "vsc_sym_data_align_chk =
     (if \<not> align_ok vsc_scsi_data_msg_layout 6 then - EFAULT
      else if \<not> align_ok vsc_scsi_data_layout 6 then - EFAULT
      else if \<not> align_ok vsc_scsi_event_layout 6 then - EFAULT
      else if \<not> align_ok vsc_scsi_msg_data_layout 3 then - EFAULT
      else 0)"

definition vsc_sym_init :: int where
  "vsc_sym_init = vsc_sym_data_align_chk"

definition vsc_sym_exit :: int where
  "vsc_sym_exit = 0"

lemma vsc_sym_init_ok: "vsc_sym_init = 0"
  by (simp add: vsc_sym_init_def vsc_sym_data_align_chk_def align_ok_def layout_defs
      vsc_scsi_msg_data_layout_def vsc_scsi_event_layout_def vsc_scsi_data_layout_def
      vsc_scsi_data_msg_layout_def)

subsection \<open>Codecs\<close>

locale byte_codec =
  fixes enc :: "'a \<Rightarrow> byte list"
    and dec :: "byte list \<Rightarrow> nat \<Rightarrow> 'a option"
    and sz :: nat
  assumes enc_length: "length (enc x) = sz"
    and dec_enc: "dec (pre @ enc x @ post) (length pre) = Some x"
    and dec_None: "dec buf off = None \<longleftrightarrow> length buf < off + sz"
begin

lemma dec_written:
  assumes "wr_bytes buf off (enc x) = Some buf'"
  shows "dec buf' off = Some x"
proof -
  from assms have "off + sz \<le> length buf"
    and "buf' = take off buf @ enc x @ drop (off + sz) buf"
    by (auto simp: wr_bytes_def enc_length split: if_splits)
  then show ?thesis
    using dec_enc [of "take off buf" x "drop (off + sz) buf"] by simp
qed

lemma dec_array:
  "i < length xs \<Longrightarrow> dec (pre @ concat (map enc xs) @ post) (length pre + i * sz) = Some (xs ! i)"
proof (induction xs arbitrary: pre i)
  case Nil
  then show ?case by simp
next
  case (Cons x xs)
  show ?case
  proof (cases i)
    case 0
    then show ?thesis using dec_enc [of pre x "concat (map enc xs) @ post"] by simp
  next
    case (Suc j)
    with Cons.prems Cons.IH [of j "pre @ enc x"] show ?thesis
      by (simp add: enc_length algebra_simps)
  qed
qed

lemma length_array: "length (concat (map enc xs)) = length xs * sz"
  by (induction xs) (simp_all add: enc_length)

end

definition enc_words :: "u32 list \<Rightarrow> byte list" where
  "enc_words ws = concat (map (le_bytes 4) ws)"

fun rd_words :: "byte list \<Rightarrow> nat \<Rightarrow> nat \<Rightarrow> u32 list option" where
  "rd_words buf off 0 = (if off \<le> length buf then Some [] else None)"
| "rd_words buf off (Suc n) =
     do { w \<leftarrow> rd32 buf off; ws \<leftarrow> rd_words buf (off + 4) n; Some (w # ws) }"

lemma length_enc_words [simp]: "length (enc_words ws) = 4 * length ws"
  by (induction ws) (simp_all add: enc_words_def)

lemma rd32_None [simp]: "rd32 buf off = None \<longleftrightarrow> length buf < off + 4"
  by (auto simp: rd32_def rd_bytes_def)

lemma rd32_le_bytes: "rd32 (pre @ le_bytes 4 w @ post) (length pre) = Some w"
  using rd_bytes_append [of pre "le_bytes 4 w" post] by (simp add: rd32_def)

lemma rd_words_enc: "rd_words (pre @ enc_words ws @ post) (length pre) (length ws) = Some ws"
proof (induction ws arbitrary: pre)
  case Nil
  then show ?case by (simp add: enc_words_def)
next
  case (Cons w ws)
  then show ?case
    using rd32_le_bytes [of pre w "enc_words ws @ post"] Cons [of "pre @ le_bytes 4 w"]
    by (simp add: enc_words_def)
qed

lemma rd_words_None: "rd_words buf off n = None \<longleftrightarrow> length buf < off + 4 * n"
  by (induction n arbitrary: off) (auto simp: bind_eq_None_conv not_less)

lemma length_rd_words: "rd_words buf off n = Some ws \<Longrightarrow> length ws = n"
  by (induction n arbitrary: off ws) (auto simp: bind_eq_Some_conv split: if_splits)

text \<open>A structure whose members are all 32-bit integers.\<close>

locale word_struct =
  fixes to_words :: "'a \<Rightarrow> u32 list"
    and of_words :: "u32 list \<Rightarrow> 'a"
    and nw :: nat
  assumes to_words_length: "length (to_words x) = nw"
    and of_to_words: "of_words (to_words x) = x"
begin

lemma codec:
  "byte_codec (\<lambda>x. enc_words (to_words x)) (\<lambda>buf off. map_option of_words (rd_words buf off nw))
     (4 * nw)"
proof
  show "length (enc_words (to_words x)) = 4 * nw" for x
    by (simp add: to_words_length)
  show "map_option of_words (rd_words (pre @ enc_words (to_words x) @ post) (length pre) nw) = Some x"
    for pre x post
    using rd_words_enc [of pre "to_words x" post] by (simp add: to_words_length of_to_words)
  show "(map_option of_words (rd_words buf off nw) = None) = (length buf < off + 4 * nw)" for buf off
    by (simp add: rd_words_None)
qed

end

sublocale word_struct \<subseteq> cd: byte_codec
  "\<lambda>x. enc_words (to_words x)" "\<lambda>buf off. map_option of_words (rd_words buf off nw)" "4 * nw"
  by (rule codec)

end
