(* ===== verification/Vsc_Msg.thy ===== *)
theory Vsc_Msg
  imports Vsc_Abi
begin

text \<open>
  The message and ioctl structures of \<^verbatim>\<open>vsc.h\<close> as records, with their words in member order
  (\<open>_words\<close>), the inverse (\<open>of_\<close>), and the reader of a structure in kernel memory
  (\<open>dec_\<close>). Each is an interpretation of \<open>word_struct\<close>, or of \<open>byte_codec\<close> where a member
  is not a 32-bit integer, which gives the round trips and the reading of arrays.
\<close>

subsection \<open>SCSI command messages\<close>

record vsc_scsi_msg =
  msg_type :: u32
  msg_reserved0 :: u32
  msg_reserved1 :: u32
  msg_cmd_sn :: u32
  msg_tag :: u32
  msg_host :: u32
  msg_channel :: u32
  msg_id :: u32
  msg_lun :: u32
  msg_direction :: u32

definition vsc_scsi_msg_words :: "vsc_scsi_msg \<Rightarrow> u32 list" where
  "vsc_scsi_msg_words m = [msg_type m, msg_reserved0 m, msg_reserved1 m, msg_cmd_sn m, msg_tag m,
     msg_host m, msg_channel m, msg_id m, msg_lun m, msg_direction m]"

definition of_vsc_scsi_msg :: "u32 list \<Rightarrow> vsc_scsi_msg" where
  "of_vsc_scsi_msg w = \<lparr>msg_type = w ! 0, msg_reserved0 = w ! 1, msg_reserved1 = w ! 2,
     msg_cmd_sn = w ! 3, msg_tag = w ! 4, msg_host = w ! 5, msg_channel = w ! 6, msg_id = w ! 7,
     msg_lun = w ! 8, msg_direction = w ! 9\<rparr>"

interpretation smsg: word_struct vsc_scsi_msg_words of_vsc_scsi_msg 10
  by unfold_locales (simp_all add: vsc_scsi_msg_words_def of_vsc_scsi_msg_def)

text \<open>A command message followed by its CDB, as the driver hands it to the target.\<close>

record vsc_msg_cdb =
  smsg :: vsc_scsi_msg
  cdb :: "byte list"

definition enc_msg_cdb :: "vsc_msg_cdb \<Rightarrow> byte list" where
  "enc_msg_cdb m = enc_words (vsc_scsi_msg_words (smsg m)) @ cdb m"

definition dec_scsi_msg :: "byte list \<Rightarrow> nat \<Rightarrow> vsc_scsi_msg option" where
  "dec_scsi_msg buf off = map_option of_vsc_scsi_msg (rd_words buf off 10)"

definition dec_msg_cdb :: "byte list \<Rightarrow> nat \<Rightarrow> vsc_msg_cdb option" where
  "dec_msg_cdb buf off =
     do { m \<leftarrow> dec_scsi_msg buf off; c \<leftarrow> rd_bytes buf (off + 40) 16;
          Some \<lparr>smsg = m, cdb = c\<rparr> }"

lemma dec_enc_msg_cdb:
  assumes "length (cdb m) = 16"
  shows "dec_msg_cdb (pre @ enc_msg_cdb m @ post) (length pre) = Some m"
proof -
  have "rd_bytes ((pre @ enc_words (vsc_scsi_msg_words (smsg m))) @ cdb m @ post)
      (length (pre @ enc_words (vsc_scsi_msg_words (smsg m)))) (length (cdb m)) = Some (cdb m)"
    by (rule rd_bytes_append)
  then show ?thesis
    using smsg.cd.dec_enc [of pre "smsg m" "cdb m @ post"] assms
    by (auto simp: dec_msg_cdb_def dec_scsi_msg_def enc_msg_cdb_def smsg.to_words_length)
qed

lemma length_enc_msg_cdb: "length (cdb m) = 16 \<Longrightarrow> length (enc_msg_cdb m) = 56"
  by (simp add: enc_msg_cdb_def smsg.to_words_length)

lemma dec_msg_cdb_None: "dec_msg_cdb buf off = None \<longleftrightarrow> length buf < off + 56"
  by (auto simp: dec_msg_cdb_def dec_scsi_msg_def bind_eq_None_conv rd_words_None rd_bytes_def)

lemma dec_msg_cdb_array:
  assumes "\<forall>m\<in>set ms. length (cdb m) = 16" and "i < length ms"
  shows "dec_msg_cdb (pre @ concat (map enc_msg_cdb ms) @ post) (length pre + i * 56) = Some (ms ! i)"
  using assms
proof (induction ms arbitrary: pre i)
  case Nil
  then show ?case by simp
next
  case (Cons m ms)
  show ?case
  proof (cases i)
    case 0
    then show ?thesis
      using Cons.prems dec_enc_msg_cdb [of m pre "concat (map enc_msg_cdb ms) @ post"] by simp
  next
    case (Suc j)
    with Cons.prems Cons.IH [of j "pre @ enc_msg_cdb m"] show ?thesis
      by (simp add: length_enc_msg_cdb algebra_simps)
  qed
qed

lemma length_msg_cdb_array:
  "\<forall>m\<in>set ms. length (cdb m) = 16 \<Longrightarrow> length (concat (map enc_msg_cdb ms)) = 56 * length ms"
  by (induction ms) (simp_all add: length_enc_msg_cdb)

subsection \<open>Data requests\<close>

record vsc_scsi_data_msg =
  dm_type :: u32
  dm_reserved0 :: u32
  dm_reserved1 :: u32
  dm_cmd_sn :: u32
  dm_tag :: u32
  dm_scsi_data_len :: u32

definition vsc_scsi_data_msg_words :: "vsc_scsi_data_msg \<Rightarrow> u32 list" where
  "vsc_scsi_data_msg_words m =
     [dm_type m, dm_reserved0 m, dm_reserved1 m, dm_cmd_sn m, dm_tag m, dm_scsi_data_len m]"

definition of_vsc_scsi_data_msg :: "u32 list \<Rightarrow> vsc_scsi_data_msg" where
  "of_vsc_scsi_data_msg w = \<lparr>dm_type = w ! 0, dm_reserved0 = w ! 1, dm_reserved1 = w ! 2,
     dm_cmd_sn = w ! 3, dm_tag = w ! 4, dm_scsi_data_len = w ! 5\<rparr>"

interpretation dmsg: word_struct vsc_scsi_data_msg_words of_vsc_scsi_data_msg 6
  by unfold_locales (simp_all add: vsc_scsi_data_msg_words_def of_vsc_scsi_data_msg_def)

definition dec_scsi_data_msg :: "byte list \<Rightarrow> nat \<Rightarrow> vsc_scsi_data_msg option" where
  "dec_scsi_data_msg buf off = map_option of_vsc_scsi_data_msg (rd_words buf off 6)"

record vsc_scsi_data =
  sd_data_type :: u32
  sd_data_len :: u32
  sd_nr_iovec :: u32
  sd_total_iovec_len :: u32
  sd_offset :: u32

definition vsc_scsi_data_words :: "vsc_scsi_data \<Rightarrow> u32 list" where
  "vsc_scsi_data_words m =
     [sd_data_type m, sd_data_len m, sd_nr_iovec m, sd_total_iovec_len m, sd_offset m]"

definition of_vsc_scsi_data :: "u32 list \<Rightarrow> vsc_scsi_data" where
  "of_vsc_scsi_data w = \<lparr>sd_data_type = w ! 0, sd_data_len = w ! 1, sd_nr_iovec = w ! 2,
     sd_total_iovec_len = w ! 3, sd_offset = w ! 4\<rparr>"

interpretation sdata: word_struct vsc_scsi_data_words of_vsc_scsi_data 5
  by unfold_locales (simp_all add: vsc_scsi_data_words_def of_vsc_scsi_data_def)

definition dec_scsi_data :: "byte list \<Rightarrow> nat \<Rightarrow> vsc_scsi_data option" where
  "dec_scsi_data buf off = map_option of_vsc_scsi_data (rd_words buf off 5)"

record vsc_iovec =
  iov_base :: u64
  iov_len :: u32

definition enc_iovec :: "vsc_iovec \<Rightarrow> byte list" where
  "enc_iovec v = le_bytes 8 (iov_base v) @ le_bytes 4 (iov_len v) @ replicate 4 0"

definition dec_iovec :: "byte list \<Rightarrow> nat \<Rightarrow> vsc_iovec option" where
  "dec_iovec buf off =
     do { bs \<leftarrow> rd_bytes buf off 16;
          Some \<lparr>iov_base = le_word (take 8 bs), iov_len = le_word (take 4 (drop 8 bs))\<rparr> }"

interpretation iov: byte_codec enc_iovec dec_iovec 16
proof
  show "length (enc_iovec x) = 16" for x
    by (simp add: enc_iovec_def)
  show "dec_iovec (pre @ enc_iovec x @ post) (length pre) = Some x" for pre x post
    using rd_bytes_append [of pre "enc_iovec x" post]
    by (simp add: dec_iovec_def enc_iovec_def)
  show "(dec_iovec buf off = None) = (length buf < off + 16)" for buf off
    by (auto simp: dec_iovec_def rd_bytes_def)
qed

subsection \<open>Responses\<close>

record vsc_scsi_rsp_msg =
  rsp_type :: u32
  rsp_reserved0 :: u32
  rsp_reserved1 :: u32
  rsp_cmd_sn :: u32
  rsp_tag :: u32
  rsp_command_status :: u32
  rsp_scsi_status :: u32

definition vsc_scsi_rsp_msg_words :: "vsc_scsi_rsp_msg \<Rightarrow> u32 list" where
  "vsc_scsi_rsp_msg_words m = [rsp_type m, rsp_reserved0 m, rsp_reserved1 m, rsp_cmd_sn m,
     rsp_tag m, rsp_command_status m, rsp_scsi_status m]"

definition of_vsc_scsi_rsp_msg :: "u32 list \<Rightarrow> vsc_scsi_rsp_msg" where
  "of_vsc_scsi_rsp_msg w = \<lparr>rsp_type = w ! 0, rsp_reserved0 = w ! 1, rsp_reserved1 = w ! 2,
     rsp_cmd_sn = w ! 3, rsp_tag = w ! 4, rsp_command_status = w ! 5, rsp_scsi_status = w ! 6\<rparr>"

interpretation rmsg: word_struct vsc_scsi_rsp_msg_words of_vsc_scsi_rsp_msg 7
  by unfold_locales (simp_all add: vsc_scsi_rsp_msg_words_def of_vsc_scsi_rsp_msg_def)

definition dec_rsp_msg :: "byte list \<Rightarrow> nat \<Rightarrow> vsc_scsi_rsp_msg option" where
  "dec_rsp_msg buf off = map_option of_vsc_scsi_rsp_msg (rd_words buf off 7)"

subsection \<open>Events\<close>

record vsc_scsi_event =
  ev_type :: u32
  ev_reserved0 :: u32
  ev_reserved1 :: u32
  ev_event_sn :: u32
  ev_tag :: u32
  ev_data_length :: u32
  ev_pad :: u32

definition vsc_scsi_event_words :: "vsc_scsi_event \<Rightarrow> u32 list" where
  "vsc_scsi_event_words m = [ev_type m, ev_reserved0 m, ev_reserved1 m, ev_event_sn m, ev_tag m,
     ev_data_length m, ev_pad m]"

definition of_vsc_scsi_event :: "u32 list \<Rightarrow> vsc_scsi_event" where
  "of_vsc_scsi_event w = \<lparr>ev_type = w ! 0, ev_reserved0 = w ! 1, ev_reserved1 = w ! 2,
     ev_event_sn = w ! 3, ev_tag = w ! 4, ev_data_length = w ! 5, ev_pad = w ! 6\<rparr>"

interpretation evmsg: word_struct vsc_scsi_event_words of_vsc_scsi_event 7
  by unfold_locales (simp_all add: vsc_scsi_event_words_def of_vsc_scsi_event_def)

text \<open>The header of an event's data: its type and length.\<close>

record vsc_scsi_msg_data =
  md_data_type :: u32
  md_data_len :: u32

definition vsc_scsi_msg_data_words :: "vsc_scsi_msg_data \<Rightarrow> u32 list" where
  "vsc_scsi_msg_data_words m = [md_data_type m, md_data_len m]"

definition of_vsc_scsi_msg_data :: "u32 list \<Rightarrow> vsc_scsi_msg_data" where
  "of_vsc_scsi_msg_data w = \<lparr>md_data_type = w ! 0, md_data_len = w ! 1\<rparr>"

interpretation mdat: word_struct vsc_scsi_msg_data_words of_vsc_scsi_msg_data 2
  by unfold_locales (simp_all add: vsc_scsi_msg_data_words_def of_vsc_scsi_msg_data_def)

text \<open>The abort and the reset event have the same members.\<close>

record vsc_event_abort =
  ea_cmd_sn :: u32
  ea_host :: u32
  ea_channel :: u32
  ea_id :: u32
  ea_lun :: u32

definition vsc_event_abort_words :: "vsc_event_abort \<Rightarrow> u32 list" where
  "vsc_event_abort_words m = [ea_cmd_sn m, ea_host m, ea_channel m, ea_id m, ea_lun m]"

definition of_vsc_event_abort :: "u32 list \<Rightarrow> vsc_event_abort" where
  "of_vsc_event_abort w = \<lparr>ea_cmd_sn = w ! 0, ea_host = w ! 1, ea_channel = w ! 2,
     ea_id = w ! 3, ea_lun = w ! 4\<rparr>"

interpretation eabort: word_struct vsc_event_abort_words of_vsc_event_abort 5
  by unfold_locales (simp_all add: vsc_event_abort_words_def of_vsc_event_abort_def)

end
