(* ===== verification/Vsc_Pool.thy ===== *)
theory Vsc_Pool
  imports Vsc_Prelude
begin

text \<open>
  The slot pools. A host keeps its command and its event buffers in two tables, each with a
  bitmap of the slots in use (\<open>cmd_pool_bits\<close>, \<open>event_pool_bits\<close>: arrays of
  \<^verbatim>\<open>unsigned long\<close>). Here are the bit operations of the kernel the driver uses on such an
  array and the search loop that \<open>vsc_cmd_alloc\<close> and \<open>vsc_event_alloc\<close> share, with the
  facts that relate an array to the set of its bits; the locale \<open>slot_pool\<close> is the contract
  of an allocator with reference counts.
\<close>

definition BITS_PER_LONG :: nat where "BITS_PER_LONG = 64"

subsection \<open>Bits of an array of words\<close>

definition pool_bit :: "u64 list \<Rightarrow> nat \<Rightarrow> bool" where
  "pool_bit bits i = bit (bits ! (i div BITS_PER_LONG)) (i mod BITS_PER_LONG)"

definition find_first_zero_bit :: "u64 list \<Rightarrow> nat \<Rightarrow> nat" where
  "find_first_zero_bit bits n =
     (case find (\<lambda>i. \<not> pool_bit bits i) [0..<n] of None \<Rightarrow> n | Some i \<Rightarrow> i)"

definition test_and_set_bit :: "nat \<Rightarrow> u64 list \<Rightarrow> nat \<Rightarrow> bool \<times> u64 list" where
  "test_and_set_bit nr bits k =
     (bit (bits ! k) nr, bits[k := Bit_Operations.set_bit nr (bits ! k)])"

definition clear_bit :: "nat \<Rightarrow> u64 list \<Rightarrow> nat \<Rightarrow> u64 list" where
  "clear_bit nr bits k = bits[k := unset_bit nr (bits ! k)]"

definition pool_set :: "u64 list \<Rightarrow> nat \<Rightarrow> bool \<times> u64 list" where
  "pool_set bits i = test_and_set_bit (i AND (BITS_PER_LONG - 1)) bits (i div BITS_PER_LONG)"

definition pool_clear :: "u64 list \<Rightarrow> nat \<Rightarrow> u64 list" where
  "pool_clear bits i = clear_bit (i AND (BITS_PER_LONG - 1)) bits (i div BITS_PER_LONG)"

definition pool_wf :: "u64 list \<Rightarrow> nat \<Rightarrow> bool" where
  "pool_wf bits n \<longleftrightarrow> length bits = (n + BITS_PER_LONG - 1) div BITS_PER_LONG"

definition pool_used :: "u64 list \<Rightarrow> nat \<Rightarrow> nat set" where
  "pool_used bits n = {i. i < n \<and> pool_bit bits i}"

lemma and_63: "i AND (BITS_PER_LONG - Suc 0) = i mod BITS_PER_LONG"
proof -
  have "i AND mask 6 = i mod 2 ^ 6"
    by (simp only: take_bit_eq_mask [symmetric] take_bit_eq_mod)
  moreover have "mask 6 = (63 :: nat)" by (simp add: mask_eq_exp_minus_1)
  ultimately show ?thesis by (simp add: BITS_PER_LONG_def)
qed

lemma pool_word_in_range: "pool_wf bits n \<Longrightarrow> i < n \<Longrightarrow> i div BITS_PER_LONG < length bits"
  by (simp add: pool_wf_def BITS_PER_LONG_def)

lemma div_mod_eq_64: "j div BITS_PER_LONG = i div BITS_PER_LONG \<Longrightarrow>
    (j mod BITS_PER_LONG = i mod BITS_PER_LONG) = (j = i)"
  by (metis div_mult_mod_eq)

lemma pool_bit_set:
  assumes "pool_wf bits n" "i < n"
  shows "pool_bit (snd (pool_set bits i)) j \<longleftrightarrow> j = i \<or> pool_bit bits j"
proof (cases "j div BITS_PER_LONG = i div BITS_PER_LONG")
  case True
  then show ?thesis
    using pool_word_in_range [OF assms] div_mod_eq_64 [OF True]
    by (simp add: pool_bit_def pool_set_def test_and_set_bit_def and_63 bit_simps)
      (auto simp: BITS_PER_LONG_def)
next
  case False
  then have "j \<noteq> i" by auto
  with False show ?thesis
    by (simp add: pool_bit_def pool_set_def test_and_set_bit_def)
qed

lemma fst_pool_set: "fst (pool_set bits i) = pool_bit bits i"
  by (simp add: pool_set_def test_and_set_bit_def pool_bit_def and_63)

lemma pool_bit_clear:
  assumes "pool_wf bits n" "i < n"
  shows "pool_bit (pool_clear bits i) j \<longleftrightarrow> j \<noteq> i \<and> pool_bit bits j"
proof (cases "j div BITS_PER_LONG = i div BITS_PER_LONG")
  case True
  then show ?thesis
    using pool_word_in_range [OF assms] div_mod_eq_64 [OF True]
    by (auto simp: pool_bit_def pool_clear_def clear_bit_def and_63 bit_simps)
next
  case False
  then have "j \<noteq> i" by auto
  with False show ?thesis
    by (simp add: pool_bit_def pool_clear_def clear_bit_def)
qed

lemma pool_wf_set [simp]: "pool_wf (snd (pool_set bits i)) n = pool_wf bits n"
  by (simp add: pool_wf_def pool_set_def test_and_set_bit_def)

lemma pool_wf_clear [simp]: "pool_wf (pool_clear bits i) n = pool_wf bits n"
  by (simp add: pool_wf_def pool_clear_def clear_bit_def)

lemma pool_used_set: "pool_wf bits n \<Longrightarrow> i < n \<Longrightarrow>
    pool_used (snd (pool_set bits i)) n = insert i (pool_used bits n)"
  by (auto simp: pool_used_def pool_bit_set)

lemma pool_used_clear: "pool_wf bits n \<Longrightarrow> i < n \<Longrightarrow>
    pool_used (pool_clear bits i) n = pool_used bits n - {i}"
  by (auto simp: pool_used_def pool_bit_clear)

lemma pool_used_subset: "pool_used bits n \<subseteq> {..<n}"
  by (auto simp: pool_used_def)

lemma find_first_zero_bit_cases:
  obtains (none) "find_first_zero_bit bits n = n" "\<forall>j<n. pool_bit bits j"
  | (some) "find_first_zero_bit bits n < n" "\<not> pool_bit bits (find_first_zero_bit bits n)"
      "\<forall>j<find_first_zero_bit bits n. pool_bit bits j"
proof (cases "find (\<lambda>i. \<not> pool_bit bits i) [0..<n]")
  case None
  then have "\<forall>j<n. pool_bit bits j"
    by (auto simp: find_None_iff)
  moreover from None have "find_first_zero_bit bits n = n"
    by (simp add: find_first_zero_bit_def del: find_None_iff)
  ultimately show thesis by (intro none)
next
  case (Some i)
  then have "i < n" "\<not> pool_bit bits i" "\<forall>j<i. pool_bit bits j"
    by (auto simp: find_Some_iff)
  with Some show thesis
    by (intro some) (auto simp: find_first_zero_bit_def)
qed

lemma find_first_zero_bit_le: "find_first_zero_bit bits n \<le> n"
  by (cases rule: find_first_zero_bit_cases [of bits n]) auto

lemma find_first_zero_bit_clear:
  "find_first_zero_bit bits n < n \<Longrightarrow> \<not> pool_bit bits (find_first_zero_bit bits n)"
  by (cases rule: find_first_zero_bit_cases [of bits n]) auto

lemma find_first_zero_bit_least: "j < find_first_zero_bit bits n \<Longrightarrow> pool_bit bits j"
  by (cases rule: find_first_zero_bit_cases [of bits n]) auto

lemma find_first_zero_bit_full:
  "find_first_zero_bit bits n = n \<longleftrightarrow> pool_used bits n = {..<n}"
  by (cases rule: find_first_zero_bit_cases [of bits n]) (auto simp: pool_used_def set_eq_iff)

subsection \<open>The search loop\<close>

text \<open>
  \<open>do { i = find_first_zero_bit(...); if (i == n) return NULL; } while (test_and_set_bit(...))\<close>.
  The result is the slot found, if any, and the new bitmap.
\<close>

partial_function (option) pool_alloc :: "u64 list \<Rightarrow> nat \<Rightarrow> (nat option \<times> u64 list) option" where
  "pool_alloc bits n =
     (let i = find_first_zero_bit bits n in
      if i = n then Some (None, bits)
      else if fst (pool_set bits i) then pool_alloc (snd (pool_set bits i)) n
      else Some (Some i, snd (pool_set bits i)))"

declare pool_alloc.simps [code]

lemma pool_alloc_eq:
  "pool_alloc bits n =
     (if pool_used bits n = {..<n} then Some (None, bits)
      else Some (Some (find_first_zero_bit bits n),
                 snd (pool_set bits (find_first_zero_bit bits n))))"
proof (cases "find_first_zero_bit bits n = n")
  case True
  then show ?thesis
    by (subst pool_alloc.simps) (simp add: find_first_zero_bit_full)
next
  case False
  then have "find_first_zero_bit bits n < n"
    using find_first_zero_bit_le [of bits n] by simp
  with False show ?thesis
    by (subst pool_alloc.simps)
      (simp add: find_first_zero_bit_full find_first_zero_bit_clear fst_pool_set Let_def)
qed

subsection \<open>The contract of an allocator with reference counts\<close>

locale slot_pool =
  fixes alloc :: "'s \<Rightarrow> (nat option \<times> 's) option"
    and put :: "nat \<Rightarrow> 's \<Rightarrow> 's"
    and used :: "'s \<Rightarrow> nat set"
    and cap :: "'s \<Rightarrow> nat"
    and refs :: "'s \<Rightarrow> nat \<Rightarrow> int"
    and wf :: "'s \<Rightarrow> bool"
  assumes used_cap: "wf s \<Longrightarrow> used s \<subseteq> {..<cap s}"
    and alloc_returns: "wf s \<Longrightarrow> \<exists>r s'. alloc s = Some (r, s')"
    and alloc_None: "wf s \<Longrightarrow> alloc s = Some (None, s') \<Longrightarrow> used s = {..<cap s} \<and> s' = s"
    and alloc_Some: "wf s \<Longrightarrow> alloc s = Some (Some i, s') \<Longrightarrow>
      i < cap s \<and> i \<notin> used s \<and> used s' = insert i (used s) \<and> cap s' = cap s \<and>
      refs s' i = 1 \<and> wf s'"
    and put_last: "wf s \<Longrightarrow> i \<in> used s \<Longrightarrow> refs s i = 1 \<Longrightarrow>
      used (put i s) = used s - {i} \<and> cap (put i s) = cap s \<and> wf (put i s)"
    and put_more: "wf s \<Longrightarrow> i \<in> used s \<Longrightarrow> refs s i > 1 \<Longrightarrow>
      used (put i s) = used s \<and> cap (put i s) = cap s \<and> refs (put i s) i = refs s i - 1 \<and>
      wf (put i s)"
begin

lemma finite_used: "wf s \<Longrightarrow> finite (used s)"
  using used_cap finite_subset by blast

lemma card_used_le: "wf s \<Longrightarrow> card (used s) \<le> cap s"
  using card_mono [OF _ used_cap] by fastforce

lemma alloc_iff_room: "wf s \<Longrightarrow> (\<exists>i s'. alloc s = Some (Some i, s')) \<longleftrightarrow> card (used s) < cap s"
proof
  assume wf: "wf s" and "\<exists>i s'. alloc s = Some (Some i, s')"
  then obtain i s' where "i < cap s" "i \<notin> used s"
    using alloc_Some by blast
  with used_cap [OF wf] have "used s \<subset> {..<cap s}" by auto
  then show "card (used s) < cap s"
    by (metis card_lessThan finite_lessThan psubset_card_mono)
next
  assume wf: "wf s" and room: "card (used s) < cap s"
  obtain r s' where r: "alloc s = Some (r, s')"
    using alloc_returns [OF wf] by blast
  show "\<exists>i s'. alloc s = Some (Some i, s')"
    using r alloc_None [OF wf] room by (cases r) auto
qed

lemma alloc_card: "wf s \<Longrightarrow> alloc s = Some (Some i, s') \<Longrightarrow> card (used s') = Suc (card (used s))"
  using alloc_Some [of s i s'] finite_used [of s] by simp

lemma alloc_then_put: "wf s \<Longrightarrow> alloc s = Some (Some i, s') \<Longrightarrow> used (put i s') = used s"
  using alloc_Some [of s i s'] put_last [of s' i] by auto

lemma put_then_room:
  assumes "wf s" "i \<in> used s" "refs s i = 1"
  shows "\<exists>j s'. alloc (put i s) = Some (Some j, s')"
proof -
  have "card (used (put i s)) < card (used s)"
    using put_last [OF assms] finite_used [OF assms(1)] assms(2)
    by (metis card_Diff1_less)
  then show ?thesis
    using put_last [OF assms] alloc_iff_room [of "put i s"] card_used_le [OF assms(1)] by simp
qed

end

end
