(* ===== verification/Vsc_State.thy ===== *)
theory Vsc_State
  imports Vsc_Msg Vsc_Pool
begin

text \<open>
  The state of the driver: the structures of \<^verbatim>\<open>vsc_main.c\<close> as records, and the objects of
  the SCSI middle layer the driver reads and writes. A pointer to a \<open>vsc_ctrl_info\<close>, a
  \<open>vsc_host_mgr\<close>, a \<open>Scsi_Host\<close>, a \<open>scsi_device\<close> or a \<open>scsi_cmnd\<close> is a natural number, and
  the memory of each kind of object is a function on it. A command or event buffer belongs
  to one host and is named by its index in that host's table; the \<open>h\<close> member of a buffer is
  the host whose table it is in. The intrusive list node of a buffer is not a field: the
  queues of a host are the lists of the buffers linked into them, in order.
\<close>

subsection \<open>Enumerations\<close>

datatype event_shoot_type = EVENT_SHOOT_NOSHOOT | EVENT_SHOOT_SHOOT | EVENT_SHOOT_ABORT

datatype queue_type = VSC_LIST_REQQ | VSC_LIST_COMQ | VSC_LIST_RSPQ

datatype event_list_stat =
  EVENT_LIST_STAT_INIT | EVENT_LIST_STAT_REQUEST | EVENT_LIST_STAT_READ_COMP | EVENT_LIST_STAT_RESP

datatype event_type = EVENT_TIMEOUT | EVENT_SHOOT | EVENT_ABORT

datatype cmd_stat = CMD_STAT_INIT | CMD_STAT_REQUEST | CMD_STAT_READ_COMP | CMD_STAT_RESP

text \<open>The values of \<open>enum cmd_stat\<close> are ordered as a command moves through the driver.\<close>

fun cmd_stat_code :: "cmd_stat \<Rightarrow> nat" where
  "cmd_stat_code CMD_STAT_INIT = 0"
| "cmd_stat_code CMD_STAT_REQUEST = 1"
| "cmd_stat_code CMD_STAT_READ_COMP = 2"
| "cmd_stat_code CMD_STAT_RESP = 3"

lemma cmd_stat_code_inject [simp]: "cmd_stat_code a = cmd_stat_code b \<longleftrightarrow> a = b"
  by (cases a; cases b) simp_all

instantiation cmd_stat :: linorder
begin

definition less_eq_cmd_stat :: "cmd_stat \<Rightarrow> cmd_stat \<Rightarrow> bool" where
  "less_eq_cmd_stat a b = (cmd_stat_code a \<le> cmd_stat_code b)"

definition less_cmd_stat :: "cmd_stat \<Rightarrow> cmd_stat \<Rightarrow> bool" where
  "less_cmd_stat a b = (cmd_stat_code a < cmd_stat_code b)"

instance
  by standard (auto simp: less_eq_cmd_stat_def less_cmd_stat_def)

end

subsection \<open>The SCSI middle layer\<close>

datatype scsi_device_state =
    SDEV_CREATED | SDEV_RUNNING | SDEV_CANCEL | SDEV_DEL | SDEV_QUIESCE | SDEV_OFFLINE
  | SDEV_BLOCK | SDEV_CREATED_BLOCK | SDEV_OTHER u32

text \<open>
  The driver's data of a device (\<open>sdev_data\<close>): a \<open>vsc_ioctl_disk_vol_name\<close> whose \<open>extend\<close>
  member is the 64-bit counter of the read and write commands of the volume.
\<close>

record vsc_ioctl_disk_vol_name =
  v_host :: u32
  v_channel :: u32
  v_id :: u32
  v_lun :: u32
  v_state :: u32
  v_vol_name :: "byte list"
  v_extend :: u64

record scsi_device =
  sdev_host :: nat
  sdev_channel :: u32
  sdev_id :: u32
  sdev_lun :: u32
  sdev_state :: scsi_device_state
  sdev_data :: vsc_ioctl_disk_vol_name
  queue_depth :: int
  rq_timeout :: u32
  sdev_refs :: int

record Scsi_Host =
  host_no :: u32
  host_self_blocked :: bool
  host_lock_held :: bool
  shost_devices :: "nat list"
  hostdata :: nat
  max_channel :: u32
  max_id :: u32
  max_lun :: u32
  max_cmd_len :: u32
  can_queue :: int
  cmd_per_lun :: u32
  sg_tablesize :: u32

record scsi_cmnd =
  sc_device :: nat
  cmnd :: "byte list"
  sc_data_direction :: u32
  sc_sglist :: "byte list list"
  sc_bufflen :: u32
  sense_buffer :: "byte list"
  sc_result :: u32
  host_scribble :: "(nat \<times> nat) option"
  sc_resid :: int

text \<open>
  \<open>sc_sglist\<close> is the memory of the scatter list of a command, \<open>sc_bufflen\<close> the value of
  \<open>scsi_bufflen\<close>. \<open>done_log\<close> records every call \<open>sc->scsi_done(sc)\<close>, with the result the command had then.
\<close>

record midlayer =
  scmds :: "nat \<Rightarrow> scsi_cmnd"
  sdevs :: "nat \<Rightarrow> scsi_device"
  shosts :: "nat \<Rightarrow> Scsi_Host"
  done_log :: "(nat \<times> u32) list"

definition scsi_done :: "nat \<Rightarrow> midlayer \<Rightarrow> midlayer" where
  "scsi_done sc m = m\<lparr>done_log := done_log m @ [(sc, sc_result (scmds m sc))]\<rparr>"

definition upd_sc :: "nat \<Rightarrow> (scsi_cmnd \<Rightarrow> scsi_cmnd) \<Rightarrow> midlayer \<Rightarrow> midlayer" where
  "upd_sc sc f m = m\<lparr>scmds := (scmds m)(sc := f (scmds m sc))\<rparr>"

text \<open>The host byte of a result (\<open>scsi/scsi.h\<close>).\<close>

abbreviation (input) DID_OK :: u32 where "DID_OK \<equiv> 0"
abbreviation (input) DID_NO_CONNECT :: u32 where "DID_NO_CONNECT \<equiv> 1"
abbreviation (input) DID_TIME_OUT :: u32 where "DID_TIME_OUT \<equiv> 3"
abbreviation (input) DID_ABORT :: u32 where "DID_ABORT \<equiv> 5"
abbreviation (input) DID_ERROR :: u32 where "DID_ERROR \<equiv> 7"
abbreviation (input) DID_SOFT_ERROR :: u32 where "DID_SOFT_ERROR \<equiv> 11"
abbreviation (input) DID_REQUEUE :: u32 where "DID_REQUEUE \<equiv> 13"

definition host_byte :: "u32 \<Rightarrow> u32" where
  "host_byte r = drop_bit 16 r AND 0xFF"

subsection \<open>Buffers\<close>

text \<open>
  \<open>event_callback\<close> names the two functions the driver stores there. \<open>event_data\<close> is a page,
  as a function of the offset; \<open>e_waiting\<close> says that a task waits on \<open>wait\<close>.
\<close>

datatype event_callback = Abort_event_callback | Reset_dev_event_callback

definition PAGE_SIZE :: nat where "PAGE_SIZE = 4096"

record vsc_event_list =
  event_index :: u32
  event_sn :: u32
  estat :: event_list_stat
  event_data_len :: nat
  event_data :: "nat \<Rightarrow> byte"
  event_priv :: int
  event_callback :: "event_callback option"
  e_waiting :: bool
  shoot :: event_shoot_type
  erefcnt :: int

record vsc_cmnd_list =
  cmd_index :: u32
  cstat :: cmd_stat
  scsi_cmd :: "nat option"
  cmd_sn :: u32
  crefcnt :: int

record vsc_ctlr_statics =
  reset_dev_count :: u32
  abort_cmd_count :: u32
  read_fail_count :: u32
  write_fail_count :: u32

subsection \<open>The host control block\<close>

text \<open>
  \<open>queue_waiters\<close> is the number of tasks asleep on \<open>queue_wait\<close>; \<open>h_file\<close> the open file that
  owns the host; \<open>target_abnormal_timer\<close> the expiry of the timer when it is armed.
\<close>

record vsc_ctrl_info =
  scsi_host :: "nat option"
  vbs_host_id :: u32
  silbing_hosts :: "nat option"
  nr_cmds :: nat
  io_running :: u32
  reqQ :: "nat list"
  cmpQ :: "nat list"
  rspQ :: "nat list"
  Qdepth :: u32
  h_cmd_sn :: u64
  cmd_pool_tbl :: "vsc_cmnd_list list"
  cmd_pool_bits :: "u64 list"
  event_reqQ :: "nat list"
  event_rspQ :: "nat list"
  nr_events :: nat
  h_event_sn :: u64
  event_pool_tbl :: "vsc_event_list list"
  event_pool_bits :: "u64 list"
  queue_waiters :: nat
  suspend :: u32
  h_file :: "nat option"
  wakeup_pid :: int
  h_stat :: vsc_ctlr_statics
  target_abnormal_timer :: "u64 option"
  target_abnormal_time :: u32
  target_abnormal_lock :: int
  get_cmd_times :: u32
  get_cmd_total :: u32
  get_cdb_times :: u32
  get_cdb_total :: u32
  put_rsp_times :: u32
  put_rsp_total :: u32

text \<open>The block after \<open>memset(h, 0, sizeof(*h))\<close>.\<close>

definition zero_ctrl :: vsc_ctrl_info where
  "zero_ctrl = \<lparr>scsi_host = None, vbs_host_id = 0, silbing_hosts = None, nr_cmds = 0,
     io_running = 0, reqQ = [], cmpQ = [], rspQ = [], Qdepth = 0, h_cmd_sn = 0,
     cmd_pool_tbl = [], cmd_pool_bits = [], event_reqQ = [], event_rspQ = [], nr_events = 0,
     h_event_sn = 0, event_pool_tbl = [], event_pool_bits = [], queue_waiters = 0, suspend = 0,
     h_file = None, wakeup_pid = 0,
     h_stat = \<lparr>reset_dev_count = 0, abort_cmd_count = 0, read_fail_count = 0,
                write_fail_count = 0\<rparr>,
     target_abnormal_timer = None, target_abnormal_time = 0, target_abnormal_lock = 0,
     get_cmd_times = 0, get_cmd_total = 0, get_cdb_times = 0, get_cdb_total = 0,
     put_rsp_times = 0, put_rsp_total = 0\<rparr>"

text \<open>The hosts of one vbs. \<open>host_list\<close> has eight entries.\<close>

definition MAX_HOST_NR_PER_VBS :: nat where "MAX_HOST_NR_PER_VBS = 8"

record vsc_host_mgr =
  vbs_id :: u32
  host_count :: u32
  host_list :: "nat option list"

subsection \<open>The whole state\<close>

record vsc_world =
  hosts :: "nat \<Rightarrow> vsc_ctrl_info"
  mgrs :: "nat \<Rightarrow> vsc_host_mgr"
  g_host_mgr_list :: "nat list"
  mid :: midlayer
  io_per_host :: u32
  io_per_host_shift :: nat

subsection \<open>Access to buffers\<close>

definition upd_cmd :: "nat \<Rightarrow> (vsc_cmnd_list \<Rightarrow> vsc_cmnd_list) \<Rightarrow> vsc_ctrl_info \<Rightarrow> vsc_ctrl_info" where
  "upd_cmd i f h = h\<lparr>cmd_pool_tbl := (cmd_pool_tbl h)[i := f (cmd_pool_tbl h ! i)]\<rparr>"

definition upd_event :: "nat \<Rightarrow> (vsc_event_list \<Rightarrow> vsc_event_list) \<Rightarrow> vsc_ctrl_info \<Rightarrow> vsc_ctrl_info"
  where
  "upd_event i f h = h\<lparr>event_pool_tbl := (event_pool_tbl h)[i := f (event_pool_tbl h ! i)]\<rparr>"

abbreviation cmd_of :: "vsc_ctrl_info \<Rightarrow> nat \<Rightarrow> vsc_cmnd_list" where
  "cmd_of h i \<equiv> cmd_pool_tbl h ! i"

abbreviation event_of :: "vsc_ctrl_info \<Rightarrow> nat \<Rightarrow> vsc_event_list" where
  "event_of h i \<equiv> event_pool_tbl h ! i"

text \<open>\<open>vsc_ctrl_get_host_no\<close>: all ones when the host has no \<open>Scsi_Host\<close>.\<close>

definition vsc_ctrl_get_host_no :: "vsc_ctrl_info \<Rightarrow> u32" where
  "vsc_ctrl_get_host_no h = (case scsi_host h of None \<Rightarrow> - 1 | Some _ \<Rightarrow> vbs_host_id h)"

text \<open>\<open>wake_up_interruptible\<close> on \<open>queue_wait\<close>: every sleeping reader runs again.\<close>

definition wake_up_queue :: "vsc_ctrl_info \<Rightarrow> vsc_ctrl_info" where
  "wake_up_queue h = h\<lparr>queue_waiters := 0\<rparr>"

definition waitqueue_active :: "vsc_ctrl_info \<Rightarrow> bool" where
  "waitqueue_active h \<longleftrightarrow> 0 < queue_waiters h"

end
