(* ===== verification/Vsc_Example.thy ===== *)
theory Vsc_Example
  imports Vsc_State
begin

text \<open>
  A small concrete driver state, at which the properties are applied: one vbs with one host,
  two command buffers and two event buffers, and one device of the middle layer with a
  \<open>READ(10)\<close> command for it. The host is as \<open>vsc_ctrl_init\<close> leaves it.
\<close>

definition example_cmd :: vsc_cmnd_list where
  "example_cmd = \<lparr>cmd_index = 0, cstat = CMD_STAT_INIT, scsi_cmd = None, cmd_sn = 0, crefcnt = 0\<rparr>"

definition example_event :: vsc_event_list where
  "example_event = \<lparr>event_index = 0, event_sn = 0, estat = EVENT_LIST_STAT_INIT, event_data_len = 0,
     event_data = (\<lambda>_. 0), event_priv = 0, event_callback = None, e_waiting = False,
     shoot = EVENT_SHOOT_NOSHOOT, erefcnt = 0\<rparr>"

definition example_host :: vsc_ctrl_info where
  "example_host = zero_ctrl\<lparr>scsi_host := Some 0, vbs_host_id := 0x100, silbing_hosts := Some 0,
     nr_cmds := 2, cmd_pool_tbl := [example_cmd, example_cmd], cmd_pool_bits := [0],
     nr_events := 2, event_pool_tbl := [example_event, example_event], event_pool_bits := [0],
     h_file := Some 7\<rparr>"

definition example_sdev :: scsi_device where
  "example_sdev = \<lparr>sdev_host = 0, sdev_channel = 0, sdev_id = 3, sdev_lun = 1, sdev_state = SDEV_RUNNING,
     sdev_data = \<lparr>v_host = 0, v_channel = 0, v_id = 3, v_lun = 1, v_state = 2,
                  v_vol_name = replicate 96 0, v_extend = 0\<rparr>,
     queue_depth = 32, rq_timeout = 30, sdev_refs = 1\<rparr>"

definition example_shost :: Scsi_Host where
  "example_shost = \<lparr>host_no = 4, host_self_blocked = False, host_lock_held = True, shost_devices = [0],
     hostdata = 0, max_channel = 1, max_id = 8, max_lun = 8, max_cmd_len = 16, can_queue = 2,
     cmd_per_lun = 2, sg_tablesize = 16\<rparr>"

definition example_scmd :: scsi_cmnd where
  "example_scmd = \<lparr>sc_device = 0, cmnd = 0x28 # replicate 9 0, sc_data_direction = 2,
     sc_sglist = [replicate 8 0], sc_bufflen = 8, sense_buffer = replicate 96 0, sc_result = 0,
     host_scribble = None, sc_resid = 0\<rparr>"

definition example_mgr :: vsc_host_mgr where
  "example_mgr = \<lparr>vbs_id = 1, host_count = 1, host_list = Some 0 # replicate 7 None\<rparr>"

definition example_world :: vsc_world where
  "example_world = \<lparr>hosts = (\<lambda>_. example_host), mgrs = (\<lambda>_. example_mgr), g_host_mgr_list = [0],
     mid = \<lparr>scmds = (\<lambda>_. example_scmd), sdevs = (\<lambda>_. example_sdev), shosts = (\<lambda>_. example_shost),
            done_log = []\<rparr>,
     io_per_host = 4, io_per_host_shift = 2\<rparr>"

lemmas example_defs = example_cmd_def example_event_def example_host_def example_sdev_def
  example_shost_def example_scmd_def example_mgr_def example_world_def zero_ctrl_def

lemma example_pool [simp]: "pool_wf [0] 2" "pool_used [0] 2 = {}"
  by (simp_all add: pool_wf_def pool_used_def pool_bit_def BITS_PER_LONG_def)

lemma example_simps [simp]:
  "hosts example_world a = example_host" "mgrs example_world mp = example_mgr"
  "scmds (mid example_world) sc = example_scmd" "sdevs (mid example_world) d = example_sdev"
  "shosts (mid example_world) s = example_shost" "nr_cmds example_host = 2" "nr_events example_host = 2"
  "silbing_hosts example_host = Some 0" "hostdata example_shost = 0" "sdev_host example_sdev = 0"
  "done_log (mid example_world) = []" "scsi_host example_host = Some 0"
  "io_per_host example_world = 4" "io_per_host_shift example_world = 2"
  "sc_device example_scmd = 0" "cmnd example_scmd = 0x28 # replicate 9 0"
  "v_state (sdev_data example_sdev) = 2" "v_extend (sdev_data example_sdev) = 0"
  "host_count example_mgr = 1" "host_list example_mgr = Some 0 # replicate 7 None"
  "host_lock_held example_shost"
  by (simp_all add: example_defs)

end
