(* ===== verification/Vsc_Cmd.thy ===== *)
theory Vsc_Cmd
  imports Vsc_Example
begin

text \<open>
  Command buffers and command queues (\<open>vsc_cmd_alloc\<close>, \<open>vsc_cmd_get\<close>, \<open>vsc_cmd_put\<close>,
  \<open>addQ\<close>, \<open>removeQ\<close>, \<open>list_size\<close>) and the invariant of a host's commands. Each reference
  to a buffer is owned by a queue or by a running handler; \<open>host_inv H h\<close> says that the
  reference counts add up when the running handlers hold the multiset \<open>H\<close>, so a buffer is in
  use exactly when somebody owns it. The lemmas at the end say how each operation moves a
  reference from one owner to the other.
\<close>

subsection \<open>Buffers\<close>

definition vsc_cmd_alloc :: "vsc_ctrl_info \<Rightarrow> (nat option \<times> vsc_ctrl_info) option" where
  "vsc_cmd_alloc h =
     do { (r, bits) \<leftarrow> pool_alloc (cmd_pool_bits h) (nr_cmds h);
          case r of
            None \<Rightarrow> Some (None, h)
          | Some i \<Rightarrow>
              (let h1 = h\<lparr>cmd_pool_bits := bits, h_cmd_sn := h_cmd_sn h + 1\<rparr>;
                   h2 = upd_cmd i (\<lambda>c. c\<lparr>cmd_index := of_nat i, cstat := CMD_STAT_INIT,
                          scsi_cmd := None, cmd_sn := ucast (h_cmd_sn h1), crefcnt := 1\<rparr>) h1
               in Some (Some i, h2)) }"

definition vsc_cmd_get :: "nat \<Rightarrow> vsc_ctrl_info \<Rightarrow> vsc_ctrl_info" where
  "vsc_cmd_get i h = upd_cmd i (\<lambda>c. c\<lparr>crefcnt := crefcnt c + 1\<rparr>) h"

definition vsc_cmd_put :: "nat \<Rightarrow> vsc_ctrl_info \<Rightarrow> vsc_ctrl_info" where
  "vsc_cmd_put i h =
     (let h1 = upd_cmd i (\<lambda>c. c\<lparr>crefcnt := crefcnt c - 1\<rparr>) h; c = cmd_of h1 i in
      if crefcnt c = 0
      then if nr_cmds h1 \<le> unat (cmd_index c) then h1
           else h1\<lparr>cmd_pool_bits := pool_clear (cmd_pool_bits h1) (unat (cmd_index c))\<rparr>
      else h1)"

definition cmd_used :: "vsc_ctrl_info \<Rightarrow> nat set" where
  "cmd_used h = pool_used (cmd_pool_bits h) (nr_cmds h)"

definition cmd_pool_ok :: "vsc_ctrl_info \<Rightarrow> bool" where
  "cmd_pool_ok h \<longleftrightarrow> pool_wf (cmd_pool_bits h) (nr_cmds h) \<and>
     length (cmd_pool_tbl h) = nr_cmds h \<and> nr_cmds h < 2 ^ 31 \<and>
     (\<forall>i\<in>cmd_used h. cmd_index (cmd_of h i) = of_nat i)"

lemma unat_of_nat_u32: "n < 2 ^ 31 \<Longrightarrow> unat (of_nat n :: u32) = n"
  by (simp add: unat_of_nat take_bit_nat_eq_self)

lemma cmd_used_lt: "i \<in> cmd_used h \<Longrightarrow> i < nr_cmds h"
  by (simp add: cmd_used_def pool_used_def)

lemma vsc_cmd_alloc_cases:
  assumes "cmd_pool_ok h"
  obtains (full) "vsc_cmd_alloc h = Some (None, h)" "cmd_used h = {..<nr_cmds h}"
  | (slot) i bits where "i < nr_cmds h" "i \<notin> cmd_used h"
      "pool_wf bits (nr_cmds h)" "pool_used bits (nr_cmds h) = insert i (cmd_used h)"
      "vsc_cmd_alloc h = Some (Some i,
         upd_cmd i (\<lambda>c. c\<lparr>cmd_index := of_nat i, cstat := CMD_STAT_INIT, scsi_cmd := None,
             cmd_sn := ucast (h_cmd_sn h + 1), crefcnt := 1\<rparr>)
           (h\<lparr>cmd_pool_bits := bits, h_cmd_sn := h_cmd_sn h + 1\<rparr>))"
proof (cases "cmd_used h = {..<nr_cmds h}")
  case True
  then show ?thesis
    by (intro full) (simp_all add: vsc_cmd_alloc_def pool_alloc_eq cmd_used_def)
next
  case False
  let ?n = "nr_cmds h" and ?b = "cmd_pool_bits h"
  let ?i = "find_first_zero_bit ?b ?n"
  from False have "?i < ?n"
    using find_first_zero_bit_le [of ?b ?n] find_first_zero_bit_full [of ?b ?n]
    by (simp add: cmd_used_def)
  moreover from this have "?i \<notin> cmd_used h"
    using find_first_zero_bit_clear by (simp add: cmd_used_def pool_used_def)
  ultimately show ?thesis
    using False assms
    by (intro slot [of ?i "snd (pool_set ?b ?i)"])
      (simp_all add: vsc_cmd_alloc_def pool_alloc_eq cmd_used_def cmd_pool_ok_def pool_used_set)
qed

lemma vsc_cmd_put_pool:
  assumes "cmd_pool_ok h" "i \<in> cmd_used h"
  shows "cmd_used (vsc_cmd_put i h) =
           (if crefcnt (cmd_of h i) = 1 then cmd_used h - {i} else cmd_used h)"
    and "cmd_pool_ok (vsc_cmd_put i h)"
    and "cmd_of (vsc_cmd_put i h) i = (cmd_of h i)\<lparr>crefcnt := crefcnt (cmd_of h i) - 1\<rparr>"
proof -
  have "i < nr_cmds h" using assms(2) by (rule cmd_used_lt)
  with assms have i: "i < nr_cmds h" "i < length (cmd_pool_tbl h)" "unat (cmd_index (cmd_of h i)) = i"
    using unat_of_nat_u32 [of i] by (auto simp: cmd_pool_ok_def)
  show used: "cmd_used (vsc_cmd_put i h) =
           (if crefcnt (cmd_of h i) = 1 then cmd_used h - {i} else cmd_used h)"
    using assms i
    by (simp add: vsc_cmd_put_def upd_cmd_def Let_def cmd_used_def cmd_pool_ok_def
        pool_used_clear)
  show "cmd_pool_ok (vsc_cmd_put i h)"
    using assms i
    by (auto simp: cmd_pool_ok_def vsc_cmd_put_def upd_cmd_def Let_def cmd_used_def
        pool_used_clear nth_list_update)
  show "cmd_of (vsc_cmd_put i h) i = (cmd_of h i)\<lparr>crefcnt := crefcnt (cmd_of h i) - 1\<rparr>"
    using i by (simp add: vsc_cmd_put_def upd_cmd_def Let_def)
qed

lemma vsc_cmd_put_nr [simp]: "nr_cmds (vsc_cmd_put i h) = nr_cmds h"
  by (simp add: vsc_cmd_put_def upd_cmd_def Let_def)

interpretation cpool: slot_pool vsc_cmd_alloc vsc_cmd_put cmd_used nr_cmds
  "\<lambda>h i. crefcnt (cmd_of h i)" cmd_pool_ok
proof
  fix h h' :: vsc_ctrl_info and i :: nat
  assume ok: "cmd_pool_ok h"
  show "cmd_used h \<subseteq> {..<nr_cmds h}"
    by (auto simp: cmd_used_lt)
  show "\<exists>r s'. vsc_cmd_alloc h = Some (r, s')"
    using ok by (rule vsc_cmd_alloc_cases) auto
  show "cmd_used h = {..<nr_cmds h} \<and> h' = h" if "vsc_cmd_alloc h = Some (None, h')"
    using ok by (rule vsc_cmd_alloc_cases) (use that in auto)
  show "i < nr_cmds h \<and> i \<notin> cmd_used h \<and> cmd_used h' = insert i (cmd_used h) \<and>
      nr_cmds h' = nr_cmds h \<and> crefcnt (cmd_of h' i) = 1 \<and> cmd_pool_ok h'"
    if "vsc_cmd_alloc h = Some (Some i, h')"
    using ok
    by (rule vsc_cmd_alloc_cases)
      (use that ok in \<open>auto simp: upd_cmd_def cmd_used_def cmd_pool_ok_def nth_list_update\<close>)
  assume used: "i \<in> cmd_used h"
  show "cmd_used (vsc_cmd_put i h) = cmd_used h - {i} \<and>
      nr_cmds (vsc_cmd_put i h) = nr_cmds h \<and> cmd_pool_ok (vsc_cmd_put i h)"
    if "crefcnt (cmd_of h i) = 1"
    using that vsc_cmd_put_pool [OF ok used] by simp
  show "cmd_used (vsc_cmd_put i h) = cmd_used h \<and> nr_cmds (vsc_cmd_put i h) = nr_cmds h \<and>
      crefcnt (cmd_of (vsc_cmd_put i h) i) = crefcnt (cmd_of h i) - 1 \<and>
      cmd_pool_ok (vsc_cmd_put i h)"
    if "1 < crefcnt (cmd_of h i)"
    using that vsc_cmd_put_pool [OF ok used] by simp
qed

subsection \<open>Queues\<close>

definition addQ :: "nat list \<Rightarrow> nat \<Rightarrow> nat list" where
  "addQ q c = q @ [c]"

text \<open>\<open>list_del_init\<close> takes the buffer out of the queue its node is linked into.\<close>

definition removeQ :: "nat \<Rightarrow> vsc_ctrl_info \<Rightarrow> vsc_ctrl_info" where
  "removeQ c h = h\<lparr>reqQ := remove1 c (reqQ h), cmpQ := remove1 c (cmpQ h),
     rspQ := remove1 c (rspQ h)\<rparr>"

definition allQ :: "vsc_ctrl_info \<Rightarrow> nat list" where
  "allQ h = reqQ h @ cmpQ h @ rspQ h"

text \<open>\<open>list_empty(&c->list)\<close>: the buffer is in no queue.\<close>

definition cmd_unlinked :: "nat \<Rightarrow> vsc_ctrl_info \<Rightarrow> bool" where
  "cmd_unlinked c h \<longleftrightarrow> c \<notin> set (allQ h)"

fun list_size :: "nat list \<Rightarrow> nat" where
  "list_size [] = 0"
| "list_size (temp # list) = Suc (list_size list)"

lemma list_size_length [simp]: "list_size q = length q"
  by (induction q) simp_all

subsection \<open>The invariant of the commands of a host\<close>

definition queues_ok :: "vsc_ctrl_info \<Rightarrow> bool" where
  "queues_ok h \<longleftrightarrow> distinct (allQ h) \<and> set (allQ h) \<subseteq> {..<nr_cmds h} \<and>
     (\<forall>i\<in>set (allQ h). scsi_cmd (cmd_of h i) \<noteq> None)"

definition refs_ok :: "nat multiset \<Rightarrow> vsc_ctrl_info \<Rightarrow> bool" where
  "refs_ok H h \<longleftrightarrow> set_mset H \<subseteq> {..<nr_cmds h} \<and>
     (\<forall>i<nr_cmds h. (i \<in> cmd_used h \<longleftrightarrow> i \<in> set (allQ h) \<or> i \<in># H) \<and>
        (i \<in> cmd_used h \<longrightarrow>
           crefcnt (cmd_of h i) = of_bool (i \<in> set (allQ h)) + int (count H i)))"

definition counters_ok :: "vsc_ctrl_info \<Rightarrow> bool" where
  "counters_ok h \<longleftrightarrow> io_running h = of_nat (length (allQ h)) \<and> Qdepth h = of_nat (length (reqQ h))"

definition host_inv :: "nat multiset \<Rightarrow> vsc_ctrl_info \<Rightarrow> bool" where
  "host_inv H h \<longleftrightarrow> cmd_pool_ok h \<and> queues_ok h \<and> refs_ok H h \<and> counters_ok h"

text \<open>A buffer's status says which queue it is in.\<close>

definition phases_ok :: "vsc_ctrl_info \<Rightarrow> bool" where
  "phases_ok h \<longleftrightarrow> (\<forall>i\<in>set (reqQ h). cstat (cmd_of h i) = CMD_STAT_INIT) \<and>
     (\<forall>i\<in>set (cmpQ h). cstat (cmd_of h i) = CMD_STAT_REQUEST) \<and>
     (\<forall>i\<in>set (rspQ h). cstat (cmd_of h i) = CMD_STAT_READ_COMP)"

lemmas host_inv_defs = host_inv_def cmd_pool_ok_def queues_ok_def refs_ok_def counters_ok_def

text \<open>The SCSI commands in the queues of a host.\<close>

definition inflight :: "vsc_ctrl_info \<Rightarrow> nat multiset" where
  "inflight h = image_mset (\<lambda>i. the (scsi_cmd (cmd_of h i))) (mset (allQ h))"

definition completed :: "midlayer \<Rightarrow> nat multiset" where
  "completed m = image_mset fst (mset (done_log m))"

lemma completed_done [simp]: "completed (scsi_done sc m) = add_mset sc (completed m)"
  by (simp add: completed_def scsi_done_def)

lemma completed_upd_sc [simp]: "completed (upd_sc sc f m) = completed m"
  by (simp add: completed_def upd_sc_def)

lemma host_inv_linked: "host_inv H h \<Longrightarrow> i \<in> set (allQ h) \<Longrightarrow>
    i < nr_cmds h \<and> i < length (cmd_pool_tbl h) \<and> i \<in> cmd_used h \<and>
    (\<exists>sc. scsi_cmd (cmd_of h i) = Some sc)"
  by (auto simp: host_inv_defs)

lemma host_inv_held: "host_inv H h \<Longrightarrow> i \<in># H \<Longrightarrow> i < nr_cmds h \<and> i \<in> cmd_used h"
  by (auto simp: host_inv_defs)

subsection \<open>How operations move references\<close>

lemma vsc_cmd_alloc_inv:
  assumes inv: "host_inv H h" and alloc: "vsc_cmd_alloc h = Some (Some i, h')"
  shows "host_inv (add_mset i H) h'" "i \<notin> set (allQ h)" "i < nr_cmds h" "i \<notin># H"
    "allQ h' = allQ h" "reqQ h' = reqQ h" "cmpQ h' = cmpQ h" "rspQ h' = rspQ h"
    "cstat (cmd_of h' i) = CMD_STAT_INIT" "nr_cmds h' = nr_cmds h" "length (cmd_pool_tbl h') = nr_cmds h'"
    "\<forall>j. j \<noteq> i \<longrightarrow> cmd_of h' j = cmd_of h j"
    "cmd_sn (cmd_of h' i) = ucast (h_cmd_sn h + 1)" "h_cmd_sn h' = h_cmd_sn h + 1"
proof -
  have ok: "cmd_pool_ok h" using inv by (simp add: host_inv_def)
  then obtain bits where b: "i < nr_cmds h" "i \<notin> cmd_used h"
      "pool_wf bits (nr_cmds h)" "pool_used bits (nr_cmds h) = insert i (cmd_used h)"
    and h': "h' = upd_cmd i (\<lambda>c. c\<lparr>cmd_index := of_nat i, cstat := CMD_STAT_INIT,
             scsi_cmd := None, cmd_sn := ucast (h_cmd_sn h + 1), crefcnt := 1\<rparr>)
           (h\<lparr>cmd_pool_bits := bits, h_cmd_sn := h_cmd_sn h + 1\<rparr>)"
    by (rule vsc_cmd_alloc_cases) (use alloc in auto)
  have len: "i < length (cmd_pool_tbl h)" using inv b by (simp add: host_inv_defs)
  show q: "allQ h' = allQ h" by (simp add: h' upd_cmd_def allQ_def)
  have used: "cmd_used h' = insert i (cmd_used h)"
    using b by (simp add: h' upd_cmd_def cmd_used_def)
  show nq: "i \<notin> set (allQ h)" and "i < nr_cmds h" and nH: "i \<notin># H"
    using inv b by (auto simp: host_inv_defs)
  have pool: "cmd_pool_ok h'"
    using cpool.alloc_Some [OF ok alloc] by simp
  have other: "\<forall>j. j \<noteq> i \<longrightarrow> cmd_of h' j = cmd_of h j"
    by (simp add: h' upd_cmd_def)
  have nr: "nr_cmds h' = nr_cmds h"
    by (simp add: h' upd_cmd_def)
  have "\<forall>j\<in>set (allQ h). cmd_of h' j = cmd_of h j"
    using other nq by metis
  then have "queues_ok h'"
    using inv unfolding queues_ok_def q nr by (simp add: host_inv_def queues_ok_def)
  moreover have "refs_ok (add_mset i H) h'"
    using inv nq nH b unfolding refs_ok_def q used
    by (auto simp: host_inv_defs h' upd_cmd_def nth_list_update not_in_iff)
  moreover have "counters_ok h'"
    using inv by (simp add: counters_ok_def q host_inv_def) (simp add: h' upd_cmd_def)
  ultimately show "host_inv (add_mset i H) h'"
    using pool by (simp add: host_inv_def)
  show "reqQ h' = reqQ h" "cmpQ h' = cmpQ h" "rspQ h' = rspQ h"
    "cstat (cmd_of h' i) = CMD_STAT_INIT" "nr_cmds h' = nr_cmds h"
    "length (cmd_pool_tbl h') = nr_cmds h'" "\<forall>j. j \<noteq> i \<longrightarrow> cmd_of h' j = cmd_of h j"
    "cmd_sn (cmd_of h' i) = ucast (h_cmd_sn h + 1)" "h_cmd_sn h' = h_cmd_sn h + 1"
    using len inv by (auto simp: h' upd_cmd_def host_inv_defs)
qed

lemma vsc_cmd_get_inv:
  assumes "host_inv H h" "i \<in> cmd_used h"
  shows "host_inv (add_mset i H) (vsc_cmd_get i h)"
  using assms cmd_used_lt [OF assms(2)]
  by (auto simp: host_inv_defs vsc_cmd_get_def upd_cmd_def allQ_def cmd_used_def nth_list_update)

lemma vsc_cmd_put_inv:
  assumes "host_inv (add_mset i H) h"
  shows "host_inv H (vsc_cmd_put i h)"
proof -
  have i: "i \<in> cmd_used h" "i < nr_cmds h" and ok: "cmd_pool_ok h"
    using host_inv_held [OF assms, of i] assms by (auto simp: host_inv_def)
  let ?h = "vsc_cmd_put i h"
  note put = vsc_cmd_put_pool [OF ok i(1)]
  have q: "allQ ?h = allQ h" "reqQ ?h = reqQ h" "io_running ?h = io_running h" "Qdepth ?h = Qdepth h"
    by (simp_all add: vsc_cmd_put_def upd_cmd_def Let_def allQ_def)
  have other: "\<forall>j. j \<noteq> i \<longrightarrow> cmd_of ?h j = cmd_of h j"
    by (simp add: vsc_cmd_put_def upd_cmd_def Let_def)
  have sc: "\<forall>j. scsi_cmd (cmd_of ?h j) = scsi_cmd (cmd_of h j)"
    using other put(3) by (metis vsc_cmnd_list.select_convs(3) vsc_cmnd_list.surjective
        vsc_cmnd_list.update_convs(5))
  have "queues_ok ?h"
    using assms by (simp add: queues_ok_def q sc host_inv_def)
  moreover have "counters_ok ?h"
    using assms by (simp add: counters_ok_def q host_inv_def)
  moreover have "refs_ok H ?h"
    unfolding refs_ok_def q vsc_cmd_put_nr
  proof (intro conjI allI impI)
    show "set_mset H \<subseteq> {..<nr_cmds h}"
      using assms by (auto simp: host_inv_defs)
    fix j
    assume j: "j < nr_cmds h"
    have old: "(j \<in> cmd_used h) = (j \<in> set (allQ h) \<or> j \<in># add_mset i H)"
      "j \<in> cmd_used h \<Longrightarrow>
         crefcnt (cmd_of h j) = of_bool (j \<in> set (allQ h)) + int (count (add_mset i H) j)"
      using assms j by (auto simp: host_inv_def refs_ok_def)
    show "(j \<in> cmd_used ?h) = (j \<in> set (allQ h) \<or> j \<in># H)"
    proof (cases "j = i")
      case True
      have "count H i = 0 \<longleftrightarrow> i \<notin># H" by (simp add: not_in_iff)
      with True old i put(1) show ?thesis
        by (auto simp: of_bool_def split: if_splits)
    next
      case False
      with old put(1) show ?thesis by auto
    qed
    show "crefcnt (cmd_of ?h j) = of_bool (j \<in> set (allQ h)) + int (count H j)"
      if "j \<in> cmd_used ?h"
      using that old i put(1,3) other by (cases "j = i") (auto split: if_splits)
  qed
  ultimately show ?thesis using put(2) by (simp add: host_inv_def)
qed

lemma allQ_removeQ: "distinct (allQ h) \<Longrightarrow> allQ (removeQ c h) = remove1 c (allQ h)"
  by (auto simp: allQ_def removeQ_def remove1_append remove1_idem disjoint_iff)

text \<open>
  \<open>unlink c h\<close> is what the handlers do to take a buffer over from its queue: \<open>removeQ\<close> and
  one running command less. The queue's reference passes to the handler.
\<close>

definition unlink :: "nat \<Rightarrow> vsc_ctrl_info \<Rightarrow> vsc_ctrl_info" where
  "unlink c h = (let h1 = removeQ c h in h1\<lparr>io_running := io_running h1 - 1\<rparr>)"

lemma unlink_simps [simp]:
  "cmd_pool_tbl (unlink c h) = cmd_pool_tbl h" "cmd_pool_bits (unlink c h) = cmd_pool_bits h"
  "nr_cmds (unlink c h) = nr_cmds h" "Qdepth (unlink c h) = Qdepth h"
  "reqQ (unlink c h) = remove1 c (reqQ h)" "cmpQ (unlink c h) = remove1 c (cmpQ h)"
  "rspQ (unlink c h) = remove1 c (rspQ h)" "io_running (unlink c h) = io_running h - 1"
  by (simp_all add: unlink_def removeQ_def Let_def)

lemma allQ_unlink: "distinct (allQ h) \<Longrightarrow> allQ (unlink c h) = remove1 c (allQ h)"
  using allQ_removeQ [of h c] by (simp add: allQ_def removeQ_def)

lemma unlink_inv:
  assumes inv: "host_inv H h" and c: "c \<in> set (allQ h)" "c \<notin> set (reqQ h)"
  shows "host_inv (add_mset c H) (unlink c h)"
proof -
  let ?h = "unlink c h"
  have d: "distinct (allQ h)" using inv by (simp add: host_inv_defs)
  note q = allQ_unlink [OF d, of c]
  have used: "cmd_used ?h = cmd_used h" by (simp add: cmd_used_def)
  have "cmd_pool_ok ?h"
    using inv by (simp add: host_inv_def cmd_pool_ok_def used)
  moreover have "queues_ok ?h"
    using inv d by (auto simp: host_inv_def queues_ok_def q set_remove1_eq)
  moreover have "refs_ok (add_mset c H) ?h"
    using inv d c by (auto simp: host_inv_def refs_ok_def queues_ok_def q used)
  moreover have "counters_ok ?h"
    using inv c
    by (auto simp: host_inv_def counters_ok_def q length_remove1 remove1_idem
        of_nat_diff Suc_leI dest: length_pos_if_in_set)
  ultimately show ?thesis by (simp add: host_inv_def)
qed

lemma inflight_unlink:
  assumes "distinct (allQ h)" "c \<in> set (allQ h)" "scsi_cmd (cmd_of h c) = Some sc"
  shows "add_mset sc (inflight (unlink c h)) = inflight h"
  using mset_map_remove1 [OF assms(2), of "\<lambda>i. the (scsi_cmd (cmd_of h i))"] assms
  by (simp add: inflight_def allQ_unlink)

text \<open>
  An operation that only moves buffers between queues, or writes fields of buffers that the
  invariant does not mention, keeps the invariant and the commands in flight.
\<close>

definition same_buffers :: "vsc_ctrl_info \<Rightarrow> vsc_ctrl_info \<Rightarrow> bool" where
  "same_buffers h h' \<longleftrightarrow> nr_cmds h' = nr_cmds h \<and> cmd_pool_bits h' = cmd_pool_bits h \<and>
     length (cmd_pool_tbl h') = length (cmd_pool_tbl h) \<and>
     (\<forall>i. cmd_index (cmd_of h' i) = cmd_index (cmd_of h i) \<and>
          scsi_cmd (cmd_of h' i) = scsi_cmd (cmd_of h i) \<and>
          crefcnt (cmd_of h' i) = crefcnt (cmd_of h i))"

lemma same_buffers_refl [simp]: "same_buffers h h"
  by (simp add: same_buffers_def)

lemma same_buffers_trans: "same_buffers h h' \<Longrightarrow> same_buffers h' h'' \<Longrightarrow> same_buffers h h''"
  by (simp add: same_buffers_def)

lemma host_inv_move:
  assumes inv: "host_inv H h" and same: "same_buffers h h'"
    and q: "mset (allQ h') = mset (allQ h)"
    and io: "io_running h' = io_running h" and qd: "Qdepth h' = of_nat (length (reqQ h'))"
  shows "host_inv H h'"
proof -
  have set_q: "set (allQ h') = set (allQ h)" using q by (rule mset_eq_setD)
  have used: "cmd_used h' = cmd_used h" using same by (simp add: cmd_used_def same_buffers_def)
  have "distinct (allQ h')"
    using inv q by (metis host_inv_def mset_eq_imp_distinct_iff queues_ok_def)
  moreover have "length (allQ h') = length (allQ h)" using q by (rule mset_eq_length)
  ultimately show ?thesis
    using inv same io qd
    by (simp add: host_inv_defs set_q used same_buffers_def)
qed

lemma inflight_move:
  "same_buffers h h' \<Longrightarrow> mset (allQ h') = mset (allQ h) \<Longrightarrow> inflight h' = inflight h"
  by (simp add: inflight_def same_buffers_def)

lemma same_buffers_upd_stat [simp]: "same_buffers h (upd_cmd c (cstat_update f) h)"
  by (simp add: same_buffers_def upd_cmd_def nth_list_update)
    (metis (no_types, lifting) nth_list_update nth_list_update_eq nth_list_update_neq
      list_update_beyond linorder_not_less vsc_cmnd_list.select_convs
      vsc_cmnd_list.surjective vsc_cmnd_list.update_convs(2))

lemma example_host_inv: "host_inv {#} example_host"
  by (simp add: host_inv_defs allQ_def cmd_used_def) (simp add: example_defs)

end
