(* ===== verification/Vsc_Io.thy ===== *)
theory Vsc_Io
  imports Vsc_Cmd
begin

text \<open>
  The submission path: the middle layer hands the driver a command
  (\<open>vsc_scsi_queue_command\<close>), which picks one of the hosts of the vbs, takes a buffer,
  appends it to the request queue (\<open>vsc_enqueue_cmd_and_start_io\<close>) and moves the request
  queue to the queue the target reads (\<open>vsc_start_io\<close>, or the unused \<open>vsc_start_io_new\<close>).
\<close>

subsection \<open>Command classes\<close>

abbreviation (input) READ_6 :: byte where "READ_6 \<equiv> 0x08"
abbreviation (input) WRITE_6 :: byte where "WRITE_6 \<equiv> 0x0a"
abbreviation (input) READ_10 :: byte where "READ_10 \<equiv> 0x28"
abbreviation (input) WRITE_10 :: byte where "WRITE_10 \<equiv> 0x2a"
abbreviation (input) READ_16 :: byte where "READ_16 \<equiv> 0x88"
abbreviation (input) WRITE_16 :: byte where "WRITE_16 \<equiv> 0x8a"
abbreviation (input) READ_12 :: byte where "READ_12 \<equiv> 0xa8"
abbreviation (input) WRITE_12 :: byte where "WRITE_12 \<equiv> 0xaa"

definition vsc_is_readwrite_cmd :: "byte \<Rightarrow> bool" where
  "vsc_is_readwrite_cmd cmd_type \<longleftrightarrow>
     cmd_type \<in> set [WRITE_6, WRITE_10, WRITE_12, WRITE_16, READ_6, READ_10, READ_12, READ_16]"

definition vsc_is_read_cmd :: "byte \<Rightarrow> bool" where
  "vsc_is_read_cmd cmd_type \<longleftrightarrow> cmd_type \<in> set [READ_6, READ_10, READ_12, READ_16]"

definition vsc_is_write_cmd :: "byte \<Rightarrow> bool" where
  "vsc_is_write_cmd cmd_type \<longleftrightarrow> cmd_type \<in> set [WRITE_6, WRITE_10, WRITE_12, WRITE_16]"

lemma readwrite_split:
  "vsc_is_readwrite_cmd b \<longleftrightarrow> vsc_is_read_cmd b \<or> vsc_is_write_cmd b"
  "\<not> (vsc_is_read_cmd b \<and> vsc_is_write_cmd b)"
  by (auto simp: vsc_is_readwrite_cmd_def vsc_is_read_cmd_def vsc_is_write_cmd_def)

subsection \<open>From the request queue to the queue the target reads\<close>

text \<open>One round of the loop of \<open>vsc_start_io\<close>, for the first buffer \<open>c\<close> of the request queue.\<close>

definition start_io_step :: "nat \<Rightarrow> vsc_ctrl_info \<Rightarrow> vsc_ctrl_info" where
  "start_io_step c h =
     (let h1 = removeQ c h;
          h2 = h1\<lparr>Qdepth := Qdepth h1 - 1\<rparr>;
          h3 = upd_cmd c (\<lambda>c. c\<lparr>cstat := CMD_STAT_REQUEST\<rparr>) h2;
          h4 = h3\<lparr>cmpQ := addQ (cmpQ h3) c\<rparr>
      in if waitqueue_active h4 then wake_up_queue h4 else h4)"

lemma reqQ_start_io_step [simp]: "reqQ (start_io_step c h) = remove1 c (reqQ h)"
  by (simp add: start_io_step_def Let_def upd_cmd_def removeQ_def wake_up_queue_def)

function vsc_start_io :: "vsc_ctrl_info \<Rightarrow> vsc_ctrl_info" where
  "vsc_start_io h =
     (case reqQ h of [] \<Rightarrow> h | c # _ \<Rightarrow> vsc_start_io (start_io_step c h))"
  by pat_completeness auto
termination
  by (relation "measure (\<lambda>h. length (reqQ h))") auto

declare vsc_start_io.simps [simp del]

definition vsc_start_io_new :: "vsc_ctrl_info \<Rightarrow> vsc_ctrl_info" where
  "vsc_start_io_new h =
     (let temp = reqQ h;
          h1 = h\<lparr>reqQ := [], Qdepth := 0\<rparr>;
          h2 = fold (\<lambda>c. upd_cmd c (\<lambda>c. c\<lparr>cstat := CMD_STAT_REQUEST\<rparr>)) temp h1;
          h3 = h2\<lparr>cmpQ := cmpQ h2 @ temp\<rparr>
      in if waitqueue_active h3 then wake_up_queue h3 else h3)"

definition vsc_enqueue_cmd_and_start_io :: "nat \<Rightarrow> vsc_ctrl_info \<Rightarrow> vsc_ctrl_info" where
  "vsc_enqueue_cmd_and_start_io c h =
     vsc_start_io (h\<lparr>reqQ := addQ (reqQ h) c, Qdepth := Qdepth h + 1, io_running := io_running h + 1\<rparr>)"

subsection \<open>Choosing the host\<close>

text \<open>
  \<open>((__u32)sn >> io_per_host_shift) % silbing_hosts->host_count\<close>; a division by zero has
  no value.
\<close>

definition vsc_host_index :: "nat \<Rightarrow> u32 \<Rightarrow> u64 \<Rightarrow> u32 option" where
  "vsc_host_index shift cnt sn =
     (if cnt = 0 then None else Some (drop_bit shift (ucast sn :: u32) mod cnt))"

definition set_host_lock :: "nat \<Rightarrow> bool \<Rightarrow> vsc_world \<Rightarrow> vsc_world" where
  "set_host_lock shp b w = w\<lparr>mid := (mid w)\<lparr>shosts :=
     (shosts (mid w))(shp := (shosts (mid w) shp)\<lparr>host_lock_held := b\<rparr>)\<rparr>\<rparr>"

definition set_vol_extend :: "nat \<Rightarrow> u64 \<Rightarrow> vsc_world \<Rightarrow> vsc_world" where
  "set_vol_extend d x w = w\<lparr>mid := (mid w)\<lparr>sdevs :=
     (sdevs (mid w))(d := (sdevs (mid w) d)\<lparr>sdev_data := (sdev_data (sdevs (mid w) d))\<lparr>v_extend := x\<rparr>\<rparr>)\<rparr>\<rparr>"

definition upd_host :: "nat \<Rightarrow> vsc_ctrl_info \<Rightarrow> vsc_world \<Rightarrow> vsc_world" where
  "upd_host hp h w = w\<lparr>hosts := (hosts w)(hp := h)\<rparr>"

text \<open>
  The part of \<open>vsc_scsi_queue_command\<close> between the unlocking and the allocation: the host
  the command goes to, or \<open>None\<close> where the code gives up with \<open>FAILED\<close>.
\<close>

definition vsc_select_host :: "nat \<Rightarrow> nat \<Rightarrow> vsc_world \<Rightarrow> (nat option \<times> vsc_world) option" where
  "vsc_select_host sc orig_h w =
     (if 0 < io_per_host w then
        case silbing_hosts (hosts w orig_h) of
          None \<Rightarrow> Some (None, w)
        | Some mp \<Rightarrow>
            (case cmnd (scmds (mid w) sc) of
               [] \<Rightarrow> None
             | op # _ \<Rightarrow>
                 if vsc_is_readwrite_cmd op then
                   (let d = sc_device (scmds (mid w) sc);
                        sn = v_extend (sdev_data (sdevs (mid w) d)) + 1;
                        w1 = set_vol_extend d sn w
                    in do { host_index \<leftarrow> vsc_host_index (io_per_host_shift w) (host_count (mgrs w mp)) sn;
                            if of_nat MAX_HOST_NR_PER_VBS \<le> host_index then Some (None, w1)
                            else Some (host_list (mgrs w mp) ! unat host_index, w1) })
                 else Some (host_list (mgrs w mp) ! 0, w))
      else Some (Some orig_h, w))"

definition vsc_scsi_queue_command :: "nat \<Rightarrow> vsc_world \<Rightarrow> (int \<times> vsc_world) option" where
  "vsc_scsi_queue_command sc w =
     (let sdev = sdevs (mid w) (sc_device (scmds (mid w) sc));
          orig_h = hostdata (shosts (mid w) (sdev_host sdev))
      in
      if v_state (sdev_data sdev) = VSC_DISK_PREPARE_DELETE then
        Some (0, w\<lparr>mid := scsi_done sc
          (upd_sc sc (\<lambda>s. s\<lparr>sc_result := push_bit 16 DID_NO_CONNECT\<rparr>) (mid w))\<rparr>)
      else
        do { shp \<leftarrow> scsi_host (hosts w orig_h);
             (hp, w2) \<leftarrow> vsc_select_host sc orig_h (set_host_lock shp False w);
             case hp of
               None \<Rightarrow> Some (FAILED, set_host_lock shp True w2)
             | Some hp \<Rightarrow>
                 do { (r, h1) \<leftarrow> vsc_cmd_alloc (hosts w2 hp);
                      case r of
                        None \<Rightarrow> Some (SCSI_MLQUEUE_HOST_BUSY, set_host_lock shp True w2)
                      | Some c \<Rightarrow>
                          (let w3 = w2\<lparr>mid := upd_sc sc (\<lambda>s. s\<lparr>host_scribble := Some (hp, c)\<rparr>) (mid w2)\<rparr>;
                               h2 = upd_cmd c (\<lambda>x. x\<lparr>scsi_cmd := Some sc\<rparr>) h1;
                               h3 = vsc_enqueue_cmd_and_start_io c h2
                           in Some (0, set_host_lock shp True (upd_host hp h3 w3))) } })"

text \<open>The scan callbacks of the host template.\<close>

definition vsc_scan_finished :: int where "vsc_scan_finished = 1"

definition vsc_scan_start :: "vsc_world \<Rightarrow> vsc_world" where "vsc_scan_start w = w"

subsection \<open>\<open>vsc_start_io\<close>\<close>

lemma start_io_step_facts:
  assumes inv: "host_inv H h" and q: "reqQ h = c # q"
  shows "same_buffers h (start_io_step c h)" "reqQ (start_io_step c h) = q"
    "cmpQ (start_io_step c h) = cmpQ h @ [c]" "rspQ (start_io_step c h) = rspQ h"
    "Qdepth (start_io_step c h) = of_nat (length q)"
    "io_running (start_io_step c h) = io_running h" "queue_waiters (start_io_step c h) = 0"
    "host_inv H (start_io_step c h)"
proof -
  let ?h = "start_io_step c h"
  have c: "c \<notin> set (cmpQ h)" "c \<notin> set (rspQ h)" and qd: "Qdepth h = of_nat (Suc (length q))"
    using inv q by (auto simp: host_inv_defs allQ_def)
  show fields: "reqQ ?h = q" "cmpQ ?h = cmpQ h @ [c]" "rspQ ?h = rspQ h"
    "Qdepth ?h = of_nat (length q)" "io_running ?h = io_running h" "queue_waiters ?h = 0"
    using q c qd
    by (simp_all add: start_io_step_def Let_def upd_cmd_def removeQ_def addQ_def
        wake_up_queue_def waitqueue_active_def remove1_idem)
  show same: "same_buffers h ?h"
  proof -
    have "same_buffers h (upd_cmd c (cstat_update (\<lambda>_. CMD_STAT_REQUEST)) h)"
      by (rule same_buffers_upd_stat)
    then show ?thesis
      by (simp add: same_buffers_def start_io_step_def Let_def upd_cmd_def removeQ_def
          wake_up_queue_def)
  qed
  show "host_inv H ?h"
    using inv same by (rule host_inv_move) (simp_all add: allQ_def fields q)
qed

text \<open>\<open>mark q\<close> writes the status of the buffers \<open>q\<close>, one after the other.\<close>

definition mark_stat :: "cmd_stat \<Rightarrow> nat list \<Rightarrow> vsc_cmnd_list list \<Rightarrow> vsc_cmnd_list list" where
  "mark_stat st = fold (\<lambda>c t. t[c := (t ! c)\<lparr>cstat := st\<rparr>])"

lemma fold_upd_stat:
  "fold (\<lambda>c. upd_cmd c (\<lambda>c. c\<lparr>cstat := st\<rparr>)) q h = h\<lparr>cmd_pool_tbl := mark_stat st q (cmd_pool_tbl h)\<rparr>"
  by (induction q arbitrary: h) (simp_all add: mark_stat_def upd_cmd_def)

lemma length_mark_stat [simp]: "length (mark_stat st q t) = length t"
  by (induction q arbitrary: t) (simp_all add: mark_stat_def)

lemma mark_stat_nth: "i < length t \<Longrightarrow>
    mark_stat st q t ! i = (if i \<in> set q then (t ! i)\<lparr>cstat := st\<rparr> else t ! i)"
proof (induction q arbitrary: t)
  case (Cons c q)
  then show ?case
    using Cons.IH [of "t[c := (t ! c)\<lparr>cstat := st\<rparr>]"] by (cases "c = i") (simp_all add: mark_stat_def)
qed (simp add: mark_stat_def)

lemma mark_stat_beyond: "length t \<le> i \<Longrightarrow> mark_stat st q t ! i = t ! i"
proof (induction q arbitrary: t)
  case (Cons c q)
  then show ?case
    by (simp add: mark_stat_def) (metis list_update_beyond not_less nth_list_update_neq)
qed (simp add: mark_stat_def)

lemma same_buffers_mark [simp]: "same_buffers h (h\<lparr>cmd_pool_tbl := mark_stat st q (cmd_pool_tbl h)\<rparr>)"
  unfolding same_buffers_def
  by (simp, intro allI) (metis (no_types, lifting) mark_stat_nth mark_stat_beyond not_le
      vsc_cmnd_list.select_convs(1,3,5) vsc_cmnd_list.surjective vsc_cmnd_list.update_convs(2))

lemma start_io_step_eq:
  assumes "host_inv H h" "reqQ h = c # q"
  shows "start_io_step c h = h\<lparr>cmd_pool_tbl := mark_stat CMD_STAT_REQUEST [c] (cmd_pool_tbl h),
     reqQ := q, cmpQ := cmpQ h @ [c], Qdepth := of_nat (length q), queue_waiters := 0\<rparr>"
proof -
  have "c \<notin> set (cmpQ h)" "c \<notin> set (rspQ h)" "Qdepth h = of_nat (Suc (length q))"
    using assms by (auto simp: host_inv_defs allQ_def)
  then show ?thesis
    using assms(2)
    by (simp add: start_io_step_def Let_def upd_cmd_def removeQ_def addQ_def mark_stat_def
        wake_up_queue_def waitqueue_active_def remove1_idem)
qed

lemma vsc_start_io_eq:
  "host_inv H h \<Longrightarrow> vsc_start_io h = h\<lparr>cmd_pool_tbl := mark_stat CMD_STAT_REQUEST (reqQ h) (cmd_pool_tbl h),
     reqQ := [], cmpQ := cmpQ h @ reqQ h, Qdepth := 0,
     queue_waiters := (if reqQ h = [] then queue_waiters h else 0)\<rparr>"
proof (induction "reqQ h" arbitrary: h)
  case Nil
  then show ?case
    by (subst vsc_start_io.simps) (simp add: host_inv_defs mark_stat_def)
next
  case (Cons c q)
  have q: "reqQ h = c # q" using Cons.hyps(2) by simp
  let ?h = "start_io_step c h"
  note facts = start_io_step_facts [OF Cons.prems q]
  have "vsc_start_io h = vsc_start_io ?h"
    by (subst vsc_start_io.simps) (simp add: q)
  also have "\<dots> = ?h\<lparr>cmd_pool_tbl := mark_stat CMD_STAT_REQUEST (reqQ ?h) (cmd_pool_tbl ?h),
     reqQ := [], cmpQ := cmpQ ?h @ reqQ ?h, Qdepth := 0,
     queue_waiters := (if reqQ ?h = [] then queue_waiters ?h else 0)\<rparr>"
    using Cons.hyps(1) [of ?h] facts by simp
  finally show ?case
    by (simp add: start_io_step_eq [OF Cons.prems q] q) (simp add: mark_stat_def)
qed

lemma vsc_start_io_spec:
  assumes inv: "host_inv H h"
  shows "host_inv H (vsc_start_io h)" "same_buffers h (vsc_start_io h)"
    "reqQ (vsc_start_io h) = []" "cmpQ (vsc_start_io h) = cmpQ h @ reqQ h"
    "rspQ (vsc_start_io h) = rspQ h" "inflight (vsc_start_io h) = inflight h"
    "mset (allQ (vsc_start_io h)) = mset (allQ h)"
proof -
  let ?h = "vsc_start_io h"
  note eq = vsc_start_io_eq [OF inv]
  show q: "reqQ ?h = []" "cmpQ ?h = cmpQ h @ reqQ h" "rspQ ?h = rspQ h"
    by (simp_all add: eq)
  show m: "mset (allQ ?h) = mset (allQ h)"
    by (simp add: allQ_def q)
  show same: "same_buffers h ?h"
    using same_buffers_mark [of h CMD_STAT_REQUEST "reqQ h"]
    by (simp add: eq same_buffers_def)
  show "host_inv H ?h"
    using inv same m by (rule host_inv_move) (simp_all add: eq)
  show "inflight ?h = inflight h"
    using same m by (rule inflight_move)
qed

lemma vsc_start_io_phases:
  assumes inv: "host_inv H h" and ph: "phases_ok h"
  shows "phases_ok (vsc_start_io h)"
proof -
  have "\<forall>i\<in>set (allQ h). i < length (cmd_pool_tbl h)" and d: "distinct (allQ h)"
    using inv by (auto simp: host_inv_defs)
  then show ?thesis
    using ph unfolding phases_ok_def vsc_start_io_eq [OF inv]
    by (auto simp: mark_stat_nth allQ_def)
qed

lemma vsc_start_io_new_eq:
  assumes inv: "host_inv H h"
  shows "vsc_start_io_new h = (vsc_start_io h)\<lparr>queue_waiters := 0\<rparr>"
  by (simp add: vsc_start_io_new_def vsc_start_io_eq [OF inv] Let_def fold_upd_stat
      waitqueue_active_def wake_up_queue_def)

subsection \<open>Enqueueing\<close>

lemma vsc_enqueue_linked:
  assumes inv: "host_inv (add_mset c H) h" and c: "c \<notin> set (allQ h)"
    and sc: "scsi_cmd (cmd_of h c) = Some sc"
  shows "host_inv H (h\<lparr>reqQ := addQ (reqQ h) c, Qdepth := Qdepth h + 1, io_running := io_running h + 1\<rparr>)"
proof -
  let ?g = "h\<lparr>reqQ := addQ (reqQ h) c, Qdepth := Qdepth h + 1, io_running := io_running h + 1\<rparr>"
  have cn: "c < nr_cmds h" using inv by (auto simp: host_inv_defs)
  have used: "cmd_used ?g = cmd_used h" by (simp add: cmd_used_def)
  have set_g: "set (allQ ?g) = insert c (set (allQ h))" by (auto simp: allQ_def addQ_def)
  have "cmd_pool_ok ?g"
    using inv by (simp add: host_inv_def cmd_pool_ok_def used)
  moreover have "queues_ok ?g"
    using inv c sc cn unfolding queues_ok_def set_g
    by (auto simp: host_inv_def queues_ok_def) (auto simp: allQ_def addQ_def)
  moreover have "refs_ok H ?g"
    using inv c unfolding refs_ok_def set_g used
    by (auto simp: host_inv_def refs_ok_def)
  moreover have "counters_ok ?g"
    using inv by (simp add: host_inv_def counters_ok_def allQ_def addQ_def)
  ultimately show ?thesis by (simp add: host_inv_def)
qed

lemma vsc_enqueue_inv:
  assumes inv: "host_inv (add_mset c H) h" and c: "c \<notin> set (allQ h)"
    and sc: "scsi_cmd (cmd_of h c) = Some sc"
  shows "host_inv H (vsc_enqueue_cmd_and_start_io c h)"
    "inflight (vsc_enqueue_cmd_and_start_io c h) = add_mset sc (inflight h)"
    "reqQ (vsc_enqueue_cmd_and_start_io c h) = []"
    "cmpQ (vsc_enqueue_cmd_and_start_io c h) = cmpQ h @ reqQ h @ [c]"
    "rspQ (vsc_enqueue_cmd_and_start_io c h) = rspQ h"
    "queue_waiters (vsc_enqueue_cmd_and_start_io c h) = 0"
proof -
  let ?g = "h\<lparr>reqQ := addQ (reqQ h) c, Qdepth := Qdepth h + 1, io_running := io_running h + 1\<rparr>"
  have g: "host_inv H ?g" by (rule vsc_enqueue_linked [OF assms])
  note spec = vsc_start_io_spec [OF g]
  show "host_inv H (vsc_enqueue_cmd_and_start_io c h)"
    using spec(1) by (simp add: vsc_enqueue_cmd_and_start_io_def)
  show "inflight (vsc_enqueue_cmd_and_start_io c h) = add_mset sc (inflight h)"
    using spec(6) sc by (simp add: vsc_enqueue_cmd_and_start_io_def inflight_def allQ_def addQ_def)
  show "reqQ (vsc_enqueue_cmd_and_start_io c h) = []"
    "cmpQ (vsc_enqueue_cmd_and_start_io c h) = cmpQ h @ reqQ h @ [c]"
    "rspQ (vsc_enqueue_cmd_and_start_io c h) = rspQ h"
    using spec by (simp_all add: vsc_enqueue_cmd_and_start_io_def addQ_def)
  show "queue_waiters (vsc_enqueue_cmd_and_start_io c h) = 0"
    using vsc_start_io_eq [OF g] by (simp add: vsc_enqueue_cmd_and_start_io_def addQ_def)
qed

end
