(* ===== verification/Vsc_Submit.thy ===== *)
theory Vsc_Submit
  imports Vsc_Io
begin

text \<open>
  What \<open>vsc_scsi_queue_command\<close> guarantees over all hosts of the driver: the invariant of
  every host is kept, a command is accounted for exactly when the middle layer is told 0, and
  the middle layer's \<open>host_lock\<close> is held again on every return. The dispatch over the hosts
  of a vbs is shown to be a round robin in groups of \<open>2 ^ io_per_host_shift\<close> commands.
\<close>

text \<open>
  \<open>S\<close> is the set of live hosts, \<open>H a\<close> the buffers of host \<open>a\<close> held by running handlers. The
  host list of a live host names live hosts only.
\<close>

definition world_inv :: "nat set \<Rightarrow> (nat \<Rightarrow> nat multiset) \<Rightarrow> vsc_world \<Rightarrow> bool" where
  "world_inv S H w \<longleftrightarrow> finite S \<and> (\<forall>a\<in>S. host_inv (H a) (hosts w a)) \<and>
     (\<forall>a\<in>S. \<forall>mp. silbing_hosts (hosts w a) = Some mp \<longrightarrow>
        length (host_list (mgrs w mp)) = MAX_HOST_NR_PER_VBS \<and>
        (\<forall>b. Some b \<in> set (host_list (mgrs w mp)) \<longrightarrow> b \<in> S))"

definition winflight :: "nat set \<Rightarrow> vsc_world \<Rightarrow> nat multiset" where
  "winflight S w = (\<Sum>a\<in>S. inflight (hosts w a))"

lemma winflight_upd_host:
  assumes "finite S" "a \<in> S"
  shows "winflight S (upd_host a h w) + inflight (hosts w a) = winflight S w + inflight h"
proof -
  have "winflight S w = inflight (hosts w a) + (\<Sum>b\<in>S - {a}. inflight (hosts w b))"
    using assms by (simp add: winflight_def sum.remove)
  moreover have "winflight S (upd_host a h w) = inflight h + (\<Sum>b\<in>S - {a}. inflight (hosts w b))"
    using assms by (simp add: winflight_def upd_host_def sum.remove)
  ultimately show ?thesis by simp
qed

lemma world_inv_upd_host:
  assumes "world_inv S H w" "a \<in> S" "host_inv (H a) h" "silbing_hosts h = silbing_hosts (hosts w a)"
  shows "world_inv S H (upd_host a h w)"
  using assms by (auto simp: world_inv_def upd_host_def)

lemma set_host_lock_simps [simp]:
  "hosts (set_host_lock shp b w) = hosts w" "mgrs (set_host_lock shp b w) = mgrs w"
  "scmds (mid (set_host_lock shp b w)) = scmds (mid w)"
  "sdevs (mid (set_host_lock shp b w)) = sdevs (mid w)"
  "done_log (mid (set_host_lock shp b w)) = done_log (mid w)"
  "io_per_host (set_host_lock shp b w) = io_per_host w"
  "io_per_host_shift (set_host_lock shp b w) = io_per_host_shift w"
  "completed (mid (set_host_lock shp b w)) = completed (mid w)"
  "host_lock_held (shosts (mid (set_host_lock shp b w)) p) =
     (if p = shp then b else host_lock_held (shosts (mid w) p))"
  by (simp_all add: set_host_lock_def completed_def)

lemma world_inv_lock [simp]: "world_inv S H (set_host_lock shp b w) = world_inv S H w"
  by (simp add: world_inv_def)

lemma winflight_lock [simp]: "winflight S (set_host_lock shp b w) = winflight S w"
  by (simp add: winflight_def)

text \<open>Selecting a host writes the volume's counter only, and finds a live host.\<close>

lemma vsc_select_host_frame:
  assumes "vsc_select_host sc a w = Some (hp, w')"
  shows "\<exists>x. w' = set_vol_extend (sc_device (scmds (mid w) sc)) x w \<or> w' = w"
  using assms
  by (auto simp: vsc_select_host_def Let_def bind_eq_Some_conv split: if_splits option.splits list.splits)

lemma vsc_select_host_fields:
  assumes "vsc_select_host sc a w = Some (hp, w')"
  shows "hosts w' = hosts w" "mgrs w' = mgrs w" "scmds (mid w') = scmds (mid w)"
    "shosts (mid w') = shosts (mid w)" "done_log (mid w') = done_log (mid w)"
  using vsc_select_host_frame [OF assms] by (auto simp: set_vol_extend_def)

lemma vsc_select_host_live:
  assumes inv: "world_inv S H w" and a: "a \<in> S"
    and sel: "vsc_select_host sc a w = Some (Some b, w')"
  shows "b \<in> S"
proof (cases "0 < io_per_host w")
  case False
  with sel a show ?thesis by (simp add: vsc_select_host_def)
next
  case True
  with sel obtain mp op rest where mp: "silbing_hosts (hosts w a) = Some mp"
    and op: "cmnd (scmds (mid w) sc) = op # rest"
    by (auto simp: vsc_select_host_def split: option.splits list.splits)
  have len: "length (host_list (mgrs w mp)) = MAX_HOST_NR_PER_VBS"
    and live: "\<And>c. Some c \<in> set (host_list (mgrs w mp)) \<Longrightarrow> c \<in> S"
    using inv a mp by (auto simp: world_inv_def)
  have "\<exists>k. k < MAX_HOST_NR_PER_VBS \<and> host_list (mgrs w mp) ! k = Some b"
  proof (cases "vsc_is_readwrite_cmd op")
    case False
    with sel True mp op show ?thesis
      by (intro exI [of _ 0]) (auto simp: vsc_select_host_def MAX_HOST_NR_PER_VBS_def)
  next
    case rw: True
    with sel True mp op obtain idx :: u32 where
      "\<not> of_nat MAX_HOST_NR_PER_VBS \<le> idx" "host_list (mgrs w mp) ! unat idx = Some b"
      by (auto simp: vsc_select_host_def Let_def bind_eq_Some_conv split: if_splits)
    then show ?thesis
      by (intro exI [of _ "unat idx"])
        (simp add: MAX_HOST_NR_PER_VBS_def word_le_nat_alt not_le word_less_nat_alt)
  qed
  with len live show ?thesis by (metis nth_mem)
qed

text \<open>The outcomes of \<open>vsc_scsi_queue_command\<close>.\<close>

lemma vsc_scsi_queue_command_cases:
  assumes inv: "world_inv S H w"
    and orig: "a = hostdata (shosts (mid w) (sdev_host (sdevs (mid w) (sc_device (scmds (mid w) sc)))))"
      "a \<in> S"
    and q: "vsc_scsi_queue_command sc w = Some (r, w')"
  obtains (deleted) "v_state (sdev_data (sdevs (mid w) (sc_device (scmds (mid w) sc)))) = VSC_DISK_PREPARE_DELETE"
      "r = 0" "hosts w' = hosts w" "mgrs w' = mgrs w" "shosts (mid w') = shosts (mid w)"
      "completed (mid w') = add_mset sc (completed (mid w))"
      "done_log (mid w') = done_log (mid w) @ [(sc, push_bit 16 DID_NO_CONNECT)]"
  | (refused) shp where "r = FAILED \<or> r = SCSI_MLQUEUE_HOST_BUSY" "hosts w' = hosts w" "mgrs w' = mgrs w"
      "done_log (mid w') = done_log (mid w)" "scsi_host (hosts w a) = Some shp"
      "host_lock_held (shosts (mid w') shp)" "scmds (mid w') = scmds (mid w)"
  | (queued) shp b c h1 where "r = 0" "b \<in> S" "mgrs w' = mgrs w"
      "vsc_cmd_alloc (hosts w b) = Some (Some c, h1)"
      "hosts w' = (hosts w)(b := vsc_enqueue_cmd_and_start_io c (upd_cmd c (\<lambda>x. x\<lparr>scsi_cmd := Some sc\<rparr>) h1))"
      "done_log (mid w') = done_log (mid w)" "scsi_host (hosts w a) = Some shp"
      "host_lock_held (shosts (mid w') shp)" "host_scribble (scmds (mid w') sc) = Some (b, c)"
proof (cases "v_state (sdev_data (sdevs (mid w) (sc_device (scmds (mid w) sc)))) = VSC_DISK_PREPARE_DELETE")
  case True
  with q show ?thesis
    by (intro deleted) (auto simp: vsc_scsi_queue_command_def Let_def completed_def scsi_done_def upd_sc_def)
next
  case False
  with q orig obtain shp hp w2 where shp: "scsi_host (hosts w a) = Some shp"
    and sel: "vsc_select_host sc a (set_host_lock shp False w) = Some (hp, w2)"
    and rest: "(case hp of None \<Rightarrow> Some (FAILED, set_host_lock shp True w2)
      | Some hp \<Rightarrow> do { (r, h1) \<leftarrow> vsc_cmd_alloc (hosts w2 hp);
          case r of None \<Rightarrow> Some (SCSI_MLQUEUE_HOST_BUSY, set_host_lock shp True w2)
          | Some c \<Rightarrow>
              (let w3 = w2\<lparr>mid := upd_sc sc (\<lambda>s. s\<lparr>host_scribble := Some (hp, c)\<rparr>) (mid w2)\<rparr>;
                   h2 = upd_cmd c (\<lambda>x. x\<lparr>scsi_cmd := Some sc\<rparr>) h1;
                   h3 = vsc_enqueue_cmd_and_start_io c h2
               in Some (0, set_host_lock shp True (upd_host hp h3 w3))) }) = Some (r, w')"
    by (auto simp: vsc_scsi_queue_command_def Let_def bind_eq_Some_conv)
  note f = vsc_select_host_fields [OF sel]
  show ?thesis
  proof (cases hp)
    case None
    with rest shp f show ?thesis by (intro refused [of shp]) auto
  next
    case (Some b)
    have b: "b \<in> S"
      using vsc_select_host_live [of S H "set_host_lock shp False w" a sc b w2] inv orig sel Some by simp
    from rest Some f obtain r1 h1 where alloc: "vsc_cmd_alloc (hosts w b) = Some (r1, h1)"
      by (auto simp: bind_eq_Some_conv)
    show ?thesis
    proof (cases r1)
      case None
      with rest Some alloc shp f show ?thesis by (intro refused [of shp]) auto
    next
      case (Some c)
      with rest \<open>hp = Some b\<close> alloc shp f b show ?thesis
        by (intro queued [of b c h1 shp]) (auto simp: Let_def upd_host_def upd_sc_def)
    qed
  qed
qed

text \<open>Fields the submission path never writes.\<close>

lemma vsc_start_io_frame [vsc_frame]:
  "silbing_hosts (vsc_start_io h) = silbing_hosts h \<and> scsi_host (vsc_start_io h) = scsi_host h \<and>
   h_file (vsc_start_io h) = h_file h \<and> event_reqQ (vsc_start_io h) = event_reqQ h \<and>
   event_rspQ (vsc_start_io h) = event_rspQ h \<and> event_pool_tbl (vsc_start_io h) = event_pool_tbl h \<and>
   event_pool_bits (vsc_start_io h) = event_pool_bits h \<and> nr_events (vsc_start_io h) = nr_events h \<and>
   nr_cmds (vsc_start_io h) = nr_cmds h"
proof (induction h rule: vsc_start_io.induct)
  case (1 h)
  show ?case
  proof (cases "reqQ h")
    case Nil
    then have "vsc_start_io h = h"
      by (subst vsc_start_io.simps) simp
    then show ?thesis by simp
  next
    case (Cons c q)
    have "vsc_start_io h = vsc_start_io (start_io_step c h)"
      by (subst vsc_start_io.simps) (simp add: Cons)
    with 1 [OF Cons] show ?thesis
      by (simp add: start_io_step_def Let_def upd_cmd_def removeQ_def wake_up_queue_def)
  qed
qed

lemma vsc_cmd_alloc_shape:
  assumes "vsc_cmd_alloc h = Some (r, h')"
  shows "\<exists>b n t. h' = h\<lparr>cmd_pool_bits := b, h_cmd_sn := n, cmd_pool_tbl := t\<rparr>"
proof -
  obtain q bits where p: "pool_alloc (cmd_pool_bits h) (nr_cmds h) = Some (q, bits)"
    using assms by (cases "pool_alloc (cmd_pool_bits h) (nr_cmds h)") (auto simp: vsc_cmd_alloc_def)
  show ?thesis
  proof (cases q)
    case None
    with assms p have "h' = h" by (simp add: vsc_cmd_alloc_def)
    then show ?thesis
      by (intro exI [of _ "cmd_pool_bits h"] exI [of _ "h_cmd_sn h"] exI [of _ "cmd_pool_tbl h"]) simp
  next
    case (Some i)
    with assms p show ?thesis
      unfolding vsc_cmd_alloc_def upd_cmd_def Let_def by simp blast
  qed
qed

lemma vsc_cmd_alloc_frame:
  "vsc_cmd_alloc h = Some (r, h') \<Longrightarrow> silbing_hosts h' = silbing_hosts h \<and> scsi_host h' = scsi_host h"
  by (drule vsc_cmd_alloc_shape) (elim exE, simp)

text \<open>A command that was taken over is one new command in flight on the chosen host.\<close>

lemma queued_host:
  fixes sc :: nat
  assumes inv: "host_inv H h" and alloc: "vsc_cmd_alloc h = Some (Some c, h1)"
  defines "h' \<equiv> vsc_enqueue_cmd_and_start_io c (upd_cmd c (\<lambda>x. x\<lparr>scsi_cmd := Some sc\<rparr>) h1)"
  shows "host_inv H h'" "inflight h' = add_mset sc (inflight h)"
    "silbing_hosts h' = silbing_hosts h" "scsi_host h' = scsi_host h" "queue_waiters h' = 0"
    "cmpQ h' = cmpQ h @ reqQ h @ [c]" "c \<notin> set (allQ h)" "c \<notin># H" "reqQ h' = []" "rspQ h' = rspQ h"
    "phases_ok h \<Longrightarrow> phases_ok h'" "h_file h' = h_file h"
    "scsi_cmd (cmd_of h' j) = (if j = c then Some sc else scsi_cmd (cmd_of h j))"
proof -
  let ?g = "upd_cmd c (\<lambda>x. x\<lparr>scsi_cmd := Some sc\<rparr>) h1"
  note a = vsc_cmd_alloc_inv [OF inv alloc]
  have c: "c < length (cmd_pool_tbl h1)" using a by simp
  have q: "allQ ?g = allQ h" "reqQ ?g = reqQ h" "cmpQ ?g = cmpQ h"
    using a by (simp_all add: upd_cmd_def allQ_def)
  have other: "\<forall>j. j \<noteq> c \<longrightarrow> cmd_of ?g j = cmd_of h j"
    using a(12) by (simp add: upd_cmd_def)
  have same: "\<forall>j\<in>set (allQ h). cmd_of ?g j = cmd_of h j"
    using other a(2) by metis
  have used: "cmd_used ?g = cmd_used h1" by (simp add: cmd_used_def upd_cmd_def)
  have ix: "\<forall>j. cmd_index (cmd_of ?g j) = cmd_index (cmd_of h1 j) \<and> crefcnt (cmd_of ?g j) = crefcnt (cmd_of h1 j)"
    using c by (auto simp: upd_cmd_def nth_list_update)
  have h1q: "allQ h1 = allQ h" by (rule a(5))
  have "host_inv (add_mset c H) ?g"
    using a(1) inv same
    by (simp add: host_inv_defs q h1q used ix a(6)) (simp add: upd_cmd_def a(10))
  moreover have "scsi_cmd (cmd_of ?g c) = Some sc"
    using c by (simp add: upd_cmd_def)
  ultimately have g: "host_inv (add_mset c H) ?g" "c \<notin> set (allQ ?g)" "scsi_cmd (cmd_of ?g c) = Some sc"
    using a(2) q by auto
  note e = vsc_enqueue_inv [OF g]
  have "inflight ?g = inflight h"
    using same by (simp add: inflight_def q) (metis (no_types, lifting) image_mset_cong set_mset_mset)
  with e show "host_inv H h'" "inflight h' = add_mset sc (inflight h)" "queue_waiters h' = 0"
    "cmpQ h' = cmpQ h @ reqQ h @ [c]"
    by (simp_all add: h'_def q)
  show "silbing_hosts h' = silbing_hosts h" "scsi_host h' = scsi_host h"
    using vsc_start_io_frame vsc_cmd_alloc_frame [OF alloc]
    by (simp_all add: h'_def vsc_enqueue_cmd_and_start_io_def upd_cmd_def)
  show "c \<notin> set (allQ h)" "c \<notin># H" by (rule a(2), rule a(4))
  show "reqQ h' = []" "rspQ h' = rspQ h" using e a(8) by (simp_all add: h'_def) (simp add: upd_cmd_def)
  show "h_file h' = h_file h"
    using vsc_start_io_frame vsc_cmd_alloc_shape [OF alloc]
    by (auto simp: h'_def vsc_enqueue_cmd_and_start_io_def upd_cmd_def)
  let ?f = "?g\<lparr>reqQ := addQ (reqQ ?g) c, Qdepth := Qdepth ?g + 1, io_running := io_running ?g + 1\<rparr>"
  have f: "host_inv H ?f" by (rule vsc_enqueue_linked [OF g])
  show "scsi_cmd (cmd_of h' j) = (if j = c then Some sc else scsi_cmd (cmd_of h j))"
    using vsc_start_io_spec(2) [OF f] other g(3)
    by (simp add: h'_def vsc_enqueue_cmd_and_start_io_def same_buffers_def)
  have "phases_ok ?f" if "phases_ok h"
  proof -
    have "cstat (cmd_of ?g c) = CMD_STAT_INIT" using a(9) c by (simp add: upd_cmd_def)
    moreover have "\<forall>j\<in>set (allQ h). cstat (cmd_of ?g j) = cstat (cmd_of h j)" using same by simp
    moreover have "rspQ ?g = rspQ h" using a(8) by (simp add: upd_cmd_def)
    ultimately show ?thesis using that q by (auto simp: phases_ok_def allQ_def addQ_def)
  qed
  then show "phases_ok h \<Longrightarrow> phases_ok h'"
    using vsc_start_io_phases [OF f] by (simp add: h'_def vsc_enqueue_cmd_and_start_io_def)
qed

lemma queue_command_step:
  assumes inv: "world_inv S H w"
    and orig: "hostdata (shosts (mid w) (sdev_host (sdevs (mid w) (sc_device (scmds (mid w) sc))))) \<in> S"
    and q: "vsc_scsi_queue_command sc w = Some (r, w')"
  shows "world_inv S H w'"
    and "winflight S w' + completed (mid w') =
           (if r = 0 then add_mset sc else id) (winflight S w + completed (mid w))"
proof -
  have fin: "finite S" using inv by (simp add: world_inv_def)
  have "world_inv S H w' \<and> winflight S w' + completed (mid w') =
           (if r = 0 then add_mset sc else id) (winflight S w + completed (mid w))"
    using inv refl orig q
  proof (cases rule: vsc_scsi_queue_command_cases)
    case deleted
    then show ?thesis using inv by (simp add: world_inv_def winflight_def)
  next
    case (refused shp)
    then show ?thesis using inv by (auto simp: world_inv_def winflight_def completed_def)
  next
    case (queued shp b c h1)
    have hb: "host_inv (H b) (hosts w b)" using inv queued(2) by (simp add: world_inv_def)
    let ?h = "vsc_enqueue_cmd_and_start_io c (upd_cmd c (\<lambda>x. x\<lparr>scsi_cmd := Some sc\<rparr>) h1)"
    note qh = queued_host(1,2,3) [OF hb queued(4), where sc = sc]
    have "hosts w' = hosts (upd_host b ?h w)" "mgrs w' = mgrs (upd_host b ?h w)"
      using queued by (simp_all add: upd_host_def)
    moreover have "world_inv S H (upd_host b ?h w)"
      by (rule world_inv_upd_host [where w = w and a = b and h = ?h and H = H,
            OF inv queued(2) qh(1) qh(3)])
    ultimately have "world_inv S H w'" "winflight S w' = winflight S (upd_host b ?h w)"
      by (simp_all add: world_inv_def winflight_def)
    moreover have "winflight S (upd_host b ?h w) = add_mset sc (winflight S w)"
      using winflight_upd_host [OF fin queued(2), where h = ?h and w = w] qh(2) by simp
    ultimately show ?thesis using queued by (simp add: completed_def)
  qed
  then show "world_inv S H w'" "winflight S w' + completed (mid w') =
           (if r = 0 then add_mset sc else id) (winflight S w + completed (mid w))"
    by auto
qed

lemma example_world_inv: "world_inv {0} (\<lambda>_. {#}) example_world"
  by (auto simp: world_inv_def example_host_inv MAX_HOST_NR_PER_VBS_def)

subsection \<open>The dispatch over the hosts of a vbs\<close>

text \<open>The counter of the volume picks the host: \<open>2 ^ shift\<close> commands in a row, then the next.\<close>

lemma vsc_host_index_nat:
  assumes "cnt \<noteq> 0"
  obtains idx where "vsc_host_index shift cnt sn = Some idx"
    "unat idx = (unat sn mod 2 ^ 32) div 2 ^ shift mod unat cnt" "idx < cnt"
proof
  show "vsc_host_index shift cnt sn = Some (drop_bit shift (ucast sn :: u32) mod cnt)"
    using assms by (simp add: vsc_host_index_def)
  show "unat (drop_bit shift (ucast sn :: u32) mod cnt) =
      (unat sn mod 2 ^ 32) div 2 ^ shift mod unat cnt"
    by (simp add: unat_mod_distrib unat_drop_bit_eq unsigned_ucast_eq take_bit_eq_mod flip: drop_bit_eq_div)
  have "unat (drop_bit shift (ucast sn :: u32) mod cnt) < unat cnt"
    using assms by (simp add: unat_mod_distrib unat_gt_0)
  then show "drop_bit shift (ucast sn :: u32) mod cnt < cnt"
    by (simp add: word_less_nat_alt)
qed

lemma card_residues:
  fixes s g m :: nat
  assumes "i < m" "0 < g"
  shows "card {n. s \<le> n \<and> n < s + m * g \<and> n div g mod m = i} = g"
proof -
  let ?N = "m * g" and ?W = "{n. s \<le> n \<and> n < s + m * g \<and> n div g mod m = i}"
  have dm: "n div g mod m = (n mod ?N) div g" for n
    using assms(2) mod_mult2_eq [of n g m] by (simp add: mult.commute)
  have inj: "inj_on (\<lambda>n. n mod ?N) ?W"
  proof (rule inj_onI)
    fix x y assume x: "x \<in> ?W" and y: "y \<in> ?W" and e: "x mod ?N = y mod ?N"
    have "?N dvd (max x y - min x y)"
      using e mod_eq_dvd_iff_nat [of "min x y" "max x y" ?N] by (cases "x \<le> y") (auto simp: max_def min_def)
    moreover have "max x y - min x y < ?N" using x y by auto
    ultimately have "max x y - min x y = 0" by (metis nat_dvd_not_less gr0I)
    then show "x = y" by (simp add: max_def min_def split: if_splits)
  qed
  have img: "(\<lambda>n. n mod ?N) ` ?W = {i * g..<i * g + g}"
  proof (rule set_eqI, rule iffI)
    fix r assume "r \<in> (\<lambda>n. n mod ?N) ` ?W"
    then have "r div g = i" by (auto simp: dm)
    then show "r \<in> {i * g..<i * g + g}"
      using assms(2) div_mult_mod_eq [of r g] mod_less_divisor [OF assms(2), of r]
      by (auto simp: mult.commute)
  next
    fix r assume r: "r \<in> {i * g..<i * g + g}"
    then have ri: "r div g = i" using assms(2) by (intro div_nat_eqI) (auto simp: algebra_simps)
    have "i * g + g \<le> ?N" using assms(1) mult_le_mono1 [of "Suc i" m g] by simp
    then have rN: "r < ?N" using r by auto
    define n where "n = s + (r + ?N - s mod ?N) mod ?N"
    have "0 < ?N" using rN by (rule le_less_trans [OF le0])
    then have "s \<le> n" "n < s + ?N" by (simp_all add: n_def)
    moreover have "n mod ?N = r"
    proof -
      have "n mod ?N = (s mod ?N + (r + ?N - s mod ?N)) mod ?N"
        by (simp add: n_def mod_simps)
      also have "s mod ?N + (r + ?N - s mod ?N) = r + ?N"
        using \<open>0 < ?N\<close> mod_less_divisor [of ?N s] by linarith
      finally show ?thesis using rN by simp
    qed
    ultimately have "n \<in> ?W" "r = n mod ?N" using ri dm [of n] by simp_all
    then show "r \<in> (\<lambda>n. n mod ?N) ` ?W" by (rule rev_image_eqI)
  qed
  show ?thesis using card_image [OF inj] unfolding img by simp
qed



subsection \<open>Accounting\<close>

text \<open>
  (C4) \<open>vsc_scsi_queue_command\<close> keeps the invariant of every host, and it takes responsibility
  for a command exactly when it returns 0: then the command is in flight or completed once
  more than before; with an error code the middle layer still owns it and nothing changes.
\<close>

theorem queue_command_accounting:
  assumes "world_inv S H w"
    and "hostdata (shosts (mid w) (sdev_host (sdevs (mid w) (sc_device (scmds (mid w) sc))))) \<in> S"
    and "vsc_scsi_queue_command sc w = Some (r, w')"
  shows "world_inv S H w' \<and>
     winflight S w' + completed (mid w') =
       (if r = 0 then add_mset sc else id) (winflight S w + completed (mid w))"
  using queue_command_step [OF assms] by simp

text \<open>
  \<open>vsc_scsi_queue_command\<close> returns on every path when the vbs has a host, with 0,
  \<open>FAILED\<close> or \<open>SCSI_MLQUEUE_HOST_BUSY\<close>, and the middle layer's \<open>host_lock\<close>, which it releases
  meanwhile, is held again on return.
\<close>

lemma queue_command_returns:
  assumes inv: "world_inv S H w"
    and orig: "a = hostdata (shosts (mid w) (sdev_host (sdevs (mid w) (sc_device (scmds (mid w) sc)))))"
      "a \<in> S"
    and shp: "scsi_host (hosts w a) = Some shp" "host_lock_held (shosts (mid w) shp)"
    and cdb: "cmnd (scmds (mid w) sc) \<noteq> []"
    and cnt: "\<And>mp. silbing_hosts (hosts w a) = Some mp \<Longrightarrow> host_count (mgrs w mp) \<noteq> 0"
  shows "\<exists>r w'. vsc_scsi_queue_command sc w = Some (r, w') \<and>
     r \<in> {0, FAILED, SCSI_MLQUEUE_HOST_BUSY} \<and> host_lock_held (shosts (mid w') shp)"
proof -
  let ?w = "set_host_lock shp False w"
  obtain op ops where op: "cmnd (scmds (mid w) sc) = op # ops" using cdb by (cases "cmnd (scmds (mid w) sc)") auto
  have "\<exists>x. vsc_select_host sc a ?w = Some x"
    using op cnt by (auto simp: vsc_select_host_def vsc_host_index_def Let_def split: option.split)
  then obtain hp w2 where sel: "vsc_select_host sc a ?w = Some (hp, w2)" by auto
  note f = vsc_select_host_fields [OF sel]
  have "\<exists>x. vsc_scsi_queue_command sc w = Some x"
  proof (cases hp)
    case None
    with sel shp orig(1) show ?thesis by (simp add: vsc_scsi_queue_command_def Let_def)
  next
    case (Some b)
    have "b \<in> S"
      using vsc_select_host_live [of S H ?w a sc b w2] inv orig(2) sel Some by simp
    then have "cmd_pool_ok (hosts w2 b)" using inv f(1) by (simp add: world_inv_def host_inv_def)
    then obtain r1 h1 where "vsc_cmd_alloc (hosts w2 b) = Some (r1, h1)"
      using cpool.alloc_returns by blast
    with Some sel shp orig(1) show ?thesis
      by (cases r1) (simp_all add: vsc_scsi_queue_command_def Let_def)
  qed
  then obtain r w' where q: "vsc_scsi_queue_command sc w = Some (r, w')" by auto
  from inv orig q have "r \<in> {0, FAILED, SCSI_MLQUEUE_HOST_BUSY} \<and> host_lock_held (shosts (mid w') shp)"
    by (cases rule: vsc_scsi_queue_command_cases) (use shp in auto)
  with q show ?thesis by blast
qed

lemma queue_command_returns_witness:
  "\<exists>r w'. vsc_scsi_queue_command 5 example_world = Some (r, w') \<and>
     r \<in> {0, FAILED, SCSI_MLQUEUE_HOST_BUSY} \<and> host_lock_held (shosts (mid w') 0)"
  by (rule queue_command_returns [OF example_world_inv, of 0]) (auto simp: example_defs)

definition event_half :: "vsc_ctrl_info \<Rightarrow> nat \<times> vsc_event_list list \<times> u64 list \<times> nat list \<times> nat list" where
  "event_half h = (nr_events h, event_pool_tbl h, event_pool_bits h, event_reqQ h, event_rspQ h)"

lemma event_half_queued:
  "vsc_cmd_alloc h = Some (r, h1) \<Longrightarrow>
   event_half (vsc_enqueue_cmd_and_start_io c (upd_cmd c f h1)) = event_half h"
  using vsc_start_io_frame
  by (auto dest!: vsc_cmd_alloc_shape simp: event_half_def vsc_enqueue_cmd_and_start_io_def upd_cmd_def)

lemma example_queued:
  obtains w' where "vsc_scsi_queue_command 5 example_world = Some (0, w')"
    "cmpQ (hosts w' 0) = [0]" "reqQ (hosts w' 0) = []" "inflight (hosts w' 0) = {#5#}"
    "host_scribble (scmds (mid w') 5) = Some (0, 0)" "mgrs w' = mgrs example_world"
    "event_half (hosts w' 0) = event_half example_host" "allQ (hosts w' 0) = [0]"
    "silbing_hosts (hosts w' 0) = Some 0" "world_inv {0} (\<lambda>_. {#}) w'" "done_log (mid w') = []"
    "cmnd (scmds (mid w') 5) = cmnd example_scmd"
proof -
  have "find_first_zero_bit [0] 2 = 0" "pool_bit [0] 0 = False"
    by (simp_all add: find_first_zero_bit_def pool_bit_def BITS_PER_LONG_def upt_rec)
  then have alloc: "\<exists>h1. vsc_cmd_alloc example_host = Some (Some 0, h1)"
    by (simp add: vsc_cmd_alloc_def pool_alloc_eq Let_def)
      (simp add: example_defs pool_alloc_eq lessThan_nat_numeral lessThan_Suc)
  have sel: "vsc_select_host 5 0 (set_host_lock 0 False example_world) =
      Some (Some 0, set_vol_extend 0 1 (set_host_lock 0 False example_world))"
    by (simp add: vsc_select_host_def vsc_host_index_def Let_def)
      (simp add: vsc_is_readwrite_cmd_def MAX_HOST_NR_PER_VBS_def)
  from alloc obtain h1 where h1: "vsc_cmd_alloc example_host = Some (Some 0, h1)" by blast
  let ?h = "vsc_enqueue_cmd_and_start_io 0 (upd_cmd 0 (\<lambda>x. x\<lparr>scsi_cmd := Some 5\<rparr>) h1)"
  let ?w1 = "set_vol_extend 0 1 (set_host_lock 0 False example_world)"
  let ?w = "set_host_lock 0 True (upd_host 0 ?h (?w1\<lparr>mid := upd_sc 5
            (\<lambda>s. s\<lparr>host_scribble := Some (0, 0)\<rparr>) (mid ?w1)\<rparr>))"
  note q = queued_host(1,2,3,6) [OF example_host_inv h1, where sc = 5]
  have e: "allQ example_host = []" "cmpQ example_host = []" "reqQ example_host = []"
    by (simp_all add: example_defs allQ_def)
  have run: "vsc_scsi_queue_command 5 example_world = Some (0, ?w)"
    using sel h1 by (simp add: vsc_scsi_queue_command_def VSC_DISK_PREPARE_DELETE_def Let_def set_vol_extend_def)
  have h: "hosts ?w 0 = ?h" by (simp add: upd_host_def)
  have hinv: "host_inv {#} ?h" by (rule q(1))
  have "length (allQ ?h) = size (inflight ?h)" by (simp add: inflight_def)
  also have "\<dots> = 1" using q(2) e by (simp add: inflight_def)
  finally have "length (allQ ?h) = 1" .
  with q(4) e have qs: "allQ ?h = [0]" "reqQ ?h = []" "cmpQ ?h = [0]"
    by (auto simp: allQ_def)
  show thesis
  proof (rule that [OF run, unfolded h])
    show "world_inv {0} (\<lambda>_. {#}) ?w"
      using queue_command_step(1) [OF example_world_inv _ run] by simp
    show "event_half ?h = event_half example_host" using h1 by (rule event_half_queued)
    show "host_scribble (scmds (mid ?w) 5) = Some (0, 0)"
      by (simp add: upd_host_def upd_sc_def)
  qed (use qs q(2,3) e in \<open>simp_all add: inflight_def upd_host_def set_vol_extend_def upd_sc_def fun_eq_iff\<close>)
qed

lemma queue_command_accounting_witness:
  "\<exists>w'. vsc_scsi_queue_command 5 example_world = Some (0, w') \<and> world_inv {0} (\<lambda>_. {#}) w' \<and>
     winflight {0} w' + completed (mid w') =
       add_mset 5 (winflight {0} example_world + completed (mid example_world))"
proof -
  obtain w' where q: "vsc_scsi_queue_command 5 example_world = Some (0, w')"
    by (rule example_queued)
  have "hostdata (shosts (mid example_world)
      (sdev_host (sdevs (mid example_world) (sc_device (scmds (mid example_world) 5))))) \<in> {0}"
    by simp
  from queue_command_accounting [OF example_world_inv this q] q show ?thesis by auto
qed

end
