(* ===== verification/Vsc_Event.thy ===== *)
theory Vsc_Event
  imports Vsc_Submit
begin

text \<open>
  Events (abort and device reset requests to the target): the event buffers
  (\<open>vsc_event_alloc\<close>, \<open>vsc_event_get\<close>, \<open>vsc_event_put\<close>), the event queues, the two event
  callbacks, \<open>vsc_event_add\<close>, the wait for an answer, \<open>vsc_event_del\<close> and
  \<open>vsc_abort_all_event\<close>. The wait is split where the task sleeps:
  \<open>vsc_event_wait_begin\<close> is what runs before, \<open>vsc_event_wait_end\<close> what runs after, with the
  value of \<open>wait_event_timeout\<close> as an argument.
\<close>

subsection \<open>Event buffers\<close>

definition zero_event :: vsc_event_list where
  "zero_event = \<lparr>event_index = 0, event_sn = 0, estat = EVENT_LIST_STAT_INIT, event_data_len = 0,
     event_data = (\<lambda>_. 0), event_priv = 0, event_callback = None, e_waiting = False,
     shoot = EVENT_SHOOT_NOSHOOT, erefcnt = 0\<rparr>"

definition vsc_event_alloc :: "vsc_ctrl_info \<Rightarrow> (nat option \<times> vsc_ctrl_info) option" where
  "vsc_event_alloc h =
     do { (r, bits) \<leftarrow> pool_alloc (event_pool_bits h) (nr_events h);
          case r of
            None \<Rightarrow> Some (None, h)
          | Some i \<Rightarrow>
              (let h1 = h\<lparr>event_pool_bits := bits, h_event_sn := h_event_sn h + 1\<rparr>;
                   h2 = upd_event i (\<lambda>e. zero_event\<lparr>event_index := of_nat i,
                          estat := EVENT_LIST_STAT_INIT, event_sn := ucast (h_event_sn h1),
                          event_data_len := 0, shoot := EVENT_SHOOT_NOSHOOT, erefcnt := 1\<rparr>) h1
               in Some (Some i, h2)) }"

definition vsc_event_get :: "nat \<Rightarrow> vsc_ctrl_info \<Rightarrow> vsc_ctrl_info" where
  "vsc_event_get i h = upd_event i (\<lambda>e. e\<lparr>erefcnt := erefcnt e + 1\<rparr>) h"

definition vsc_event_put :: "nat \<Rightarrow> vsc_ctrl_info \<Rightarrow> vsc_ctrl_info" where
  "vsc_event_put i h =
     (let h1 = upd_event i (\<lambda>e. e\<lparr>erefcnt := erefcnt e - 1\<rparr>) h; e = event_of h1 i in
      if erefcnt e = 0
      then if nr_events h1 \<le> unat (event_index e) then h1
           else h1\<lparr>event_pool_bits := pool_clear (event_pool_bits h1) (unat (event_index e))\<rparr>
      else h1)"

subsection \<open>Event queues\<close>

definition add_eventQ :: "nat list \<Rightarrow> nat \<Rightarrow> nat list" where
  "add_eventQ q e = q @ [e]"

definition remove_eventQ :: "nat \<Rightarrow> vsc_ctrl_info \<Rightarrow> vsc_ctrl_info" where
  "remove_eventQ e h = h\<lparr>event_reqQ := remove1 e (event_reqQ h), event_rspQ := remove1 e (event_rspQ h)\<rparr>"

definition all_eventQ :: "vsc_ctrl_info \<Rightarrow> nat list" where
  "all_eventQ h = event_reqQ h @ event_rspQ h"

subsection \<open>Event callbacks\<close>

text \<open>
  The two callbacks differ in the type of the answer they accept. \<open>data\<close> is the memory at the
  \<open>data\<close> pointer; the answer's result is read after the length check only.
\<close>

definition vsc_abort_event_callback ::
  "event_type \<Rightarrow> nat \<Rightarrow> u32 \<Rightarrow> byte list \<Rightarrow> u32 \<Rightarrow> vsc_ctrl_info \<Rightarrow> (int \<times> vsc_ctrl_info) option" where
  "vsc_abort_event_callback type e data_type data data_len h =
     (if type = EVENT_TIMEOUT \<or> type = EVENT_ABORT then
        Some (0, if h_file h = None then upd_event e (\<lambda>x. x\<lparr>event_priv := SUCCESS\<rparr>) h else h)
      else if VSC_EVENT_TYPE_ABORT \<noteq> data_type then Some (- EINVAL, h)
      else if data_len \<noteq> 4 then Some (- EINVAL, h)
      else do { result \<leftarrow> rd32 data 0;
                Some (0, upd_event e (\<lambda>x. x\<lparr>event_priv := if result \<noteq> 0 then FAILED else SUCCESS\<rparr>) h) })"

definition vsc_reset_dev_event_callback ::
  "event_type \<Rightarrow> nat \<Rightarrow> u32 \<Rightarrow> byte list \<Rightarrow> u32 \<Rightarrow> vsc_ctrl_info \<Rightarrow> (int \<times> vsc_ctrl_info) option" where
  "vsc_reset_dev_event_callback type e data_type data data_len h =
     (if type = EVENT_TIMEOUT \<or> type = EVENT_ABORT then
        Some (0, if h_file h = None then upd_event e (\<lambda>x. x\<lparr>event_priv := SUCCESS\<rparr>) h else h)
      else if VSC_EVENT_TYPE_RESET_DEV \<noteq> data_type then Some (- EINVAL, h)
      else if data_len \<noteq> 4 then Some (- EINVAL, h)
      else do { result \<leftarrow> rd32 data 0;
                Some (0, upd_event e (\<lambda>x. x\<lparr>event_priv := if result \<noteq> 0 then FAILED else SUCCESS\<rparr>) h) })"

fun run_event_callback ::
  "event_callback \<Rightarrow> event_type \<Rightarrow> nat \<Rightarrow> u32 \<Rightarrow> byte list \<Rightarrow> u32 \<Rightarrow> vsc_ctrl_info \<Rightarrow>
   (int \<times> vsc_ctrl_info) option" where
  "run_event_callback Abort_event_callback = vsc_abort_event_callback"
| "run_event_callback Reset_dev_event_callback = vsc_reset_dev_event_callback"

subsection \<open>Adding, waiting for and deleting an event\<close>

definition page_write :: "nat \<Rightarrow> byte list \<Rightarrow> (nat \<Rightarrow> byte) \<Rightarrow> nat \<Rightarrow> byte" where
  "page_write off bs pg = (\<lambda>k. if off \<le> k \<and> k < off + length bs then bs ! (k - off) else pg k)"

definition page_bytes :: "(nat \<Rightarrow> byte) \<Rightarrow> nat \<Rightarrow> nat \<Rightarrow> byte list" where
  "page_bytes pg off n = map pg [off..<off + n]"

definition vsc_event_add ::
  "nat \<Rightarrow> event_callback \<Rightarrow> u32 \<Rightarrow> byte list \<Rightarrow> int \<Rightarrow> vsc_ctrl_info \<Rightarrow> int \<times> vsc_ctrl_info" where
  "vsc_event_add e callback type data priv h =
     (let len = length data in
      if PAGE_SIZE - sizeof vsc_scsi_msg_data_layout \<le> len then (- EINVAL, h)
      else
        (let head = enc_words (vsc_scsi_msg_data_words
                      \<lparr>md_data_type = type, md_data_len = of_nat len\<rparr>);
             h1 = upd_event e (\<lambda>x. x\<lparr>
                    event_data := page_write 0 head (page_write 8 data (event_data x)),
                    event_data_len := len + sizeof vsc_scsi_msg_data_layout,
                    event_callback := Some callback,
                    event_priv := priv\<rparr>) h;
             h2 = h1\<lparr>event_reqQ := add_eventQ (event_reqQ h1) e\<rparr>
         in (0, wake_up_queue h2)))"

text \<open>Before the sleep: take a reference; the task is queued when the event has not fired.\<close>

definition vsc_event_wait_begin :: "nat \<Rightarrow> vsc_ctrl_info \<Rightarrow> vsc_ctrl_info" where
  "vsc_event_wait_begin e h =
     (let h1 = vsc_event_get e h in
      upd_event e (\<lambda>x. x\<lparr>e_waiting := (shoot x = EVENT_SHOOT_NOSHOOT)\<rparr>) h1)"

text \<open>After the sleep, \<open>wait_event_timeout\<close> having returned \<open>retval\<close>.\<close>

definition event_callback_on :: "event_type \<Rightarrow> nat \<Rightarrow> vsc_ctrl_info \<Rightarrow> vsc_ctrl_info option" where
  "event_callback_on type e h =
     (case event_callback (event_of h e) of
        None \<Rightarrow> Some h
      | Some cb \<Rightarrow> map_option snd (run_event_callback cb type e 0 [] 0 h))"

definition vsc_event_wait_end :: "nat \<Rightarrow> int \<Rightarrow> vsc_ctrl_info \<Rightarrow> (int \<times> vsc_ctrl_info) option" where
  "vsc_event_wait_end e retval h =
     do { h1 \<leftarrow> Some (upd_event e (\<lambda>x. x\<lparr>e_waiting := False\<rparr>) h);
          h2 \<leftarrow> (if retval = 0 then event_callback_on EVENT_TIMEOUT e h1 else Some h1);
          h3 \<leftarrow> (if shoot (event_of h2 e) = EVENT_SHOOT_ABORT
                 then event_callback_on EVENT_ABORT e h2 else Some h2);
          Some (retval, vsc_event_put e h3) }"

definition vsc_event_del :: "nat \<Rightarrow> vsc_ctrl_info \<Rightarrow> vsc_ctrl_info" where
  "vsc_event_del e h =
     (let h1 = (if e_waiting (event_of h e)
                then upd_event e (\<lambda>x. x\<lparr>shoot := EVENT_SHOOT_ABORT, e_waiting := False\<rparr>) h else h);
          h2 = remove_eventQ e h1
      in vsc_event_put e h2)"

lemma vsc_event_put_queues [simp]:
  "event_reqQ (vsc_event_put i h) = event_reqQ h" "event_rspQ (vsc_event_put i h) = event_rspQ h"
  "nr_events (vsc_event_put i h) = nr_events h"
  by (simp_all add: vsc_event_put_def upd_event_def Let_def)

lemma vsc_event_del_queues [simp]:
  "event_reqQ (vsc_event_del i h) = remove1 i (event_reqQ h)"
  "event_rspQ (vsc_event_del i h) = remove1 i (event_rspQ h)"
  by (simp_all add: vsc_event_del_def remove_eventQ_def upd_event_def Let_def)

text \<open>The two loops of \<open>vsc_abort_all_event\<close>.\<close>

lemma length_remove1_le: "length (remove1 x xs) \<le> length xs"
  by (simp add: length_remove1)

function abort_event_reqQ :: "vsc_ctrl_info \<Rightarrow> vsc_ctrl_info" where
  "abort_event_reqQ h =
     (case event_reqQ h of [] \<Rightarrow> h | e # _ \<Rightarrow> abort_event_reqQ (vsc_event_del e (remove_eventQ e h)))"
  by pat_completeness auto
termination
  by (relation "measure (\<lambda>h. length (event_reqQ h))")
    (auto simp: remove_eventQ_def less_Suc_eq_le length_remove1_le)

function abort_event_rspQ :: "vsc_ctrl_info \<Rightarrow> vsc_ctrl_info" where
  "abort_event_rspQ h =
     (case event_rspQ h of [] \<Rightarrow> h | e # _ \<Rightarrow> abort_event_rspQ (vsc_event_del e (remove_eventQ e h)))"
  by pat_completeness auto
termination
  by (relation "measure (\<lambda>h. length (event_rspQ h))")
    (auto simp: remove_eventQ_def less_Suc_eq_le length_remove1_le)

declare abort_event_reqQ.simps [simp del] abort_event_rspQ.simps [simp del]

definition vsc_abort_all_event :: "vsc_ctrl_info \<Rightarrow> int \<times> vsc_ctrl_info" where
  "vsc_abort_all_event h = (0, abort_event_rspQ (abort_event_reqQ h))"

subsection \<open>The event pool is a pool of slots\<close>

definition event_used :: "vsc_ctrl_info \<Rightarrow> nat set" where
  "event_used h = pool_used (event_pool_bits h) (nr_events h)"

definition event_pool_ok :: "vsc_ctrl_info \<Rightarrow> bool" where
  "event_pool_ok h \<longleftrightarrow> pool_wf (event_pool_bits h) (nr_events h) \<and>
     length (event_pool_tbl h) = nr_events h \<and> nr_events h < 2 ^ 31 \<and>
     (\<forall>i\<in>event_used h. event_index (event_of h i) = of_nat i)"

lemma event_used_lt: "i \<in> event_used h \<Longrightarrow> i < nr_events h"
  by (simp add: event_used_def pool_used_def)

lemma vsc_event_alloc_cases:
  assumes "event_pool_ok h"
  obtains (full) "vsc_event_alloc h = Some (None, h)" "event_used h = {..<nr_events h}"
  | (slot) i bits where "i < nr_events h" "i \<notin> event_used h"
      "pool_wf bits (nr_events h)" "pool_used bits (nr_events h) = insert i (event_used h)"
      "vsc_event_alloc h = Some (Some i,
         upd_event i (\<lambda>e. zero_event\<lparr>event_index := of_nat i, event_sn := ucast (h_event_sn h + 1),
             erefcnt := 1\<rparr>)
           (h\<lparr>event_pool_bits := bits, h_event_sn := h_event_sn h + 1\<rparr>))"
proof (cases "event_used h = {..<nr_events h}")
  case True
  then show ?thesis
    by (intro full) (simp_all add: vsc_event_alloc_def pool_alloc_eq event_used_def)
next
  case False
  let ?n = "nr_events h" and ?b = "event_pool_bits h"
  let ?i = "find_first_zero_bit ?b ?n"
  from False have "?i < ?n"
    using find_first_zero_bit_le [of ?b ?n] find_first_zero_bit_full [of ?b ?n]
    by (simp add: event_used_def)
  moreover from this have "?i \<notin> event_used h"
    using find_first_zero_bit_clear by (simp add: event_used_def pool_used_def)
  ultimately show ?thesis
    using False assms
    by (intro slot [of ?i "snd (pool_set ?b ?i)"])
      (simp_all add: vsc_event_alloc_def pool_alloc_eq event_used_def event_pool_ok_def pool_used_set
        zero_event_def)
qed

lemma vsc_event_put_pool:
  assumes "event_pool_ok h" "i \<in> event_used h"
  shows "event_used (vsc_event_put i h) =
           (if erefcnt (event_of h i) = 1 then event_used h - {i} else event_used h)"
    and "event_pool_ok (vsc_event_put i h)"
    and "event_of (vsc_event_put i h) i = (event_of h i)\<lparr>erefcnt := erefcnt (event_of h i) - 1\<rparr>"
proof -
  have "i < nr_events h" using assms(2) by (rule event_used_lt)
  with assms have i: "i < nr_events h" "i < length (event_pool_tbl h)"
    "unat (event_index (event_of h i)) = i"
    using unat_of_nat_u32 [of i] by (auto simp: event_pool_ok_def)
  show "event_used (vsc_event_put i h) =
           (if erefcnt (event_of h i) = 1 then event_used h - {i} else event_used h)"
    using assms i
    by (simp add: vsc_event_put_def upd_event_def Let_def event_used_def event_pool_ok_def
        pool_used_clear)
  show "event_pool_ok (vsc_event_put i h)"
    using assms i
    by (auto simp: event_pool_ok_def vsc_event_put_def upd_event_def Let_def event_used_def
        pool_used_clear nth_list_update)
  show "event_of (vsc_event_put i h) i = (event_of h i)\<lparr>erefcnt := erefcnt (event_of h i) - 1\<rparr>"
    using i by (simp add: vsc_event_put_def upd_event_def Let_def)
qed

interpretation epool: slot_pool vsc_event_alloc vsc_event_put event_used nr_events
  "\<lambda>h i. erefcnt (event_of h i)" event_pool_ok
proof
  fix h h' :: vsc_ctrl_info and i :: nat
  assume ok: "event_pool_ok h"
  show "event_used h \<subseteq> {..<nr_events h}"
    by (auto simp: event_used_lt)
  show "\<exists>r s'. vsc_event_alloc h = Some (r, s')"
    using ok by (rule vsc_event_alloc_cases) auto
  show "event_used h = {..<nr_events h} \<and> h' = h" if "vsc_event_alloc h = Some (None, h')"
    using ok by (rule vsc_event_alloc_cases) (use that in auto)
  show "i < nr_events h \<and> i \<notin> event_used h \<and> event_used h' = insert i (event_used h) \<and>
      nr_events h' = nr_events h \<and> erefcnt (event_of h' i) = 1 \<and> event_pool_ok h'"
    if "vsc_event_alloc h = Some (Some i, h')"
    using ok
    by (rule vsc_event_alloc_cases)
      (use that ok in \<open>auto simp: upd_event_def event_used_def event_pool_ok_def nth_list_update\<close>)
  assume used: "i \<in> event_used h"
  show "event_used (vsc_event_put i h) = event_used h - {i} \<and>
      nr_events (vsc_event_put i h) = nr_events h \<and> event_pool_ok (vsc_event_put i h)"
    if "erefcnt (event_of h i) = 1"
    using that vsc_event_put_pool [OF ok used] by simp
  show "event_used (vsc_event_put i h) = event_used h \<and> nr_events (vsc_event_put i h) = nr_events h \<and>
      erefcnt (event_of (vsc_event_put i h) i) = erefcnt (event_of h i) - 1 \<and>
      event_pool_ok (vsc_event_put i h)"
    if "1 < erefcnt (event_of h i)"
    using that vsc_event_put_pool [OF ok used] by simp
qed

subsection \<open>Frames\<close>

text \<open>\<open>same_cmds\<close>: the command half of a host is untouched; \<open>same_events\<close>: the event half.\<close>

definition same_cmds :: "vsc_ctrl_info \<Rightarrow> vsc_ctrl_info \<Rightarrow> bool" where
  "same_cmds h h' \<longleftrightarrow> nr_cmds h' = nr_cmds h \<and> cmd_pool_tbl h' = cmd_pool_tbl h \<and>
     cmd_pool_bits h' = cmd_pool_bits h \<and> reqQ h' = reqQ h \<and> cmpQ h' = cmpQ h \<and> rspQ h' = rspQ h \<and>
     io_running h' = io_running h \<and> Qdepth h' = Qdepth h"

definition same_events :: "vsc_ctrl_info \<Rightarrow> vsc_ctrl_info \<Rightarrow> bool" where
  "same_events h h' \<longleftrightarrow> nr_events h' = nr_events h \<and> event_pool_tbl h' = event_pool_tbl h \<and>
     event_pool_bits h' = event_pool_bits h \<and> event_reqQ h' = event_reqQ h \<and>
     event_rspQ h' = event_rspQ h"

lemma same_cmds_refl [simp]: "same_cmds h h"
  by (simp add: same_cmds_def)

lemma same_cmds_trans: "same_cmds h h' \<Longrightarrow> same_cmds h' h'' \<Longrightarrow> same_cmds h h''"
  by (simp add: same_cmds_def)

lemma same_events_refl [simp]: "same_events h h"
  by (simp add: same_events_def)

lemma same_events_trans: "same_events h h' \<Longrightarrow> same_events h' h'' \<Longrightarrow> same_events h h''"
  by (simp add: same_events_def)

text \<open>\<open>same_host\<close>: what no handler of a command or an event writes.\<close>

definition same_host :: "vsc_ctrl_info \<Rightarrow> vsc_ctrl_info \<Rightarrow> bool" where
  "same_host h h' \<longleftrightarrow> scsi_host h' = scsi_host h \<and> vbs_host_id h' = vbs_host_id h \<and>
     silbing_hosts h' = silbing_hosts h \<and> nr_cmds h' = nr_cmds h \<and> nr_events h' = nr_events h \<and>
     h_file h' = h_file h \<and> suspend h' = suspend h \<and>
     target_abnormal_lock h' = target_abnormal_lock h \<and>
     target_abnormal_timer h' = target_abnormal_timer h \<and> target_abnormal_time h' = target_abnormal_time h"

lemma same_host_refl [simp]: "same_host h h"
  by (simp add: same_host_def)

lemma same_host_trans: "same_host h h' \<Longrightarrow> same_host h' h'' \<Longrightarrow> same_host h h''"
  by (simp add: same_host_def)

lemma host_inv_same_cmds: "same_cmds h h' \<Longrightarrow> host_inv H h' = host_inv H h"
  by (simp add: same_cmds_def host_inv_defs allQ_def cmd_used_def)

lemma inflight_same_cmds: "same_cmds h h' \<Longrightarrow> inflight h' = inflight h"
  by (simp add: same_cmds_def inflight_def allQ_def)

lemma phases_same_cmds: "same_cmds h h' \<Longrightarrow> phases_ok h' = phases_ok h"
  by (simp add: same_cmds_def phases_ok_def)

lemma same_cmds_event [vsc_frame]:
  "same_cmds h (upd_event e f h)" "same_cmds h (vsc_event_get e h)" "same_cmds h (vsc_event_put e h)"
  "same_cmds h (vsc_event_del e h)" "same_cmds h (remove_eventQ e h)"
  "same_cmds h (vsc_event_wait_begin e h)" "same_cmds h (wake_up_queue h)"
  "same_cmds h (snd (vsc_event_add e callback type data priv h))"
  by (simp_all add: same_cmds_def upd_event_def vsc_event_get_def vsc_event_put_def vsc_event_del_def
      remove_eventQ_def vsc_event_wait_begin_def vsc_event_add_def wake_up_queue_def Let_def)

lemma vsc_event_alloc_shape:
  assumes "vsc_event_alloc h = Some (r, h')"
  shows "\<exists>b n t. h' = h\<lparr>event_pool_bits := b, h_event_sn := n, event_pool_tbl := t\<rparr>"
proof -
  obtain q bits where p: "pool_alloc (event_pool_bits h) (nr_events h) = Some (q, bits)"
    using assms by (cases "pool_alloc (event_pool_bits h) (nr_events h)") (auto simp: vsc_event_alloc_def)
  show ?thesis
  proof (cases q)
    case None
    with assms p have "h' = h" by (simp add: vsc_event_alloc_def)
    then show ?thesis
      by (intro exI [of _ "event_pool_bits h"] exI [of _ "h_event_sn h"] exI [of _ "event_pool_tbl h"]) simp
  next
    case (Some i)
    with assms p show ?thesis
      unfolding vsc_event_alloc_def upd_event_def Let_def by simp blast
  qed
qed

lemma same_cmds_event_alloc [vsc_frame]: "vsc_event_alloc h = Some (r, h') \<Longrightarrow> same_cmds h h'"
  by (drule vsc_event_alloc_shape) (elim exE, simp add: same_cmds_def)

lemma run_event_callback_frame [vsc_frame]:
  assumes "run_event_callback cb type e dt data dl h = Some (r, h')"
  shows "same_cmds h h'" "\<exists>p. h' = h \<or> h' = upd_event e (\<lambda>x. x\<lparr>event_priv := p\<rparr>) h"
  using assms
  by (cases cb; auto simp: vsc_abort_event_callback_def vsc_reset_dev_event_callback_def same_cmds_def
      upd_event_def bind_eq_Some_conv split: if_splits)+

lemma event_callback_on_frame:
  assumes "event_callback_on type e h = Some h'"
  shows "same_cmds h h'" "\<exists>p. h' = h \<or> h' = upd_event e (\<lambda>x. x\<lparr>event_priv := p\<rparr>) h"
proof -
  have "h' = h \<or> (\<exists>cb r. run_event_callback cb type e 0 [] 0 h = Some (r, h'))"
    using assms by (auto simp: event_callback_on_def split: option.splits)
  then show "same_cmds h h'" "\<exists>p. h' = h \<or> h' = upd_event e (\<lambda>x. x\<lparr>event_priv := p\<rparr>) h"
    using run_event_callback_frame by (auto, blast)
qed

lemma same_cmds_abort_all_event [vsc_frame]: "same_cmds h (snd (vsc_abort_all_event h))"
proof -
  have step: "same_cmds h (vsc_event_del e (remove_eventQ e h))" for e h
    using same_cmds_event(5) same_cmds_event(4) by (rule same_cmds_trans)
  have "same_cmds h (abort_event_reqQ h)" for h
    by (induction h rule: abort_event_reqQ.induct)
      (subst abort_event_reqQ.simps, auto split: list.splits intro: same_cmds_trans [OF step])
  moreover have "same_cmds h (abort_event_rspQ h)" for h
    by (induction h rule: abort_event_rspQ.induct)
      (subst abort_event_rspQ.simps, auto split: list.splits intro: same_cmds_trans [OF step])
  ultimately show ?thesis
    by (simp add: vsc_abort_all_event_def) (meson same_cmds_trans)
qed

subsection \<open>References to events\<close>

text \<open>
  Every reference to an event buffer is held by a running handler; \<open>HE\<close> is the multiset of
  these. A queue of events holds no reference of its own.
\<close>

definition event_inv :: "nat multiset \<Rightarrow> vsc_ctrl_info \<Rightarrow> bool" where
  "event_inv HE h \<longleftrightarrow> event_pool_ok h \<and> distinct (all_eventQ h) \<and>
     set (all_eventQ h) \<subseteq> set_mset HE \<and> event_used h = set_mset HE \<and>
     (\<forall>i\<in>#HE. erefcnt (event_of h i) = int (count HE i))"

lemmas event_inv_defs = event_inv_def event_pool_ok_def

lemma event_inv_held: "event_inv HE h \<Longrightarrow> i \<in># HE \<Longrightarrow>
    i < nr_events h \<and> i < length (event_pool_tbl h) \<and> i \<in> event_used h"
  by (auto simp: event_inv_defs dest: event_used_lt)

lemma vsc_event_alloc_inv:
  assumes inv: "event_inv HE h" and alloc: "vsc_event_alloc h = Some (Some i, h')"
  shows "event_inv (add_mset i HE) h'" "i \<notin># HE" "all_eventQ h' = all_eventQ h"
    "event_sn (event_of h' i) = ucast (h_event_sn h + 1)" "estat (event_of h' i) = EVENT_LIST_STAT_INIT"
    "shoot (event_of h' i) = EVENT_SHOOT_NOSHOOT" "i < nr_events h"
proof -
  have ok: "event_pool_ok h" using inv by (simp add: event_inv_def)
  then obtain bits where b: "i < nr_events h" "i \<notin> event_used h"
      "pool_wf bits (nr_events h)" "pool_used bits (nr_events h) = insert i (event_used h)"
    and h': "h' = upd_event i (\<lambda>e. zero_event\<lparr>event_index := of_nat i,
             event_sn := ucast (h_event_sn h + 1), erefcnt := 1\<rparr>)
           (h\<lparr>event_pool_bits := bits, h_event_sn := h_event_sn h + 1\<rparr>)"
    by (rule vsc_event_alloc_cases) (use alloc in auto)
  have len: "i < length (event_pool_tbl h)" using inv b by (simp add: event_inv_defs)
  show q: "all_eventQ h' = all_eventQ h" by (simp add: h' upd_event_def all_eventQ_def)
  show nH: "i \<notin># HE" using inv b by (simp add: event_inv_def)
  have used: "event_used h' = insert i (event_used h)"
    using b by (simp add: h' upd_event_def event_used_def)
  have "event_pool_ok h'"
    using epool.alloc_Some [OF ok alloc] by simp
  moreover have "\<forall>j\<in>#add_mset i HE. erefcnt (event_of h' j) = int (count (add_mset i HE) j)"
    using inv nH len by (auto simp: event_inv_def h' upd_event_def nth_list_update not_in_iff)
  ultimately show "event_inv (add_mset i HE) h'"
    using inv by (auto simp: event_inv_def q used)
  show "event_sn (event_of h' i) = ucast (h_event_sn h + 1)" "estat (event_of h' i) = EVENT_LIST_STAT_INIT"
    "shoot (event_of h' i) = EVENT_SHOOT_NOSHOOT" "i < nr_events h"
    using len b by (simp_all add: h' upd_event_def zero_event_def)
qed

text \<open>Writing members other than the index and the count keeps the invariant.\<close>

lemma upd_event_inv:
  assumes "event_inv HE h"
    and "\<And>x. event_index (f x) = event_index x" "\<And>x. erefcnt (f x) = erefcnt x"
  shows "event_inv HE (upd_event i f h)"
proof -
  have same: "event_index (event_of (upd_event i f h) j) = event_index (event_of h j) \<and>
      erefcnt (event_of (upd_event i f h) j) = erefcnt (event_of h j)" for j
    using assms(2,3)
    by (cases "i = j"; cases "i < length (event_pool_tbl h)") (simp_all add: upd_event_def list_update_beyond)
  have "event_used (upd_event i f h) = event_used h" "all_eventQ (upd_event i f h) = all_eventQ h"
    by (simp_all add: upd_event_def event_used_def all_eventQ_def)
  then show ?thesis
    using assms(1) same by (simp add: event_inv_defs) (simp add: upd_event_def)
qed

lemma vsc_event_get_inv:
  assumes inv: "event_inv HE h" and i: "i \<in># HE"
  shows "event_inv (add_mset i HE) (vsc_event_get i h)"
proof -
  have "i < length (event_pool_tbl h)" using event_inv_held [OF inv i] by simp
  then show ?thesis
    using inv i
    by (auto simp: event_inv_defs vsc_event_get_def upd_event_def all_eventQ_def event_used_def
        nth_list_update)
qed

lemma vsc_event_wait_begin_inv:
  "event_inv HE h \<Longrightarrow> i \<in># HE \<Longrightarrow> event_inv (add_mset i HE) (vsc_event_wait_begin i h)"
  unfolding vsc_event_wait_begin_def Let_def
  by (rule upd_event_inv [OF vsc_event_get_inv]) simp_all

text \<open>The last holder of a buffer must have unlinked it before it puts it.\<close>

lemma vsc_event_put_inv:
  assumes inv: "event_inv (add_mset i HE) h" and q: "i \<in> set (all_eventQ h) \<Longrightarrow> i \<in># HE"
  shows "event_inv HE (vsc_event_put i h)"
proof -
  have ok: "event_pool_ok h" and used: "i \<in> event_used h" "event_used h = insert i (set_mset HE)"
    and ref: "\<forall>j\<in>#add_mset i HE. erefcnt (event_of h j) = int (count (add_mset i HE) j)"
    using inv by (auto simp: event_inv_def)
  note put = vsc_event_put_pool [OF ok used(1)]
  have other: "j \<noteq> i \<Longrightarrow> event_of (vsc_event_put i h) j = event_of h j" for j
    by (simp add: vsc_event_put_def upd_event_def Let_def)
  have allq: "all_eventQ (vsc_event_put i h) = all_eventQ h"
    by (simp add: all_eventQ_def)
  have cnt: "erefcnt (event_of h i) = int (count HE i) + 1" using ref by auto
  have "event_used (vsc_event_put i h) = set_mset HE"
    using put(1) used(2) cnt by (auto simp: not_in_iff)
  moreover have "\<forall>j\<in>#HE. erefcnt (event_of (vsc_event_put i h) j) = int (count HE j)"
  proof
    fix j assume j: "j \<in># HE"
    then show "erefcnt (event_of (vsc_event_put i h) j) = int (count HE j)"
      using ref put(3) cnt by (cases "j = i") (auto simp: other)
  qed
  ultimately show ?thesis
    using inv put(2) q by (auto simp: event_inv_def allq)
qed

lemma remove_eventQ_all:
  "distinct (all_eventQ h) \<Longrightarrow> all_eventQ (remove_eventQ e h) = remove1 e (all_eventQ h)"
  by (auto simp: all_eventQ_def remove_eventQ_def remove1_append remove1_idem disjoint_iff)

lemma remove_eventQ_inv:
  assumes "event_inv HE h"
  shows "event_inv HE (remove_eventQ e h)" "e \<notin> set (all_eventQ (remove_eventQ e h))"
proof -
  have d: "distinct (all_eventQ h)" using assms by (simp add: event_inv_def)
  note r = remove_eventQ_all [OF d, of e]
  have "event_used (remove_eventQ e h) = event_used h" by (simp add: event_used_def remove_eventQ_def)
  then show "event_inv HE (remove_eventQ e h)"
    using assms d by (auto simp: event_inv_defs r set_remove1_eq) (simp_all add: remove_eventQ_def)
  show "e \<notin> set (all_eventQ (remove_eventQ e h))"
    using d by (simp add: r set_remove1_eq)
qed

lemma vsc_event_del_inv:
  assumes inv: "event_inv (add_mset i HE) h"
  shows "event_inv HE (vsc_event_del i h)" "all_eventQ (vsc_event_del i h) = remove1 i (all_eventQ h)"
proof -
  let ?h = "if e_waiting (event_of h i)
            then upd_event i (\<lambda>x. x\<lparr>shoot := EVENT_SHOOT_ABORT, e_waiting := False\<rparr>) h else h"
  have "event_inv (add_mset i HE) ?h"
    using inv upd_event_inv [OF inv] by simp
  from remove_eventQ_inv [OF this, of i]
  show "event_inv HE (vsc_event_del i h)"
    by (auto simp: vsc_event_del_def Let_def intro: vsc_event_put_inv)
  show "all_eventQ (vsc_event_del i h) = remove1 i (all_eventQ h)"
    using inv by (auto simp: all_eventQ_def event_inv_def remove1_append remove1_idem disjoint_iff)
qed

lemma vsc_event_add_inv:
  assumes inv: "event_inv HE h" and i: "i \<in># HE" "i \<notin> set (all_eventQ h)"
  shows "event_inv HE (snd (vsc_event_add i callback type data priv h))"
proof (cases "PAGE_SIZE - 8 \<le> length data")
  case True
  then show ?thesis using inv by (simp add: vsc_event_add_def Let_def)
next
  case False
  define g where "g = upd_event i (\<lambda>x. x\<lparr>
      event_data := page_write 0 (enc_words (vsc_scsi_msg_data_words
          \<lparr>md_data_type = type, md_data_len = of_nat (length data)\<rparr>))
        (page_write 8 data (event_data x)),
      event_data_len := length data + 8, event_callback := Some callback, event_priv := priv\<rparr>) h"
  have "event_inv HE g"
    unfolding g_def by (rule upd_event_inv [OF inv]) simp_all
  moreover have "event_reqQ g = event_reqQ h" "event_rspQ g = event_rspQ h"
    by (simp_all add: g_def upd_event_def)
  moreover have "snd (vsc_event_add i callback type data priv h) =
      wake_up_queue (g\<lparr>event_reqQ := add_eventQ (event_reqQ g) i\<rparr>)"
    using False by (simp add: vsc_event_add_def Let_def g_def)
  ultimately show ?thesis
    using i by (auto simp: event_inv_defs all_eventQ_def event_used_def add_eventQ_def wake_up_queue_def)
qed

lemma vsc_event_wait_end_inv:
  assumes inv: "event_inv (add_mset i HE) h" and i: "i \<in># HE"
    and e: "vsc_event_wait_end i retval h = Some (r, h')"
  shows "event_inv HE h'" "r = retval" "all_eventQ h' = all_eventQ h" "same_cmds h h'"
proof -
  let ?h1 = "upd_event i (\<lambda>x. x\<lparr>e_waiting := False\<rparr>) h"
  from e obtain h2 h3 where h2: "h2 = ?h1 \<or> event_callback_on EVENT_TIMEOUT i ?h1 = Some h2"
    and h3: "h3 = h2 \<or> event_callback_on EVENT_ABORT i h2 = Some h3"
    and h': "h' = vsc_event_put i h3" and "r = retval"
    by (auto simp: vsc_event_wait_end_def bind_eq_Some_conv split: if_splits)
  then show "r = retval" by simp
  have step: "(event_inv (add_mset i HE) g \<longrightarrow> event_inv (add_mset i HE) g') \<and>
      all_eventQ g' = all_eventQ g \<and> same_cmds g g'"
    if "g' = g \<or> event_callback_on t i g = Some g'" for g g' t
  proof (cases "g' = g")
    case False
    with that obtain p where "g' = g \<or> g' = upd_event i (\<lambda>x. x\<lparr>event_priv := p\<rparr>) g" "same_cmds g g'"
      using event_callback_on_frame by blast
    moreover have "event_inv (add_mset i HE) (upd_event i (\<lambda>x. x\<lparr>event_priv := p\<rparr>) g)"
      if "event_inv (add_mset i HE) g"
      by (rule upd_event_inv [OF that]) simp_all
    moreover have "all_eventQ (upd_event i (\<lambda>x. x\<lparr>event_priv := p\<rparr>) g) = all_eventQ g"
      by (simp add: all_eventQ_def upd_event_def)
    ultimately show ?thesis using False by auto
  qed simp
  have "event_inv (add_mset i HE) ?h1" by (rule upd_event_inv [OF inv]) simp_all
  then have f: "event_inv (add_mset i HE) h3" "all_eventQ h3 = all_eventQ ?h1" "same_cmds ?h1 h3"
    using step [OF h2] step [OF h3] same_cmds_trans [of ?h1 h2 h3] by auto
  show "event_inv HE h'"
    unfolding h' using f(1) by (rule vsc_event_put_inv) (rule i)
  show "all_eventQ h' = all_eventQ h"
    using f(2) by (simp add: h' all_eventQ_def upd_event_def)
  have "same_cmds h h3"
    using same_cmds_event(1) f(3) by (rule same_cmds_trans)
  then show "same_cmds h h'"
    unfolding h' using same_cmds_event(3) by (rule same_cmds_trans)
qed

text \<open>
  \<open>vsc_abort_all_event\<close> unlinks every event and consumes one reference to each, whoever the
  reference belongs to.
\<close>

lemma abort_event_reqQ_inv:
  "event_inv (mset (event_reqQ h) + HE) h \<Longrightarrow> set (event_rspQ h) \<subseteq> set_mset HE \<Longrightarrow>
   event_inv HE (abort_event_reqQ h) \<and> event_reqQ (abort_event_reqQ h) = [] \<and>
   event_rspQ (abort_event_reqQ h) = event_rspQ h"
proof (induction "event_reqQ h" arbitrary: h)
  case Nil
  then show ?case by (subst (1 2 3) abort_event_reqQ.simps) simp
next
  case (Cons e q)
  let ?h = "vsc_event_del e (remove_eventQ e h)"
  have q: "event_reqQ h = e # q" using Cons.hyps(2) by simp
  have "e \<notin> set q" "e \<notin> set (event_rspQ h)"
    using Cons.prems(1) q by (auto simp: event_inv_def all_eventQ_def)
  then have reqQ: "event_reqQ ?h = q" and rspQ: "event_rspQ ?h = event_rspQ h"
    using q by (simp_all add: remove_eventQ_def remove1_idem)
  have "event_inv (add_mset e (mset q + HE)) (remove_eventQ e h)"
    using Cons.prems(1) q by (intro remove_eventQ_inv(1)) simp
  then have "event_inv (mset (event_reqQ ?h) + HE) ?h"
    unfolding reqQ by (rule vsc_event_del_inv(1))
  moreover have "abort_event_reqQ h = abort_event_reqQ ?h"
    by (subst abort_event_reqQ.simps) (simp add: q)
  ultimately show ?case
    using Cons.hyps(1) [of ?h] reqQ rspQ Cons.prems(2) by simp
qed

lemma abort_event_rspQ_inv:
  "event_inv (mset (event_rspQ h) + HE) h \<Longrightarrow> event_reqQ h = [] \<Longrightarrow>
   event_inv HE (abort_event_rspQ h) \<and> all_eventQ (abort_event_rspQ h) = []"
proof (induction "event_rspQ h" arbitrary: h)
  case Nil
  then show ?case by (subst (1 2) abort_event_rspQ.simps) (simp add: all_eventQ_def)
next
  case (Cons e q)
  let ?h = "vsc_event_del e (remove_eventQ e h)"
  have q: "event_rspQ h = e # q" using Cons.hyps(2) by simp
  have "e \<notin> set q"
    using Cons.prems(1) q by (auto simp: event_inv_def all_eventQ_def)
  then have rspQ: "event_rspQ ?h = q" and reqQ: "event_reqQ ?h = []"
    using q Cons.prems(2) by (simp_all add: remove_eventQ_def remove1_idem)
  have "event_inv (add_mset e (mset q + HE)) (remove_eventQ e h)"
    using Cons.prems(1) q by (intro remove_eventQ_inv(1)) simp
  then have "event_inv (mset (event_rspQ ?h) + HE) ?h"
    unfolding rspQ by (rule vsc_event_del_inv(1))
  moreover have "abort_event_rspQ h = abort_event_rspQ ?h"
    by (subst abort_event_rspQ.simps) (simp add: q)
  ultimately show ?case
    using Cons.hyps(1) [of ?h] reqQ rspQ by simp
qed

lemma abort_all_event_inv:
  assumes "event_inv (mset (all_eventQ h) + HE) h"
  shows "event_inv HE (snd (vsc_abort_all_event h))" "all_eventQ (snd (vsc_abort_all_event h)) = []"
proof -
  have "event_inv (mset (event_reqQ h) + (mset (event_rspQ h) + HE)) h"
    using assms by (simp add: all_eventQ_def union_assoc)
  from abort_event_reqQ_inv [OF this]
  have "event_inv (mset (event_rspQ h) + HE) (abort_event_reqQ h)" "event_reqQ (abort_event_reqQ h) = []"
    "event_rspQ (abort_event_reqQ h) = event_rspQ h"
    by auto
  with abort_event_rspQ_inv [of "abort_event_reqQ h" HE]
  show "event_inv HE (snd (vsc_abort_all_event h))" "all_eventQ (snd (vsc_abort_all_event h)) = []"
    by (simp_all add: vsc_abort_all_event_def)
qed

lemma vsc_event_wait_end_total: "\<exists>h'. vsc_event_wait_end e retval h = Some (retval, h')"
proof -
  have "\<exists>h'. event_callback_on t e g = Some h'" if "t = EVENT_TIMEOUT \<or> t = EVENT_ABORT" for t g
  proof (cases "event_callback (event_of g e)")
    case (Some cb)
    with that show ?thesis
      by (cases cb)
        (auto simp: event_callback_on_def vsc_abort_event_callback_def vsc_reset_dev_event_callback_def)
  qed (simp add: event_callback_on_def)
  note total = this
  let ?h1 = "upd_event e (\<lambda>x. x\<lparr>e_waiting := False\<rparr>) h"
  obtain h2 where h2: "(if retval = 0 then event_callback_on EVENT_TIMEOUT e ?h1 else Some ?h1) = Some h2"
    using total [of EVENT_TIMEOUT ?h1] by (cases "retval = 0") auto
  obtain h3 where h3: "(if shoot (event_of h2 e) = EVENT_SHOOT_ABORT
      then event_callback_on EVENT_ABORT e h2 else Some h2) = Some h3"
    using total [of EVENT_ABORT h2] by (cases "shoot (event_of h2 e) = EVENT_SHOOT_ABORT") auto
  show ?thesis
    by (simp add: vsc_event_wait_end_def h2 h3)
qed

lemma same_host_event [vsc_frame]:
  "same_host h (upd_event e f h)" "same_host h (vsc_event_get e h)" "same_host h (vsc_event_put e h)"
  "same_host h (vsc_event_del e h)" "same_host h (remove_eventQ e h)"
  "same_host h (vsc_event_wait_begin e h)" "same_host h (wake_up_queue h)"
  "same_host h (snd (vsc_event_add e callback type data priv h))"
  by (simp_all add: same_host_def upd_event_def vsc_event_get_def vsc_event_put_def vsc_event_del_def
      remove_eventQ_def vsc_event_wait_begin_def vsc_event_add_def wake_up_queue_def Let_def)

lemma same_host_event_alloc [vsc_frame]: "vsc_event_alloc h = Some (r, h') \<Longrightarrow> same_host h h'"
  by (drule vsc_event_alloc_shape) (elim exE, simp add: same_host_def)

lemma event_callback_on_same_host: "event_callback_on t e h = Some h' \<Longrightarrow> same_host h h'"
  using event_callback_on_frame [of t e h h'] same_host_event(1) by auto

lemma vsc_event_wait_end_same_host [vsc_frame]:
  assumes "vsc_event_wait_end e retval h = Some (r, h')"
  shows "same_host h h'" "same_cmds h h'"
proof -
  let ?h1 = "upd_event e (\<lambda>x. x\<lparr>e_waiting := False\<rparr>) h"
  from assms obtain h2 h3 where h2: "h2 = ?h1 \<or> event_callback_on EVENT_TIMEOUT e ?h1 = Some h2"
    and h3: "h3 = h2 \<or> event_callback_on EVENT_ABORT e h2 = Some h3"
    and h': "h' = vsc_event_put e h3"
    by (auto simp: vsc_event_wait_end_def bind_eq_Some_conv split: if_splits)
  have "same_host ?h1 h2" "same_host h2 h3" "same_cmds ?h1 h2" "same_cmds h2 h3"
    using h2 h3 event_callback_on_same_host event_callback_on_frame(1) by auto
  then show "same_host h h'" "same_cmds h h'"
    unfolding h'
    by (meson same_host_trans same_host_event(1,3), meson same_cmds_trans same_cmds_event(1,3))
qed

lemma same_host_abort_all_event [vsc_frame]: "same_host h (snd (vsc_abort_all_event h))"
proof -
  have step: "same_host h (vsc_event_del e (remove_eventQ e h))" for e h
    using same_host_event(5) same_host_event(4) by (rule same_host_trans)
  have "same_host h (abort_event_reqQ h)" for h
    by (induction h rule: abort_event_reqQ.induct)
      (subst abort_event_reqQ.simps, auto split: list.splits intro: same_host_trans [OF step])
  moreover have "same_host h (abort_event_rspQ h)" for h
    by (induction h rule: abort_event_rspQ.induct)
      (subst abort_event_rspQ.simps, auto split: list.splits intro: same_host_trans [OF step])
  ultimately show ?thesis
    by (simp add: vsc_abort_all_event_def) (meson same_host_trans)
qed

end
