(* ===== verification/Vsc_Recovery.thy ===== *)
theory Vsc_Recovery
  imports Vsc_Event
begin

text \<open>
  Error recovery. \<open>vsc_each_queue_remove\<close> empties the three command queues of a host and gives
  every command to a callback, which completes it with an error or asks for a requeue; the
  locale \<open>drain_callback\<close> is what the loop relies on, and both callbacks of the driver are
  interpretations. The two error handlers, \<open>vsc_eh_abort\<close> and \<open>vsc_eh_device_reset_handler\<close>,
  post an event for the target and sleep: \<open>_begin\<close> is the part before the sleep, \<open>_end\<close> the
  part after it, and the handler takes what happens meanwhile as its argument \<open>sleep\<close>.
\<close>

subsection \<open>Emptying the queues of a host\<close>

type_synonym drain_state = "vsc_ctrl_info \<times> midlayer"

text \<open>One round of a loop of \<open>vsc_each_queue_remove\<close>, for the first buffer \<open>c\<close> of the queue.\<close>

definition drain_step ::
  "(nat \<Rightarrow> queue_type \<Rightarrow> drain_state \<Rightarrow> drain_state) \<Rightarrow> nat \<Rightarrow> queue_type \<Rightarrow> drain_state \<Rightarrow> drain_state"
  where
  "drain_step callback c ty = (\<lambda>(h, m).
     (let h1 = removeQ c h;
          h2 = h1\<lparr>io_running := io_running h1 - 1\<rparr>;
          h3 = vsc_cmd_get c h2;
          (h4, m4) = callback c ty (h3, m)
      in (vsc_cmd_put c h4, m4)))"

partial_function (option) drain_queue ::
  "(vsc_ctrl_info \<Rightarrow> nat list) \<Rightarrow> queue_type \<Rightarrow> (nat \<Rightarrow> queue_type \<Rightarrow> drain_state \<Rightarrow> drain_state) \<Rightarrow>
   drain_state \<Rightarrow> drain_state option" where
  "drain_queue q ty callback s =
     (case q (fst s) of
        [] \<Rightarrow> Some s
      | c # _ \<Rightarrow> drain_queue q ty callback (drain_step callback c ty s))"

declare drain_queue.simps [code]

definition vsc_each_queue_remove ::
  "(nat \<Rightarrow> queue_type \<Rightarrow> drain_state \<Rightarrow> drain_state) \<Rightarrow> drain_state \<Rightarrow> (int \<times> drain_state) option" where
  "vsc_each_queue_remove callback s =
     do { s1 \<leftarrow> drain_queue reqQ VSC_LIST_REQQ callback s;
          s2 \<leftarrow> drain_queue cmpQ VSC_LIST_COMQ callback s1;
          s3 \<leftarrow> drain_queue rspQ VSC_LIST_RSPQ callback s2;
          Some (0, s3) }"

definition vsc_abort_cmd_callback :: "nat \<Rightarrow> queue_type \<Rightarrow> drain_state \<Rightarrow> drain_state" where
  "vsc_abort_cmd_callback c list_type = (\<lambda>(h, m).
     (let h1 = (case list_type of
                  VSC_LIST_REQQ \<Rightarrow> h\<lparr>Qdepth := Qdepth h - 1\<rparr>
                | VSC_LIST_COMQ \<Rightarrow> h
                | VSC_LIST_RSPQ \<Rightarrow> h)
      in case scsi_cmd (cmd_of h1 c) of
           None \<Rightarrow> (vsc_cmd_put c h1, m)
         | Some sc \<Rightarrow>
             (let m1 = upd_sc sc (\<lambda>s. s\<lparr>sc_result := push_bit 16 DID_SOFT_ERROR\<rparr>) m;
                  m2 = scsi_done sc m1
              in (vsc_cmd_put c h1, m2))))"

definition vsc_requeue_cmd_callback :: "nat \<Rightarrow> queue_type \<Rightarrow> drain_state \<Rightarrow> drain_state" where
  "vsc_requeue_cmd_callback c list_type = (\<lambda>(h, m).
     (let h1 = (case list_type of
                  VSC_LIST_REQQ \<Rightarrow> h\<lparr>Qdepth := Qdepth h - 1\<rparr>
                | VSC_LIST_COMQ \<Rightarrow> h
                | VSC_LIST_RSPQ \<Rightarrow> h)
      in case scsi_cmd (cmd_of h1 c) of
           None \<Rightarrow> (vsc_cmd_put c h1, m)
         | Some sc \<Rightarrow>
             (let m1 = upd_sc sc (\<lambda>s. s\<lparr>sc_result := push_bit 16 DID_REQUEUE\<rparr>) m;
                  m2 = scsi_done sc m1
              in (vsc_cmd_put c h1, m2))))"

text \<open>Both take a pointer to a host that may be \<open>NULL\<close>.\<close>

definition vsc_abort_all_cmd :: "nat option \<Rightarrow> vsc_world \<Rightarrow> (int \<times> vsc_world) option" where
  "vsc_abort_all_cmd hp w =
     (case hp of
        None \<Rightarrow> Some (- EINVAL, w)
      | Some a \<Rightarrow>
          do { (r, h, m) \<leftarrow> vsc_each_queue_remove vsc_abort_cmd_callback (hosts w a, mid w);
               Some (r, (upd_host a h w)\<lparr>mid := m\<rparr>) })"

definition vsc_requeue_all_cmd :: "nat option \<Rightarrow> vsc_world \<Rightarrow> (int \<times> vsc_world) option" where
  "vsc_requeue_all_cmd hp w =
     (case hp of
        None \<Rightarrow> Some (- EINVAL, w)
      | Some a \<Rightarrow>
          do { (r, h, m) \<leftarrow> vsc_each_queue_remove vsc_requeue_cmd_callback (hosts w a, mid w);
               Some (r, (upd_host a h w)\<lparr>mid := m\<rparr>) })"

subsection \<open>Abort\<close>

text \<open>The driver's pointers while a handler sleeps: the host, the command's and the event's buffer.\<close>

type_synonym eh_frame = "nat \<times> nat \<times> nat"

definition upd_stat :: "(vsc_ctlr_statics \<Rightarrow> vsc_ctlr_statics) \<Rightarrow> vsc_ctrl_info \<Rightarrow> vsc_ctrl_info" where
  "upd_stat f h = h\<lparr>h_stat := f (h_stat h)\<rparr>"

definition eh_event_data :: "nat \<Rightarrow> nat \<Rightarrow> vsc_ctrl_info \<Rightarrow> midlayer \<Rightarrow> vsc_event_abort" where
  "eh_event_data sc c h m =
     (let dev = sdevs m (sc_device (scmds m sc)) in
      \<lparr>ea_cmd_sn = cmd_sn (cmd_of h c), ea_host = vsc_ctrl_get_host_no h,
       ea_channel = sdev_channel dev, ea_id = sdev_id dev, ea_lun = sdev_lun dev\<rparr>)"

definition vsc_eh_abort_begin :: "nat \<Rightarrow> vsc_world \<Rightarrow> ((int + eh_frame) \<times> vsc_world) option" where
  "vsc_eh_abort_begin sc w =
     (case host_scribble (scmds (mid w) sc) of
        None \<Rightarrow> Some (Inl FAILED, w)
      | Some (a, c) \<Rightarrow>
          (let h1 = vsc_cmd_get c (hosts w a);
               h2 = upd_stat (\<lambda>s. s\<lparr>abort_cmd_count := abort_cmd_count s + 1\<rparr>) h1
           in do { (r, h3) \<leftarrow> vsc_event_alloc h2;
                   case r of
                     None \<Rightarrow> Some (Inl SUCCESS, upd_host a (vsc_cmd_put c h3) w)
                   | Some e \<Rightarrow>
                       (let data = enc_words (vsc_event_abort_words (eh_event_data sc c h3 (mid w)));
                            (_, h4) = vsc_event_add e Abort_event_callback VSC_EVENT_TYPE_ABORT
                                        data FAILED h3;
                            h5 = vsc_event_wait_begin e h4
                        in Some (Inr (a, c, e), upd_host a h5 w)) }))"

definition vsc_eh_abort_end :: "nat \<Rightarrow> eh_frame \<Rightarrow> int \<Rightarrow> vsc_world \<Rightarrow> (int \<times> vsc_world) option" where
  "vsc_eh_abort_end sc = (\<lambda>(a, c, e) retval w.
     do { (_, h1) \<leftarrow> vsc_event_wait_end e retval (hosts w a);
          let result = event_priv (event_of h1 e);
          let (h2, m2) =
                (if result = SUCCESS then
                   if \<not> cmd_unlinked c h1 then
                     (let g1 = removeQ c h1;
                          g2 = g1\<lparr>io_running := io_running g1 - 1\<rparr>;
                          g3 = vsc_cmd_put c g2;
                          m1 = upd_sc sc (\<lambda>s. s\<lparr>sc_result := push_bit 16 DID_ABORT\<rparr>) (mid w)
                      in (g3, scsi_done sc m1))
                   else (h1, mid w)
                 else (h1, mid w));
          let h3 = vsc_event_del e h2;
          let h4 = vsc_cmd_put c h3;
          Some (result, (upd_host a h4 w)\<lparr>mid := m2\<rparr>) })"

definition vsc_eh_abort :: "(vsc_world \<Rightarrow> int \<times> vsc_world) \<Rightarrow> nat \<Rightarrow> vsc_world \<Rightarrow> (int \<times> vsc_world) option" where
  "vsc_eh_abort sleep sc w =
     do { (r, w1) \<leftarrow> vsc_eh_abort_begin sc w;
          case r of
            Inl result \<Rightarrow> Some (result, w1)
          | Inr fr \<Rightarrow> (let (retval, w2) = sleep w1 in vsc_eh_abort_end sc fr retval w2) }"

subsection \<open>Device reset\<close>

definition vsc_eh_reset_begin :: "nat \<Rightarrow> vsc_world \<Rightarrow> ((int + eh_frame) \<times> vsc_world) option" where
  "vsc_eh_reset_begin sc w =
     (case host_scribble (scmds (mid w) sc) of
        None \<Rightarrow> Some (Inl FAILED, w)
      | Some (a, c) \<Rightarrow>
          (let h1 = vsc_cmd_get c (hosts w a);
               h2 = upd_stat (\<lambda>s. s\<lparr>reset_dev_count := reset_dev_count s + 1\<rparr>) h1
           in do { (r, h3) \<leftarrow> vsc_event_alloc h2;
                   case r of
                     None \<Rightarrow> Some (Inl SUCCESS, upd_host a (vsc_cmd_put c h3) w)
                   | Some e \<Rightarrow>
                       (let data = enc_words (vsc_event_abort_words (eh_event_data sc c h3 (mid w)));
                            (_, h4) = vsc_event_add e Reset_dev_event_callback VSC_EVENT_TYPE_RESET_DEV
                                        data FAILED h3;
                            h5 = vsc_event_wait_begin e h4
                        in Some (Inr (a, c, e), upd_host a h5 w)) }))"

text \<open>
  \<open>for (i = 0; i < silbing_hosts->host_count; i++) f(silbing_hosts->host_list[i])\<close>; an index
  outside of \<open>host_list\<close> is undefined behaviour.
\<close>

fun each_sibling ::
  "(nat option \<Rightarrow> vsc_world \<Rightarrow> (int \<times> vsc_world) option) \<Rightarrow> nat \<Rightarrow> nat list \<Rightarrow> vsc_world \<Rightarrow> vsc_world option"
  where
  "each_sibling f mp [] w = Some w"
| "each_sibling f mp (i # is) w =
     (if i < length (host_list (mgrs w mp))
      then do { (_, w1) \<leftarrow> f (host_list (mgrs w mp) ! i) w; each_sibling f mp is w1 }
      else None)"

definition vsc_eh_reset_end :: "nat \<Rightarrow> eh_frame \<Rightarrow> int \<Rightarrow> vsc_world \<Rightarrow> (int \<times> vsc_world) option" where
  "vsc_eh_reset_end sc = (\<lambda>(a, c, e) retval w.
     do { (_, h1) \<leftarrow> vsc_event_wait_end e retval (hosts w a);
          let w1 = upd_host a h1 w;
          let result = event_priv (event_of h1 e);
          mp \<leftarrow> silbing_hosts h1;
          w2 \<leftarrow> each_sibling (if SUCCESS = event_priv (event_of h1 e)
                              then vsc_requeue_all_cmd else vsc_abort_all_cmd)
                  mp [0..<unat (host_count (mgrs w1 mp))] w1;
          let h3 = vsc_event_del e (hosts w2 a);
          let h4 = vsc_cmd_put c h3;
          let (_, h5) = vsc_abort_all_event h4;
          Some (result, upd_host a h5 w2) })"

definition vsc_eh_device_reset_handler ::
  "(vsc_world \<Rightarrow> int \<times> vsc_world) \<Rightarrow> nat \<Rightarrow> vsc_world \<Rightarrow> (int \<times> vsc_world) option" where
  "vsc_eh_device_reset_handler sleep sc w =
     do { (r, w1) \<leftarrow> vsc_eh_reset_begin sc w;
          case r of
            Inl result \<Rightarrow> Some (result, w1)
          | Inr fr \<Rightarrow> (let (retval, w2) = sleep w1 in vsc_eh_reset_end sc fr retval w2) }"

subsection \<open>The callbacks complete what they are given\<close>

definition dec_qdepth :: "queue_type \<Rightarrow> vsc_ctrl_info \<Rightarrow> vsc_ctrl_info" where
  "dec_qdepth ty h = (if ty = VSC_LIST_REQQ then h\<lparr>Qdepth := Qdepth h - 1\<rparr> else h)"

definition complete :: "u32 \<Rightarrow> nat \<Rightarrow> midlayer \<Rightarrow> midlayer" where
  "complete code sc m = scsi_done sc (upd_sc sc (\<lambda>s. s\<lparr>sc_result := code\<rparr>) m)"

lemma complete_log [simp]: "done_log (complete code sc m) = done_log m @ [(sc, code)]"
  by (simp add: complete_def scsi_done_def upd_sc_def)

lemma complete_frame [simp]:
  "shosts (complete code sc m) = shosts m" "sdevs (complete code sc m) = sdevs m"
  "completed (complete code sc m) = add_mset sc (completed m)"
  "host_scribble (scmds (complete code sc m) s) = host_scribble (scmds m s)"
  "cmnd (scmds (complete code sc m) s) = cmnd (scmds m s)"
  by (simp_all add: complete_def scsi_done_def upd_sc_def completed_def)

text \<open>The requests of the middle layer: their CDBs, and the pointers to the driver's buffers.\<close>

definition same_cdbs :: "midlayer \<Rightarrow> midlayer \<Rightarrow> bool" where
  "same_cdbs m m' \<longleftrightarrow> (\<forall>s. cmnd (scmds m' s) = cmnd (scmds m s) \<and> host_scribble (scmds m' s) = host_scribble (scmds m s))"

lemma same_cdbs_refl [simp]: "same_cdbs m m"
  by (simp add: same_cdbs_def)

lemma same_cdbs_trans: "same_cdbs m m' \<Longrightarrow> same_cdbs m' m'' \<Longrightarrow> same_cdbs m m''"
  by (simp add: same_cdbs_def)

text \<open>Taking a buffer out of the queue \<open>ty\<close> and adjusting the counters moves one reference.\<close>

definition in_queue :: "queue_type \<Rightarrow> vsc_ctrl_info \<Rightarrow> nat list" where
  "in_queue ty h = (case ty of VSC_LIST_REQQ \<Rightarrow> reqQ h | VSC_LIST_COMQ \<Rightarrow> cmpQ h | VSC_LIST_RSPQ \<Rightarrow> rspQ h)"

lemma in_queue_simps [simp]:
  "in_queue VSC_LIST_REQQ = reqQ" "in_queue VSC_LIST_COMQ = cmpQ" "in_queue VSC_LIST_RSPQ = rspQ"
  by (simp_all add: in_queue_def fun_eq_iff)

lemma in_queue_disjoint:
  "distinct (allQ h) \<Longrightarrow> c \<in> set (in_queue ty h) \<Longrightarrow> t \<noteq> ty \<Longrightarrow> c \<notin> set (in_queue t h)"
  by (cases t; cases ty) (auto simp: allQ_def)

lemma unlink_dec_inv:
  assumes inv: "host_inv H h" and c: "c \<in> set (in_queue ty h)"
  shows "host_inv (add_mset c H) (dec_qdepth ty (unlink c h))" "c \<in> set (allQ h)"
    "allQ (dec_qdepth ty (unlink c h)) = remove1 c (allQ h)"
proof -
  let ?h = "dec_qdepth ty (unlink c h)"
  show all: "c \<in> set (allQ h)"
    using c by (cases ty) (auto simp: in_queue_def allQ_def)
  have d: "distinct (allQ h)" using inv by (simp add: host_inv_defs)
  show q: "allQ ?h = remove1 c (allQ h)"
    using allQ_unlink [OF d, of c] by (simp add: dec_qdepth_def allQ_def)
  show "host_inv (add_mset c H) ?h"
  proof (cases "ty = VSC_LIST_REQQ")
    case False
    then have "c \<notin> set (reqQ h)"
      using c d by (cases ty) (auto simp: in_queue_def allQ_def)
    with False show ?thesis
      using unlink_inv [OF inv all] by (simp add: dec_qdepth_def)
  next
    case True
    let ?g = "h\<lparr>reqQ := remove1 c (reqQ h), cmpQ := c # cmpQ h, Qdepth := Qdepth h - 1\<rparr>"
    have req: "c \<in> set (reqQ h)" and nc: "c \<notin> set (cmpQ h)" "c \<notin> set (rspQ h)"
      using c True d by (auto simp: in_queue_def allQ_def)
    have len: "length (reqQ h) = Suc (length (remove1 c (reqQ h)))"
      using req length_pos_if_in_set [OF req] by (simp add: length_remove1)
    have "host_inv H ?g"
      using inv
    proof (rule host_inv_move)
      show "mset (allQ ?g) = mset (allQ h)" using req by (simp add: allQ_def)
      show "Qdepth ?g = of_nat (length (reqQ ?g))"
        using inv len by (simp add: host_inv_def counters_ok_def)
    qed (simp_all add: same_buffers_def)
    moreover have "c \<notin> set (reqQ ?g)" using req d by (auto simp: allQ_def set_remove1_eq)
    moreover have "unlink c ?g = ?h"
      using True nc \<open>c \<notin> set (reqQ ?g)\<close>
      by (simp add: unlink_def removeQ_def dec_qdepth_def Let_def remove1_idem)
    ultimately show ?thesis
      using unlink_inv [of H ?g c] by (simp add: allQ_def)
  qed
qed

lemma cmd_put_frame [vsc_frame]:
  "same_host h (vsc_cmd_put c h)" "same_events h (vsc_cmd_put c h)"
  "reqQ (vsc_cmd_put c h) = reqQ h" "cmpQ (vsc_cmd_put c h) = cmpQ h" "rspQ (vsc_cmd_put c h) = rspQ h"
  "allQ (vsc_cmd_put c h) = allQ h"
  "scsi_cmd (cmd_of (vsc_cmd_put c h) j) = scsi_cmd (cmd_of h j)"
  "cstat (cmd_of (vsc_cmd_put c h) j) = cstat (cmd_of h j)"
  "cmd_sn (cmd_of (vsc_cmd_put c h) j) = cmd_sn (cmd_of h j)"
  by (cases "j = c"; cases "c < length (cmd_pool_tbl h)";
      simp add: same_host_def same_events_def vsc_cmd_put_def upd_cmd_def Let_def allQ_def list_update_beyond)+

lemma cmd_get_frame [vsc_frame]:
  "same_host h (vsc_cmd_get c h)" "same_events h (vsc_cmd_get c h)"
  "reqQ (vsc_cmd_get c h) = reqQ h" "cmpQ (vsc_cmd_get c h) = cmpQ h" "rspQ (vsc_cmd_get c h) = rspQ h"
  "allQ (vsc_cmd_get c h) = allQ h"
  "scsi_cmd (cmd_of (vsc_cmd_get c h) j) = scsi_cmd (cmd_of h j)"
  "cstat (cmd_of (vsc_cmd_get c h) j) = cstat (cmd_of h j)"
  "cmd_sn (cmd_of (vsc_cmd_get c h) j) = cmd_sn (cmd_of h j)"
  by (cases "j = c"; cases "c < length (cmd_pool_tbl h)";
      simp add: same_host_def same_events_def vsc_cmd_get_def upd_cmd_def Let_def allQ_def list_update_beyond)+

lemma unlink_frame [vsc_frame]:
  "same_host h (unlink c h)" "same_events h (unlink c h)" "same_host h (dec_qdepth ty h)"
  "same_events h (dec_qdepth ty h)" "cmd_pool_tbl (dec_qdepth ty h) = cmd_pool_tbl h"
  "reqQ (dec_qdepth ty h) = reqQ h" "cmpQ (dec_qdepth ty h) = cmpQ h" "rspQ (dec_qdepth ty h) = rspQ h"
  by (simp_all add: same_host_def same_events_def unlink_def removeQ_def dec_qdepth_def Let_def)

lemma inflight_cong: "allQ h' = allQ h \<Longrightarrow> (\<And>j. scsi_cmd (cmd_of h' j) = scsi_cmd (cmd_of h j)) \<Longrightarrow>
    inflight h' = inflight h"
  by (simp add: inflight_def)

locale drain_callback =
  fixes callback :: "nat \<Rightarrow> queue_type \<Rightarrow> drain_state \<Rightarrow> drain_state"
    and code :: u32
  assumes callback_done: "scsi_cmd (cmd_of h c) = Some sc \<Longrightarrow>
      callback c ty (h, m) = (vsc_cmd_put c (dec_qdepth ty h), complete code sc m)"
begin

lemma drain_step_eq:
  assumes "scsi_cmd (cmd_of h c) = Some sc"
  shows "drain_step callback c ty (h, m) =
     (vsc_cmd_put c (vsc_cmd_put c (vsc_cmd_get c (dec_qdepth ty (unlink c h)))), complete code sc m)"
proof -
  have "scsi_cmd (cmd_of (vsc_cmd_get c (unlink c h)) c) = Some sc"
    using assms by (cases "c < length (cmd_pool_tbl h)") (simp_all add: vsc_cmd_get_def upd_cmd_def list_update_beyond)
  moreover have "dec_qdepth ty (vsc_cmd_get c (unlink c h)) = vsc_cmd_get c (dec_qdepth ty (unlink c h))"
    by (simp add: dec_qdepth_def vsc_cmd_get_def upd_cmd_def)
  ultimately show ?thesis
    using callback_done [of "vsc_cmd_get c (unlink c h)" c sc ty m]
    by (simp add: drain_step_def unlink_def Let_def)
qed

lemma drain_step_inv:
  assumes inv: "host_inv H h" and c: "c \<in> set (in_queue ty h)" and sc: "scsi_cmd (cmd_of h c) = Some sc"
  obtains h' where "drain_step callback c ty (h, m) = (h', complete code sc m)" "host_inv H h'"
    "same_host h h'" "same_events h h'" "reqQ h' = remove1 c (reqQ h)" "cmpQ h' = remove1 c (cmpQ h)"
    "rspQ h' = remove1 c (rspQ h)" "\<And>j. scsi_cmd (cmd_of h' j) = scsi_cmd (cmd_of h j)"
proof
  let ?g = "dec_qdepth ty (unlink c h)"
  let ?h = "vsc_cmd_put c (vsc_cmd_put c (vsc_cmd_get c ?g))"
  show "drain_step callback c ty (h, m) = (?h, complete code sc m)"
    using sc by (rule drain_step_eq)
  have g: "host_inv (add_mset c H) ?g" using unlink_dec_inv [OF inv c] by simp
  then have "c \<in> cmd_used ?g" by (auto dest: host_inv_held)
  from vsc_cmd_get_inv [OF g this] show "host_inv H ?h"
    by (intro vsc_cmd_put_inv)
  show "same_host h ?h"
    by (meson same_host_trans cmd_put_frame(1) cmd_get_frame(1) unlink_frame(1,3))
  show "same_events h ?h"
    by (meson same_events_trans cmd_put_frame(2) cmd_get_frame(2) unlink_frame(2,4))
  show "reqQ ?h = remove1 c (reqQ h)" "cmpQ ?h = remove1 c (cmpQ h)" "rspQ ?h = remove1 c (rspQ h)"
    "scsi_cmd (cmd_of ?h j) = scsi_cmd (cmd_of h j)" for j
    by (simp_all add: vsc_frame)
qed

text \<open>The commands of a list of buffers, each completed with the callback's code.\<close>

definition drained :: "vsc_ctrl_info \<Rightarrow> nat list \<Rightarrow> midlayer \<Rightarrow> midlayer" where
  "drained h q = fold (\<lambda>i. complete code (the (scsi_cmd (cmd_of h i)))) q"

lemma drained_cong: "(\<And>j. scsi_cmd (cmd_of h' j) = scsi_cmd (cmd_of h j)) \<Longrightarrow> drained h' = drained h"
  by (simp add: drained_def fun_eq_iff)

lemma drained_log: "done_log (drained h q m) = done_log m @ map (\<lambda>i. (the (scsi_cmd (cmd_of h i)), code)) q"
  by (induction q arbitrary: m) (simp_all add: drained_def)

lemma drain_queue_spec:
  assumes "host_inv H h" "q = in_queue ty"
  shows "\<exists>h'. drain_queue q ty callback (h, m) = Some (h', drained h (q h) m) \<and> host_inv H h' \<and>
     same_host h h' \<and> same_events h h' \<and> q h' = [] \<and>
     (\<forall>t. t \<noteq> ty \<longrightarrow> in_queue t h' = in_queue t h) \<and>
     (\<forall>j. scsi_cmd (cmd_of h' j) = scsi_cmd (cmd_of h j))"
  using assms
proof (induction "q h" arbitrary: h m)
  case Nil
  then show ?case by (subst drain_queue.simps) (simp add: drained_def)
next
  case (Cons c cs)
  have q: "q h = c # cs" using Cons.hyps(2) by simp
  have c: "c \<in> set (in_queue ty h)" using q Cons.prems(2) by simp
  have d: "distinct (allQ h)" using Cons.prems(1) by (simp add: host_inv_defs)
  obtain sc where sc: "scsi_cmd (cmd_of h c) = Some sc"
    using host_inv_linked [OF Cons.prems(1)] unlink_dec_inv(2) [OF Cons.prems(1) c] by blast
  obtain g where g: "drain_step callback c ty (h, m) = (g, complete code sc m)" "host_inv H g"
    "same_host h g" "same_events h g" "reqQ g = remove1 c (reqQ h)" "cmpQ g = remove1 c (cmpQ h)"
    "rspQ g = remove1 c (rspQ h)" "\<And>j. scsi_cmd (cmd_of g j) = scsi_cmd (cmd_of h j)"
    using drain_step_inv [OF Cons.prems(1) c sc, of m] by blast
  have qg: "q g = cs"
    using q Cons.prems(2) g(5,6,7) by (cases ty) (auto simp: in_queue_def)
  have other: "in_queue t g = in_queue t h" if "t \<noteq> ty" for t
  proof -
    have "in_queue t g = remove1 c (in_queue t h)" using g(5,6,7) by (cases t) simp_all
    then show ?thesis using in_queue_disjoint [OF d c that] by (simp add: remove1_idem)
  qed
  from Cons.hyps(1) [of g "complete code sc m"] qg g(2) Cons.prems(2)
  obtain h' where h': "drain_queue q ty callback (g, complete code sc m) =
      Some (h', drained g cs (complete code sc m))" "host_inv H h'" "same_host g h'" "same_events g h'"
    "q h' = []" "\<forall>t. t \<noteq> ty \<longrightarrow> in_queue t h' = in_queue t g"
    "\<forall>j. scsi_cmd (cmd_of h' j) = scsi_cmd (cmd_of g j)"
    by auto
  have "drain_queue q ty callback (h, m) = Some (h', drained h (q h) m)"
    using h'(1) by (subst drain_queue.simps) (simp add: q g(1) sc drained_def g(8))
  then show ?case
    using h' other g(8) same_host_trans [OF g(3) h'(3)] same_events_trans [OF g(4) h'(4)] by auto
qed

text \<open>
  \<open>vsc_each_queue_remove\<close> returns, leaves the queues empty and completes every command that was
  in them once, the request queue first.
\<close>

lemma each_queue_remove:
  assumes inv: "host_inv H h"
  obtains h' m' where "vsc_each_queue_remove callback (h, m) = Some (0, h', m')" "host_inv H h'"
    "same_host h h'" "same_events h h'" "allQ h' = []"
    "done_log m' = done_log m @ map (\<lambda>i. (the (scsi_cmd (cmd_of h i)), code)) (allQ h)"
    "m' = drained h (allQ h) m" "\<And>j. scsi_cmd (cmd_of h' j) = scsi_cmd (cmd_of h j)"
proof -
  obtain h1 where h1: "drain_queue reqQ VSC_LIST_REQQ callback (h, m) = Some (h1, drained h (reqQ h) m)"
    "host_inv H h1" "same_host h h1" "same_events h h1" "reqQ h1 = []"
    "\<forall>t. t \<noteq> VSC_LIST_REQQ \<longrightarrow> in_queue t h1 = in_queue t h"
    "\<forall>j. scsi_cmd (cmd_of h1 j) = scsi_cmd (cmd_of h j)"
    using drain_queue_spec [OF inv, of reqQ VSC_LIST_REQQ m] by auto
  obtain h2 where h2: "drain_queue cmpQ VSC_LIST_COMQ callback (h1, drained h (reqQ h) m) =
      Some (h2, drained h1 (cmpQ h1) (drained h (reqQ h) m))"
    "host_inv H h2" "same_host h1 h2" "same_events h1 h2" "cmpQ h2 = []"
    "\<forall>t. t \<noteq> VSC_LIST_COMQ \<longrightarrow> in_queue t h2 = in_queue t h1"
    "\<forall>j. scsi_cmd (cmd_of h2 j) = scsi_cmd (cmd_of h1 j)"
    using drain_queue_spec [OF h1(2), of cmpQ VSC_LIST_COMQ "drained h (reqQ h) m"] by auto
  let ?m2 = "drained h1 (cmpQ h1) (drained h (reqQ h) m)"
  obtain h3 where h3: "drain_queue rspQ VSC_LIST_RSPQ callback (h2, ?m2) =
      Some (h3, drained h2 (rspQ h2) ?m2)"
    "host_inv H h3" "same_host h2 h3" "same_events h2 h3" "rspQ h3 = []"
    "\<forall>t. t \<noteq> VSC_LIST_RSPQ \<longrightarrow> in_queue t h3 = in_queue t h2"
    "\<forall>j. scsi_cmd (cmd_of h3 j) = scsi_cmd (cmd_of h2 j)"
    using drain_queue_spec [OF h2(2), of rspQ VSC_LIST_RSPQ ?m2] by auto
  have q: "cmpQ h1 = cmpQ h" "rspQ h2 = rspQ h" "reqQ h3 = []" "cmpQ h3 = []"
    using h1(6) [rule_format, of VSC_LIST_COMQ] h1(6) [rule_format, of VSC_LIST_RSPQ]
      h2(6) [rule_format, of VSC_LIST_REQQ] h2(6) [rule_format, of VSC_LIST_RSPQ]
      h3(6) [rule_format, of VSC_LIST_REQQ] h3(6) [rule_format, of VSC_LIST_COMQ] h1(5) h2(5)
    by simp_all
  have "drained h1 = drained h" "drained h2 = drained h"
    using h1(7) h2(7) by (auto intro!: drained_cong)
  then have m: "drained h2 (rspQ h2) ?m2 = drained h (allQ h) m"
    by (simp add: q allQ_def drained_def)
  show ?thesis
  proof (rule that)
    show "vsc_each_queue_remove callback (h, m) = Some (0, h3, drained h (allQ h) m)"
      using h1(1) h2(1) h3(1) by (simp add: vsc_each_queue_remove_def m)
    show "host_inv H h3" by (rule h3(2))
    show "same_host h h3" using h1(3) h2(3) h3(3) by (meson same_host_trans)
    show "same_events h h3" using h1(4) h2(4) h3(4) by (meson same_events_trans)
    show "allQ h3 = []" using q h3(5) by (simp add: allQ_def)
    show "done_log (drained h (allQ h) m) =
        done_log m @ map (\<lambda>i. (the (scsi_cmd (cmd_of h i)), code)) (allQ h)"
      by (rule drained_log)
    show "scsi_cmd (cmd_of h3 j) = scsi_cmd (cmd_of h j)" for j using h1(7) h2(7) h3(7) by simp
  qed simp
qed

lemma drained_fields:
  "shosts (drained h q m) = shosts m" "sdevs (drained h q m) = sdevs m"
  "host_scribble (scmds (drained h q m) x) = host_scribble (scmds m x)"
  "cmnd (scmds (drained h q m) x) = cmnd (scmds m x)"
  by (induction q arbitrary: m) (simp_all add: drained_def)

end

subsection \<open>Emptying several hosts\<close>

text \<open>
  \<open>drains code S A w w'\<close>: the hosts \<open>A\<close> have been emptied, other hosts are untouched, and the
  commands that were in flight there have been completed with \<open>code\<close>, each once.
\<close>

definition drains :: "u32 \<Rightarrow> nat set \<Rightarrow> nat set \<Rightarrow> vsc_world \<Rightarrow> vsc_world \<Rightarrow> bool" where
  "drains code S A w w' \<longleftrightarrow> mgrs w' = mgrs w \<and> g_host_mgr_list w' = g_host_mgr_list w \<and>
     same_cdbs (mid w) (mid w') \<and> (\<forall>b j. scsi_cmd (cmd_of (hosts w' b) j) = scsi_cmd (cmd_of (hosts w b) j)) \<and> shosts (mid w') = shosts (mid w) \<and>
     sdevs (mid w') = sdevs (mid w) \<and>
     (\<forall>b. same_host (hosts w b) (hosts w' b) \<and> same_events (hosts w b) (hosts w' b)) \<and>
     (\<forall>b\<in>A. allQ (hosts w' b) = []) \<and> (\<forall>b. b \<notin> A \<longrightarrow> hosts w' b = hosts w b) \<and>
     (\<exists>L. done_log (mid w') = done_log (mid w) @ L \<and> (\<forall>x\<in>set L. snd x = code) \<and>
        image_mset fst (mset L) + winflight S w' = winflight S w)"

lemma drains_refl [simp]: "drains code S {} w w"
  by (simp add: drains_def)

lemma drains_trans:
  assumes "drains code S A w w1" "drains code S B w1 w2"
  shows "drains code S (A \<union> B) w w2"
proof -
  obtain L M where L: "done_log (mid w1) = done_log (mid w) @ L" "\<forall>x\<in>set L. snd x = code"
      "image_mset fst (mset L) + winflight S w1 = winflight S w"
    and M: "done_log (mid w2) = done_log (mid w1) @ M" "\<forall>x\<in>set M. snd x = code"
      "image_mset fst (mset M) + winflight S w2 = winflight S w1"
    using assms by (auto simp: drains_def)
  have "done_log (mid w2) = done_log (mid w) @ (L @ M)" "\<forall>x\<in>set (L @ M). snd x = code"
    "image_mset fst (mset (L @ M)) + winflight S w2 = winflight S w"
    using L M by (auto simp: union_assoc)
  then have "\<exists>L. done_log (mid w2) = done_log (mid w) @ L \<and> (\<forall>x\<in>set L. snd x = code) \<and>
        image_mset fst (mset L) + winflight S w2 = winflight S w"
    by blast
  moreover have "\<forall>b\<in>A \<union> B. allQ (hosts w2 b) = []"
  proof
    fix b assume "b \<in> A \<union> B"
    then show "allQ (hosts w2 b) = []"
      using assms by (cases "b \<in> B") (auto simp: drains_def)
  qed
  moreover have "same_host (hosts w b) (hosts w2 b) \<and> same_events (hosts w b) (hosts w2 b)" for b
    using assms same_host_trans [of "hosts w b" "hosts w1 b"] same_events_trans [of "hosts w b" "hosts w1 b"]
    by (simp add: drains_def)
  moreover have "mgrs w2 = mgrs w" "shosts (mid w2) = shosts (mid w)" "sdevs (mid w2) = sdevs (mid w)"
    "g_host_mgr_list w2 = g_host_mgr_list w" "\<forall>b. b \<notin> A \<union> B \<longrightarrow> hosts w2 b = hosts w b"
    "\<forall>b j. scsi_cmd (cmd_of (hosts w2 b) j) = scsi_cmd (cmd_of (hosts w b) j)"
    using assms by (simp_all add: drains_def)
  moreover have "same_cdbs (mid w) (mid w2)"
    using assms unfolding drains_def by (meson same_cdbs_trans)
  ultimately show ?thesis unfolding drains_def by blast
qed

lemma drains_completed:
  assumes "drains code S A w w'"
  shows "winflight S w' + completed (mid w') = winflight S w + completed (mid w)"
proof -
  obtain L where L: "done_log (mid w') = done_log (mid w) @ L"
      "image_mset fst (mset L) + winflight S w' = winflight S w"
    using assms by (auto simp: drains_def)
  from L(2) [symmetric] show ?thesis by (simp add: completed_def L(1) ac_simps)
qed

text \<open>\<open>vsc_abort_all_cmd\<close> and \<open>vsc_requeue_all_cmd\<close>, over their callback.\<close>

definition all_cmd ::
  "(nat \<Rightarrow> queue_type \<Rightarrow> drain_state \<Rightarrow> drain_state) \<Rightarrow> nat option \<Rightarrow> vsc_world \<Rightarrow> (int \<times> vsc_world) option"
  where
  "all_cmd callback hp w =
     (case hp of
        None \<Rightarrow> Some (- EINVAL, w)
      | Some a \<Rightarrow>
          do { (r, h, m) \<leftarrow> vsc_each_queue_remove callback (hosts w a, mid w);
               Some (r, (upd_host a h w)\<lparr>mid := m\<rparr>) })"

lemma all_cmd_eq:
  "vsc_abort_all_cmd = all_cmd vsc_abort_cmd_callback"
  "vsc_requeue_all_cmd = all_cmd vsc_requeue_cmd_callback"
  by (simp_all add: fun_eq_iff vsc_abort_all_cmd_def vsc_requeue_all_cmd_def all_cmd_def)

lemma world_inv_step:
  assumes "world_inv S H w" "a \<in> S" "host_inv X h" "silbing_hosts h = silbing_hosts (hosts w a)"
  shows "world_inv S (H(a := X)) (upd_host a h w)"
  using assms by (auto simp: world_inv_def upd_host_def)

lemma world_inv_mid [simp]: "world_inv S H (w\<lparr>mid := m\<rparr>) = world_inv S H w"
  by (simp add: world_inv_def)

lemma winflight_mid [simp]: "winflight S (w\<lparr>mid := m\<rparr>) = winflight S w"
  by (simp add: winflight_def)

context drain_callback
begin

lemma all_cmd_frame:
  assumes "host_inv H (hosts w a)" "all_cmd callback (Some a) w = Some (r, w')"
  shows "same_cdbs (mid w) (mid w')" "mgrs w' = mgrs w" "g_host_mgr_list w' = g_host_mgr_list w"
    "scsi_cmd (cmd_of (hosts w' b) j) = scsi_cmd (cmd_of (hosts w b) j)"
proof -
  obtain h' m' where "vsc_each_queue_remove callback (hosts w a, mid w) = Some (0, h', m')"
    and m': "m' = drained (hosts w a) (allQ (hosts w a)) (mid w)"
      "\<And>j. scsi_cmd (cmd_of h' j) = scsi_cmd (cmd_of (hosts w a) j)"
    using each_queue_remove [OF assms(1), of "mid w"] by metis
  then have w': "w' = (upd_host a h' w)\<lparr>mid := m'\<rparr>" using assms(2) by (simp add: all_cmd_def)
  show "same_cdbs (mid w) (mid w')" "mgrs w' = mgrs w" "g_host_mgr_list w' = g_host_mgr_list w"
    "scsi_cmd (cmd_of (hosts w' b) j) = scsi_cmd (cmd_of (hosts w b) j)"
    using m'(2) by (simp_all add: w' upd_host_def same_cdbs_def m'(1) drained_fields)
qed

lemma all_cmd_spec:
  assumes inv: "world_inv S H w" and a: "a \<in> S"
  obtains w' where "all_cmd callback (Some a) w = Some (0, w')" "world_inv S H w'" "drains code S {a} w w'"
proof -
  have hi: "host_inv (H a) (hosts w a)" and fin: "finite S" using inv a by (auto simp: world_inv_def)
  obtain h' m' where r: "vsc_each_queue_remove callback (hosts w a, mid w) = Some (0, h', m')"
    "host_inv (H a) h'" "same_host (hosts w a) h'" "same_events (hosts w a) h'" "allQ h' = []"
    "done_log m' = done_log (mid w) @ map (\<lambda>i. (the (scsi_cmd (cmd_of (hosts w a) i)), code)) (allQ (hosts w a))"
    "m' = drained (hosts w a) (allQ (hosts w a)) (mid w)" "\<forall>j. scsi_cmd (cmd_of h' j) = scsi_cmd (cmd_of (hosts w a) j)"
    using each_queue_remove [OF hi, of "mid w"] by blast
  let ?w = "(upd_host a h' w)\<lparr>mid := m'\<rparr>"
  show ?thesis
  proof
    show "all_cmd callback (Some a) w = Some (0, ?w)" by (simp add: all_cmd_def r(1))
    have "world_inv S (H(a := H a)) (upd_host a h' w)"
      using r(3) by (intro world_inv_step [OF inv a r(2)]) (simp add: same_host_def)
    then show "world_inv S H ?w" by simp
    have "inflight h' = {#}" by (simp add: inflight_def r(5))
    then have "inflight (hosts w a) + winflight S ?w = winflight S w"
      using winflight_upd_host [OF fin a, of h' w] by (simp add: add.commute)
    moreover have "image_mset fst (mset (map (\<lambda>i. (the (scsi_cmd (cmd_of (hosts w a) i)), code))
        (allQ (hosts w a)))) = inflight (hosts w a)"
      by (simp add: inflight_def image_mset.compositionality comp_def)
    ultimately have "\<exists>L. done_log (mid ?w) = done_log (mid w) @ L \<and> (\<forall>x\<in>set L. snd x = code) \<and>
        image_mset fst (mset L) + winflight S ?w = winflight S w"
      using r(6) by (intro exI [of _ "map (\<lambda>i. (the (scsi_cmd (cmd_of (hosts w a) i)), code))
        (allQ (hosts w a))"]) (auto simp: image_iff)
    then show "drains code S {a} w ?w"
      using r(3,4,5,8) by (simp add: drains_def upd_host_def r(7) drained_fields same_cdbs_def)
  qed
qed

lemma each_sibling_spec:
  assumes "world_inv S H w" "length (host_list (mgrs w mp)) = MAX_HOST_NR_PER_VBS"
    and "\<forall>b. Some b \<in> set (host_list (mgrs w mp)) \<longrightarrow> b \<in> S"
    and "set is \<subseteq> {..<MAX_HOST_NR_PER_VBS}"
  shows "\<exists>w'. each_sibling (all_cmd callback) mp is w = Some w' \<and> world_inv S H w' \<and>
     drains code S {b. \<exists>i\<in>set is. host_list (mgrs w mp) ! i = Some b} w w'"
  using assms
proof (induction "is" arbitrary: w)
  case Nil
  then show ?case by simp
next
  case (Cons i js)
  let ?hp = "host_list (mgrs w mp) ! i"
  have i: "i < length (host_list (mgrs w mp))" using Cons.prems by simp
  obtain w1 r where w1: "all_cmd callback ?hp w = Some (r, w1)" "world_inv S H w1"
    "drains code S (set_option ?hp) w w1"
  proof (cases ?hp)
    case None
    with that [of "- 22" w] Cons.prems(1) show ?thesis by (simp add: all_cmd_def)
  next
    case (Some a)
    then have "a \<in> S" using Cons.prems(3) i by (metis nth_mem)
    with Some show ?thesis using all_cmd_spec [OF Cons.prems(1), of a] that by auto
  qed
  have m: "mgrs w1 = mgrs w" using w1(3) by (simp add: drains_def)
  from Cons.IH [OF w1(2)] Cons.prems m
  obtain w' where w': "each_sibling (all_cmd callback) mp js w1 = Some w'" "world_inv S H w'"
    "drains code S {b. \<exists>i\<in>set js. host_list (mgrs w mp) ! i = Some b} w1 w'"
    by auto
  have "set_option ?hp \<union> {b. \<exists>i\<in>set js. host_list (mgrs w mp) ! i = Some b} =
      {b. \<exists>j\<in>set (i # js). host_list (mgrs w mp) ! j = Some b}"
    by auto
  then show ?case
    using drains_trans [OF w1(3) w'(3)] w' w1(1) i by simp
qed

end

interpretation abort_cb: drain_callback vsc_abort_cmd_callback "push_bit 16 DID_SOFT_ERROR"
  by unfold_locales
    (auto simp: vsc_abort_cmd_callback_def complete_def dec_qdepth_def Let_def split: queue_type.splits)

interpretation requeue_cb: drain_callback vsc_requeue_cmd_callback "push_bit 16 DID_REQUEUE"
  by unfold_locales
    (auto simp: vsc_requeue_cmd_callback_def complete_def dec_qdepth_def Let_def split: queue_type.splits)


lemma all_cmd_null:
  "vsc_abort_all_cmd None w = Some (- EINVAL, w)" "vsc_requeue_all_cmd None w = Some (- EINVAL, w)"
  by (simp_all add: vsc_abort_all_cmd_def vsc_requeue_all_cmd_def)

end
