(* ===== verification/Vsc_ErrorHandlers.thy ===== *)
theory Vsc_ErrorHandlers
  imports Vsc_Recovery
begin

text \<open>
  What the two SCSI error handlers guarantee. A handler owns a reference to the command's
  buffer and two to the event's while it sleeps; at its end both are given back, whatever the
  answer was. An abort that succeeded completes the command once, with \<open>DID_ABORT\<close>; a reset
  empties every host of the vbs and completes every command in flight there once.
\<close>

subsection \<open>Frames of the command operations\<close>

lemma upd_stat_frame [vsc_frame]:
  "same_cmds h (upd_stat f h)" "same_events h (upd_stat f h)" "same_host h (upd_stat f h)"
  "event_pool_ok (upd_stat f h) = event_pool_ok h"
  by (simp_all add: upd_stat_def same_cmds_def same_events_def same_host_def event_pool_ok_def event_used_def)

lemma event_inv_same_events: "same_events h h' \<Longrightarrow> event_inv HE h' = event_inv HE h"
  by (simp add: same_events_def event_inv_defs event_used_def all_eventQ_def)

lemma event_pool_ok_same_events: "same_events h h' \<Longrightarrow> event_pool_ok h' = event_pool_ok h"
  by (simp add: same_events_def event_pool_ok_def event_used_def)

lemma event_of_same_events: "same_events h h' \<Longrightarrow> event_of h' e = event_of h e"
  by (simp add: same_events_def)

lemma cmd_of_same_cmds: "same_cmds h h' \<Longrightarrow> cmd_of h' c = cmd_of h c"
  by (simp add: same_cmds_def)

lemma silbing_same_host: "same_host h h' \<Longrightarrow> silbing_hosts h' = silbing_hosts h"
  by (simp add: same_host_def)

lemma allQ_same_cmds: "same_cmds h h' \<Longrightarrow> allQ h' = allQ h"
  by (simp add: same_cmds_def allQ_def)

lemma reqQ_same_cmds: "same_cmds h h' \<Longrightarrow> reqQ h' = reqQ h"
  by (simp add: same_cmds_def)

lemmas same_simps = allQ_same_cmds reqQ_same_cmds cmd_of_same_cmds silbing_same_host host_inv_same_cmds
  inflight_same_cmds event_inv_same_events

subsection \<open>Before the sleep\<close>

text \<open>\<open>post_event\<close>: the common part of both handlers, from the reference on.\<close>

definition post_event ::
  "event_callback \<Rightarrow> u32 \<Rightarrow> (vsc_ctlr_statics \<Rightarrow> vsc_ctlr_statics) \<Rightarrow> nat \<Rightarrow> nat \<Rightarrow> nat \<Rightarrow> vsc_world \<Rightarrow>
   ((int + eh_frame) \<times> vsc_world) option" where
  "post_event cb ty f sc a c w =
     do { (r, h3) \<leftarrow> vsc_event_alloc (upd_stat f (vsc_cmd_get c (hosts w a)));
          case r of
            None \<Rightarrow> Some (Inl SUCCESS, upd_host a (vsc_cmd_put c h3) w)
          | Some e \<Rightarrow>
              (let data = enc_words (vsc_event_abort_words (eh_event_data sc c h3 (mid w)));
                   (_, h4) = vsc_event_add e cb ty data FAILED h3;
                   h5 = vsc_event_wait_begin e h4
               in Some (Inr (a, c, e), upd_host a h5 w)) }"

lemma eh_begin_eq:
  "vsc_eh_abort_begin sc w = (case host_scribble (scmds (mid w) sc) of
      None \<Rightarrow> Some (Inl FAILED, w)
    | Some (a, c) \<Rightarrow> post_event Abort_event_callback VSC_EVENT_TYPE_ABORT
        (\<lambda>s. s\<lparr>abort_cmd_count := abort_cmd_count s + 1\<rparr>) sc a c w)"
  "vsc_eh_reset_begin sc w = (case host_scribble (scmds (mid w) sc) of
      None \<Rightarrow> Some (Inl FAILED, w)
    | Some (a, c) \<Rightarrow> post_event Reset_dev_event_callback VSC_EVENT_TYPE_RESET_DEV
        (\<lambda>s. s\<lparr>reset_dev_count := reset_dev_count s + 1\<rparr>) sc a c w)"
  by (auto simp: vsc_eh_abort_begin_def vsc_eh_reset_begin_def post_event_def Let_def split: option.split)

text \<open>The page of a posted event: the header, then the data.\<close>

lemma page_bytes_write_same:
  "length bs = n \<Longrightarrow> page_bytes (page_write off bs pg) off n = bs"
  by (auto simp: page_bytes_def page_write_def intro: nth_equalityI)

lemma page_bytes_write_other:
  "off + n \<le> off' \<or> off' + length bs \<le> off \<Longrightarrow> page_bytes (page_write off' bs pg) off n = page_bytes pg off n"
  by (auto simp: page_bytes_def page_write_def)

lemma page_bytes_add: "page_bytes pg off (m + n) = page_bytes pg off m @ page_bytes pg (off + m) n"
  using upt_add_eq_append [of off "off + m" n] by (simp add: page_bytes_def add.assoc flip: map_append)

lemma length_page_bytes [simp]: "length (page_bytes pg off n) = n"
  by (simp add: page_bytes_def)

lemma length_msg_data_words [simp]: "length (vsc_scsi_msg_data_words x) = 2"
  by (simp add: vsc_scsi_msg_data_words_def)

lemma length_event_abort_words [simp]: "length (vsc_event_abort_words x) = 5"
  by (simp add: vsc_event_abort_words_def)

lemma event_add_page:
  assumes "e < length (event_pool_tbl h)" "length data < PAGE_SIZE - 8"
  shows "page_bytes (event_data (event_of (snd (vsc_event_add e cb ty data priv h)) e)) 0 (8 + length data) =
           enc_words (vsc_scsi_msg_data_words \<lparr>md_data_type = ty, md_data_len = of_nat (length data)\<rparr>) @ data"
    and "event_data_len (event_of (snd (vsc_event_add e cb ty data priv h)) e) = 8 + length data"
    and "event_priv (event_of (snd (vsc_event_add e cb ty data priv h)) e) = priv"
    and "event_callback (event_of (snd (vsc_event_add e cb ty data priv h)) e) = Some cb"
    and "event_reqQ (snd (vsc_event_add e cb ty data priv h)) = event_reqQ h @ [e]"
    and "queue_waiters (snd (vsc_event_add e cb ty data priv h)) = 0"
    and "event_sn (event_of (snd (vsc_event_add e cb ty data priv h)) e) = event_sn (event_of h e)"
    and "event_index (event_of (snd (vsc_event_add e cb ty data priv h)) e) = event_index (event_of h e)"
    and "estat (event_of (snd (vsc_event_add e cb ty data priv h)) e) = estat (event_of h e)"
  using assms
  by (simp_all add: vsc_event_add_def Let_def upd_event_def wake_up_queue_def add_eventQ_def PAGE_SIZE_def
      page_bytes_add page_bytes_write_same page_bytes_write_other)

lemma event_wait_begin_fields:
  "event_data (event_of (vsc_event_wait_begin e h) i) = event_data (event_of h i)"
  "event_data_len (event_of (vsc_event_wait_begin e h) i) = event_data_len (event_of h i)"
  "event_priv (event_of (vsc_event_wait_begin e h) i) = event_priv (event_of h i)"
  "event_callback (event_of (vsc_event_wait_begin e h) i) = event_callback (event_of h i)"
  "event_sn (event_of (vsc_event_wait_begin e h) i) = event_sn (event_of h i)"
  "estat (event_of (vsc_event_wait_begin e h) i) = estat (event_of h i)"
  "event_reqQ (vsc_event_wait_begin e h) = event_reqQ h"
  "queue_waiters (vsc_event_wait_begin e h) = queue_waiters h"
  by (cases "i = e"; cases "e < length (event_pool_tbl h)";
      simp add: vsc_event_wait_begin_def vsc_event_get_def upd_event_def Let_def list_update_beyond)+

text \<open>
  The handler gives up with \<open>SUCCESS\<close> when there is no event buffer; otherwise it holds the
  command's and the event's buffer, the event is last in the queue of requests, its page is
  the message for the target, and every sleeping reader has been woken.
\<close>

lemma post_event_spec:
  assumes inv: "world_inv S H w" and a: "a \<in> S" and c: "c \<in> cmd_used (hosts w a)"
    and einv: "event_inv HE (hosts w a)"
  obtains (full) w' where "post_event cb ty f sc a c w = Some (Inl SUCCESS, w')" "world_inv S H w'"
      "event_used (hosts w a) = {..<nr_events (hosts w a)}" "mid w' = mid w" "winflight S w' = winflight S w"
  | (posted) e w' where "post_event cb ty f sc a c w = Some (Inr (a, c, e), w')"
      "world_inv S (H(a := add_mset c (H a))) w'" "mid w' = mid w" "winflight S w' = winflight S w"
      "event_inv (add_mset e (add_mset e HE)) (hosts w' a)"
      "event_reqQ (hosts w' a) = event_reqQ (hosts w a) @ [e]" "queue_waiters (hosts w' a) = 0"
      "event_data_len (event_of (hosts w' a) e) = 28"
      "page_bytes (event_data (event_of (hosts w' a) e)) 0 28 =
         enc_words (vsc_scsi_msg_data_words \<lparr>md_data_type = ty, md_data_len = 20\<rparr>) @
         enc_words (vsc_event_abort_words (eh_event_data sc c (hosts w a) (mid w)))"
      "event_priv (event_of (hosts w' a) e) = FAILED"
      "event_callback (event_of (hosts w' a) e) = Some cb" "mgrs w' = mgrs w"
      "same_cmds (vsc_cmd_get c (hosts w a)) (hosts w' a)"
      "silbing_hosts (hosts w' a) = silbing_hosts (hosts w a)"
proof -
  let ?h1 = "vsc_cmd_get c (hosts w a)"
  let ?h2 = "upd_stat f ?h1"
  have fin: "finite S" and hi: "host_inv (H a) (hosts w a)" using inv a by (auto simp: world_inv_def)
  have h1: "host_inv (add_mset c (H a)) ?h1" using hi c by (rule vsc_cmd_get_inv)
  have h2: "host_inv (add_mset c (H a)) ?h2"
    using h1 host_inv_same_cmds [OF upd_stat_frame(1)] by blast
  have ev2: "same_events (hosts w a) ?h2"
    using cmd_get_frame(2) upd_stat_frame(2) by (rule same_events_trans)
  have e2: "event_inv HE ?h2" using einv event_inv_same_events [OF ev2] by simp
  have s2: "same_host (hosts w a) ?h2"
    using cmd_get_frame(1) upd_stat_frame(3) by (rule same_host_trans)
  have in2: "inflight ?h2 = inflight (hosts w a)"
    using inflight_same_cmds [OF upd_stat_frame(1), of f ?h1]
    by (simp add: inflight_cong [of ?h1 "hosts w a"] vsc_frame)
  have world: "world_inv S (H(a := X)) (upd_host a h w)" "winflight S (upd_host a h w) = winflight S w"
    if "host_inv X h" "same_host ?h2 h" "inflight h = inflight (hosts w a)" for X h
    using silbing_same_host [OF same_host_trans [OF s2 that(2)]] world_inv_step [OF inv a that(1)]
      winflight_upd_host [OF fin a, of h w] that(3) by auto
  from e2 have ok: "event_pool_ok ?h2" by (simp add: event_inv_def)
  then obtain r h3 where alloc: "vsc_event_alloc ?h2 = Some (r, h3)"
    using epool.alloc_returns by blast
  show thesis
  proof (cases r)
    case None
    with alloc have none: "event_used ?h2 = {..<nr_events ?h2}" "h3 = ?h2"
      using epool.alloc_None [OF ok] by auto
    let ?h4 = "vsc_cmd_put c ?h2"
    have "host_inv (H a) ?h4" using h2 by (rule vsc_cmd_put_inv)
    moreover have "inflight ?h4 = inflight (hosts w a)"
      by (simp add: inflight_cong [of ?h4 ?h2] vsc_frame in2)
    ultimately have "world_inv S H (upd_host a ?h4 w)" "winflight S (upd_host a ?h4 w) = winflight S w"
      using world [of "H a" ?h4] by (simp_all add: vsc_frame)
    moreover have "event_used (hosts w a) = {..<nr_events (hosts w a)}"
      using none(1) ev2 by (simp add: event_used_def same_events_def)
    ultimately show thesis
      by (intro full [of "upd_host a ?h4 w"])
        (simp_all add: post_event_def alloc None none(2), simp_all add: upd_host_def)
  next
    case (Some e)
    have alloc': "vsc_event_alloc ?h2 = Some (Some e, h3)" using alloc Some by simp
    note al = vsc_event_alloc_inv [OF e2 alloc']
    have sc3: "same_cmds ?h2 h3" and sh3: "same_host ?h2 h3" 
      by (rule same_cmds_event_alloc [OF alloc], rule same_host_event_alloc [OF alloc])
    have lenT: "e < length (event_pool_tbl h3)" using event_inv_held [OF al(1), of e] by simp
    define data where "data = enc_words (vsc_event_abort_words (eh_event_data sc c h3 (mid w)))"
    define h4 where "h4 = snd (vsc_event_add e cb ty data FAILED h3)"
    define h5 where "h5 = vsc_event_wait_begin e h4"
    have len: "length data = 20" "length data < PAGE_SIZE - 8" by (simp_all add: data_def PAGE_SIZE_def)
    note page = event_add_page [OF lenT len(2), of cb ty 8195, folded h4_def]
    have "e \<notin> set (all_eventQ h3)"
      using al(2,3) e2 by (auto simp: event_inv_def)
    then have e4: "event_inv (add_mset e HE) h4"
      unfolding h4_def using al(1) by (intro vsc_event_add_inv) auto
    then have e5: "event_inv (add_mset e (add_mset e HE)) h5"
      unfolding h5_def by (intro vsc_event_wait_begin_inv) auto
    have sc5: "same_cmds ?h2 h5"
      unfolding h5_def h4_def
      using same_cmds_trans [OF sc3 same_cmds_trans [OF same_cmds_event(8) same_cmds_event(6)]] .
    have sh5: "same_host ?h2 h5"
      unfolding h5_def h4_def
      using same_host_trans [OF sh3 same_host_trans [OF same_host_event(8) same_host_event(6)]] .
    have data: "eh_event_data sc c h3 (mid w) = eh_event_data sc c (hosts w a) (mid w)"
    proof -
      have "cmd_sn (cmd_of h3 c) = cmd_sn (cmd_of (hosts w a) c)"
        using sc3 by (simp add: cmd_of_same_cmds upd_stat_def vsc_frame)
      moreover have "same_host (hosts w a) h3" using s2 sh3 by (rule same_host_trans)
      ultimately show ?thesis
        by (simp add: eh_event_data_def Let_def vsc_ctrl_get_host_no_def same_host_def split: option.split)
    qed
    have "event_reqQ h3 = event_reqQ ?h2"
      using vsc_event_alloc_shape [OF alloc] by (elim exE) simp
    then have q3: "event_reqQ h3 = event_reqQ (hosts w a)"
      using ev2 by (simp add: same_events_def)
    have "host_inv (add_mset c (H a)) h5" "inflight h5 = inflight (hosts w a)"
      using h2 in2 host_inv_same_cmds [OF sc5] inflight_same_cmds [OF sc5] by simp_all
    from world [OF this(1) sh5 this(2)]
    show thesis
    proof (intro posted [of e "upd_host a h5 w"])
      show "post_event cb ty f sc a c w = Some (Inr (a, c, e), upd_host a h5 w)"
        by (simp add: post_event_def alloc' Let_def h5_def h4_def data_def split_beta)
      show "page_bytes (event_data (event_of (hosts (upd_host a h5 w) a) e)) 0 28 =
         enc_words (vsc_scsi_msg_data_words \<lparr>md_data_type = ty, md_data_len = 20\<rparr>) @
         enc_words (vsc_event_abort_words (eh_event_data sc c (hosts w a) (mid w)))"
        using page(1) len(1) by (simp add: upd_host_def h5_def event_wait_begin_fields data_def data)
      show "same_cmds (vsc_cmd_get c (hosts w a)) (hosts (upd_host a h5 w) a)"
        using same_cmds_trans [OF upd_stat_frame(1) sc5] by (simp add: upd_host_def)
      show "silbing_hosts (hosts (upd_host a h5 w) a) = silbing_hosts (hosts w a)"
        using silbing_same_host [OF same_host_trans [OF s2 sh5]] by (simp add: upd_host_def)
    qed (use page len(1) e5 q3 in \<open>simp_all add: upd_host_def h5_def event_wait_begin_fields\<close>)
  qed
qed

subsection \<open>After the sleep\<close>

text \<open>\<open>finish c sc\<close>: what an abort that succeeded does to a command that is still queued.\<close>

lemma abort_finish:
  assumes inv: "host_inv (add_mset c H) h" and c: "c \<in> set (allQ h)" "c \<notin> set (reqQ h)"
    and sc: "scsi_cmd (cmd_of h c) = Some sc"
  shows "host_inv (add_mset c H) (vsc_cmd_put c (unlink c h))"
    "add_mset sc (inflight (vsc_cmd_put c (unlink c h))) = inflight h"
    "same_host h (vsc_cmd_put c (unlink c h))" "same_events h (vsc_cmd_put c (unlink c h))"
    "c \<notin> set (allQ (vsc_cmd_put c (unlink c h)))"
proof -
  have d: "distinct (allQ h)" using inv by (simp add: host_inv_defs)
  show "host_inv (add_mset c H) (vsc_cmd_put c (unlink c h))"
    using unlink_inv [OF inv c] by (rule vsc_cmd_put_inv)
  have "inflight (vsc_cmd_put c (unlink c h)) = inflight (unlink c h)"
    by (rule inflight_cong) (simp_all add: vsc_frame)
  then show "add_mset sc (inflight (vsc_cmd_put c (unlink c h))) = inflight h"
    using inflight_unlink [OF d c(1) sc] by simp
  show "same_host h (vsc_cmd_put c (unlink c h))"
    using unlink_frame(1) cmd_put_frame(1) by (rule same_host_trans)
  show "same_events h (vsc_cmd_put c (unlink c h))"
    using unlink_frame(2) cmd_put_frame(2) by (rule same_events_trans)
  show "c \<notin> set (allQ (vsc_cmd_put c (unlink c h)))"
    using d by (simp add: vsc_frame allQ_unlink set_remove1_eq)
qed

lemma winflight_finish:
  assumes "finite S" "a \<in> S" "add_mset sc (inflight h) = inflight (hosts w a)"
  shows "winflight S w = add_mset sc (winflight S (upd_host a h w))"
proof -
  have "winflight S (upd_host a h w) + add_mset sc (inflight h) = winflight S w + inflight h"
    using winflight_upd_host [OF assms(1,2), of h w] assms(3) by simp
  then have "add_mset sc (winflight S (upd_host a h w)) + inflight h = winflight S w + inflight h"
    by simp
  then show ?thesis using add_right_cancel by metis
qed

lemma eh_abort_end_eq:
  "vsc_eh_abort_end sc (a, c, e) retval w =
     do { (_, h1) \<leftarrow> vsc_event_wait_end e retval (hosts w a);
          let finish = (event_priv (event_of h1 e) = SUCCESS \<and> c \<in> set (allQ h1));
          let h2 = (if finish then vsc_cmd_put c (unlink c h1) else h1);
          let m2 = (if finish then complete (push_bit 16 DID_ABORT) sc (mid w) else mid w);
          Some (event_priv (event_of h1 e),
                (upd_host a (vsc_cmd_put c (vsc_event_del e h2)) w)\<lparr>mid := m2\<rparr>) }"
  by (cases "vsc_event_wait_end e retval (hosts w a)")
    (auto simp: vsc_eh_abort_end_def unlink_def complete_def cmd_unlinked_def Let_def)

text \<open>
  The end of an abort: the result is the event's, the handler's references are given back,
  and a command that was still queued is completed once with \<open>DID_ABORT\<close> exactly when the
  target reported success.
\<close>

lemma eh_abort_end_spec:
  assumes inv: "world_inv S (H(a := add_mset c (H a))) w" and a: "a \<in> S"
    and einv: "event_inv (add_mset e (add_mset e HE)) (hosts w a)"
    and c: "c \<notin> set (reqQ (hosts w a))" "c \<in> set (allQ (hosts w a)) \<Longrightarrow> scsi_cmd (cmd_of (hosts w a) c) = Some sc"
    and run: "vsc_eh_abort_end sc (a, c, e) retval w = Some (r, w')"
  shows "world_inv S H w'" "event_inv HE (hosts w' a)"
    "if r = SUCCESS \<and> c \<in> set (allQ (hosts w a))
     then done_log (mid w') = done_log (mid w) @ [(sc, push_bit 16 DID_ABORT)] \<and>
          winflight S w = add_mset sc (winflight S w') \<and> c \<notin> set (allQ (hosts w' a))
     else done_log (mid w') = done_log (mid w) \<and> winflight S w' = winflight S w"
proof -
  have fin: "finite S" and hi: "host_inv (add_mset c (H a)) (hosts w a)"
    using inv a by (auto simp: world_inv_def)
  obtain h1 where h1: "vsc_event_wait_end e retval (hosts w a) = Some (retval, h1)"
    using vsc_event_wait_end_total by blast
  note f1 = vsc_event_wait_end_same_host [OF h1]
  let ?fin = "event_priv (event_of h1 e) = SUCCESS \<and> c \<in> set (allQ h1)"
  define h2 where "h2 = (if ?fin then vsc_cmd_put c (unlink c h1) else h1)"
  let ?m = "if ?fin then complete (push_bit 16 DID_ABORT) sc (mid w) else mid w"
  let ?h3 = "vsc_event_del e h2"
  have r: "r = event_priv (event_of h1 e)" and w': "w' = (upd_host a (vsc_cmd_put c ?h3) w)\<lparr>mid := ?m\<rparr>"
    using run unfolding eh_abort_end_eq h1 bind.bind_lunit Let_def prod.case h2_def option.inject prod.inject
    by (elim conjE, hypsubst, intro refl)+
  have q: "allQ h1 = allQ (hosts w a)" "c \<notin> set (reqQ h1)"
    using f1(2) c(1) by (simp_all add: allQ_same_cmds reqQ_same_cmds)
  have hi1: "host_inv (add_mset c (H a)) h1" using hi f1(2) by (simp add: host_inv_same_cmds)
  have sc: "scsi_cmd (cmd_of h1 c) = Some sc" if "c \<in> set (allQ h1)"
    using c(2) that q f1(2) by (simp add: cmd_of_same_cmds)
  have s2: "host_inv (add_mset c (H a)) h2" "same_host h1 h2" "same_events h1 h2"
    "inflight h1 = (if ?fin then add_mset sc else id) (inflight h2)" "?fin \<Longrightarrow> c \<notin> set (allQ h2)"
    using abort_finish [OF hi1 _ q(2)] sc hi1 by (auto simp: h2_def)
  have e1: "event_inv (add_mset e HE) h1"
    using vsc_event_wait_end_inv [OF _ _ h1, of HE] vsc_event_wait_end_inv [OF einv _ h1] by simp
  have e2: "event_inv (add_mset e HE) h2" using e1 s2(3) by (simp add: event_inv_same_events)
  have e3: "event_inv HE ?h3" using e2 by (rule vsc_event_del_inv)
  have h3: "host_inv (add_mset c (H a)) ?h3" "inflight ?h3 = inflight h2" "allQ ?h3 = allQ h2"
    using s2(1) same_cmds_event(4) [of h2 e]
    by (simp_all add: host_inv_same_cmds inflight_same_cmds allQ_same_cmds)
  let ?h4 = "vsc_cmd_put c ?h3"
  have h4: "host_inv (H a) ?h4" using h3(1) by (rule vsc_cmd_put_inv)
  have same: "same_host (hosts w a) ?h4"
    using f1(1) s2(2) by (meson same_host_trans same_host_event(4) cmd_put_frame(1))
  have "world_inv S ((H(a := add_mset c (H a)))(a := H a)) (upd_host a ?h4 w)"
    by (rule world_inv_step [OF inv a h4 silbing_same_host [OF same]])
  then show "world_inv S H w'" by (simp add: w')
  show "event_inv HE (hosts w' a)"
    using e3 event_inv_same_events [OF cmd_put_frame(2)] by (simp add: w' upd_host_def)
  have "inflight ?h4 = inflight h2" "allQ ?h4 = allQ h2"
    using h3 by (simp_all add: inflight_cong [of ?h4 ?h3] vsc_frame)
  moreover have "inflight h1 = inflight (hosts w a)" using f1(2) by (rule inflight_same_cmds)
  ultimately have wf: "winflight S w = (if ?fin then add_mset sc else id) (winflight S (upd_host a ?h4 w))"
    and nq: "?fin \<Longrightarrow> c \<notin> set (allQ ?h4)"
    using winflight_upd_host [OF fin a, of ?h4 w] winflight_finish [OF fin a, of sc ?h4 w] s2(4,5)
    by (auto split: if_splits)
  show "if r = SUCCESS \<and> c \<in> set (allQ (hosts w a))
     then done_log (mid w') = done_log (mid w) @ [(sc, push_bit 16 DID_ABORT)] \<and>
          winflight S w = add_mset sc (winflight S w') \<and> c \<notin> set (allQ (hosts w' a))
     else done_log (mid w') = done_log (mid w) \<and> winflight S w' = winflight S w"
    using wf nq by (auto simp: w' r q upd_host_def)
qed

text \<open>
  The end of a device reset: whatever the target answered, all the hosts of the vbs are
  emptied and every command that was in flight there is completed exactly once, with
  \<open>DID_REQUEUE\<close> when the target reported success and \<open>DID_SOFT_ERROR\<close> otherwise.
\<close>

definition vbs_hosts :: "vsc_host_mgr \<Rightarrow> nat set" where
  "vbs_hosts m = {b. \<exists>i<unat (host_count m). host_list m ! i = Some b}"

lemma eh_reset_end_world:
  assumes inv: "world_inv S (H(a := add_mset c (H a))) w" and a: "a \<in> S"
    and mp: "silbing_hosts (hosts w a) = Some mp" "unat (host_count (mgrs w mp)) \<le> MAX_HOST_NR_PER_VBS"
  obtains r w' L where "vsc_eh_reset_end sc (a, c, e) retval w = Some (r, w')" "world_inv S H w'"
    "\<forall>b\<in>vbs_hosts (mgrs w mp). allQ (hosts w' b) = []" "done_log (mid w') = done_log (mid w) @ L"
    "image_mset fst (mset L) + winflight S w' = winflight S w"
    "\<forall>x\<in>set L. snd x = push_bit 16 (if r = SUCCESS then DID_REQUEUE else DID_SOFT_ERROR)"
    "mgrs w' = mgrs w" "g_host_mgr_list w' = g_host_mgr_list w" "same_cdbs (mid w) (mid w')"
    "\<forall>b. same_host (hosts w b) (hosts w' b)" "\<forall>b j. scsi_cmd (cmd_of (hosts w' b) j) = scsi_cmd (cmd_of (hosts w b) j)"
    "\<forall>b. b \<noteq> a \<longrightarrow> same_events (hosts w b) (hosts w' b)"
    "\<forall>b. b \<noteq> a \<and> b \<notin> vbs_hosts (mgrs w mp) \<longrightarrow> hosts w' b = hosts w b"
    "a \<notin> vbs_hosts (mgrs w mp) \<Longrightarrow> reqQ (hosts w' a) = reqQ (hosts w a) \<and> allQ (hosts w' a) = allQ (hosts w a) \<and>
       (phases_ok (hosts w a) \<longrightarrow> phases_ok (hosts w' a))"
    "event_inv {#e, e#} (hosts w a) \<Longrightarrow> event_inv {#} (hosts w' a)"
proof -
  let ?H = "H(a := add_mset c (H a))"
  have fin: "finite S" and hi: "host_inv (add_mset c (H a)) (hosts w a)"
    using inv a by (auto simp: world_inv_def)
  obtain h1 where h1: "vsc_event_wait_end e retval (hosts w a) = Some (retval, h1)"
    using vsc_event_wait_end_total by blast
  note f1 = vsc_event_wait_end_same_host [OF h1]
  let ?w1 = "upd_host a h1 w" and ?r = "event_priv (event_of h1 e)"
  let ?code = "push_bit 16 (if ?r = SUCCESS then DID_REQUEUE else DID_SOFT_ERROR) :: u32"
  let ?f = "if SUCCESS = ?r then vsc_requeue_all_cmd else vsc_abort_all_cmd"
  let ?is = "[0..<unat (host_count (mgrs ?w1 mp))]"
  have hi1: "host_inv (?H a) h1" using hi f1(2) by (simp add: host_inv_same_cmds)
  have w1: "world_inv S ?H ?w1"
    using world_inv_step [OF inv a hi1 silbing_same_host [OF f1(1)]] by simp
  have wf1: "winflight S ?w1 = winflight S w"
    using winflight_upd_host [OF fin a, of h1 w] f1(2) by (simp add: inflight_same_cmds)
  have m: "mgrs ?w1 = mgrs w" "mid ?w1 = mid w" "g_host_mgr_list ?w1 = g_host_mgr_list w" by (simp_all add: upd_host_def)
  have hl: "length (host_list (mgrs ?w1 mp)) = MAX_HOST_NR_PER_VBS"
    "\<forall>b. Some b \<in> set (host_list (mgrs ?w1 mp)) \<longrightarrow> b \<in> S"
    using inv a mp by (auto simp: world_inv_def m)
  have "set ?is \<subseteq> {..<MAX_HOST_NR_PER_VBS}" using mp(2) by (auto simp: m)
  from abort_cb.each_sibling_spec [OF w1 hl this] requeue_cb.each_sibling_spec [OF w1 hl this]
  obtain w2 where w2: "each_sibling ?f mp ?is ?w1 = Some w2" "world_inv S ?H w2"
    "drains ?code S {b. \<exists>i\<in>set ?is. host_list (mgrs ?w1 mp) ! i = Some b} ?w1 w2"
    by (cases "SUCCESS = ?r") (auto simp: all_cmd_eq)
  have vb: "{b. \<exists>i\<in>set ?is. host_list (mgrs ?w1 mp) ! i = Some b} = vbs_hosts (mgrs w mp)"
    by (auto simp: vbs_hosts_def m)
  define h5 where "h5 = snd (vsc_abort_all_event (vsc_cmd_put c (vsc_event_del e (hosts w2 a))))"
  have run: "vsc_eh_reset_end sc (a, c, e) retval w = Some (?r, upd_host a h5 w2)"
    using h1 w2(1) mp(1) silbing_same_host [OF f1(1)]
    by (simp add: vsc_eh_reset_end_def Let_def h5_def split_beta)
  have h2: "host_inv (add_mset c (H a)) (vsc_event_del e (hosts w2 a))"
    using w2(2) a unfolding world_inv_def host_inv_same_cmds [OF same_cmds_event(4)] by fastforce
  then have h5: "host_inv (H a) h5"
    unfolding h5_def by (simp add: host_inv_same_cmds [OF same_cmds_abort_all_event] vsc_cmd_put_inv)
  have same5: "same_host (hosts w2 a) h5"
    unfolding h5_def by (meson same_host_trans same_host_event(4) cmd_put_frame(1) same_host_abort_all_event)
  have q5: "allQ h5 = allQ (hosts w2 a)"
    unfolding h5_def
    by (simp add: allQ_same_cmds [OF same_cmds_abort_all_event] cmd_put_frame(6) allQ_same_cmds [OF same_cmds_event(4)])
  have sc5: "scsi_cmd (cmd_of h5 j) = scsi_cmd (cmd_of (hosts w2 a) j)"
    "cstat (cmd_of h5 j) = cstat (cmd_of (hosts w2 a) j)" for j
    unfolding h5_def
    by (simp_all add: cmd_of_same_cmds [OF same_cmds_abort_all_event] cmd_put_frame(7,8)
        cmd_of_same_cmds [OF same_cmds_event(4)])
  have qs5: "reqQ h5 = reqQ (hosts w2 a)" "cmpQ h5 = cmpQ (hosts w2 a)" "rspQ h5 = rspQ (hosts w2 a)"
    using same_cmds_abort_all_event same_cmds_event(4) unfolding h5_def by (simp_all add: same_cmds_def cmd_put_frame)
  from sc5(1) have in5: "inflight h5 = inflight (hosts w2 a)" by (intro inflight_cong q5)
  have inv5: "world_inv S (?H(a := H a)) (upd_host a h5 w2)"
    by (rule world_inv_step [OF w2(2) a h5 silbing_same_host [OF same5]])
  have wf5: "winflight S (upd_host a h5 w2) = winflight S w2"
    using winflight_upd_host [OF fin a, of h5 w2] in5 by simp
  obtain L where L: "done_log (mid w2) = done_log (mid w) @ L" "\<forall>x\<in>set L. snd x = ?code"
      "image_mset fst (mset L) + winflight S w2 = winflight S w"
    using w2(3) by (auto simp: drains_def wf1 m)
  have dr: "mgrs w2 = mgrs w" "g_host_mgr_list w2 = g_host_mgr_list w" "same_cdbs (mid w) (mid w2)"
    "\<forall>b. same_host (hosts ?w1 b) (hosts w2 b) \<and> same_events (hosts ?w1 b) (hosts w2 b)"
    "\<forall>b j. scsi_cmd (cmd_of (hosts w2 b) j) = scsi_cmd (cmd_of (hosts ?w1 b) j)"
    "\<forall>b\<in>vbs_hosts (mgrs w mp). allQ (hosts w2 b) = []" "\<forall>b. b \<notin> vbs_hosts (mgrs w mp) \<longrightarrow> hosts w2 b = hosts ?w1 b"
    using w2(3) unfolding vb by (simp_all add: drains_def m)
  have u [simp]: "hosts (upd_host a h5 w2) = (hosts w2)(a := h5)" "hosts ?w1 = (hosts w)(a := h1)"
    "mgrs (upd_host a h5 w2) = mgrs w2" "g_host_mgr_list (upd_host a h5 w2) = g_host_mgr_list w2"
    "mid (upd_host a h5 w2) = mid w2"
    by (simp_all add: upd_host_def)
  show ?thesis
  proof (rule that [OF run])
    show "world_inv S H (upd_host a h5 w2)" using inv5 by simp
    show "\<forall>b\<in>vbs_hosts (mgrs w mp). allQ (hosts (upd_host a h5 w2) b) = []" using dr(6) q5 by simp
    show "image_mset fst (mset L) + winflight S (upd_host a h5 w2) = winflight S w" using L(3) wf5 by simp
    have sh: "same_host (hosts w a) h5"
      using f1(1) dr(4) [rule_format, of a] same5 by simp (meson same_host_trans)
    show "\<forall>b. same_host (hosts w b) (hosts (upd_host a h5 w2) b)"
    proof
      fix b
      show "same_host (hosts w b) (hosts (upd_host a h5 w2) b)"
        using sh dr(4) [rule_format, of b] by (cases "b = a") simp_all
    qed
    show "\<forall>b j. scsi_cmd (cmd_of (hosts (upd_host a h5 w2) b) j) = scsi_cmd (cmd_of (hosts w b) j)"
      using dr(5) sc5 cmd_of_same_cmds [OF f1(2)] by simp
    show "\<forall>b. b \<noteq> a \<longrightarrow> same_events (hosts w b) (hosts (upd_host a h5 w2) b)"
    proof (intro allI impI)
      fix b
      assume "b \<noteq> a"
      then show "same_events (hosts w b) (hosts (upd_host a h5 w2) b)" using dr(4) [rule_format, of b] by simp
    qed
    show "\<forall>b. b \<noteq> a \<and> b \<notin> vbs_hosts (mgrs w mp) \<longrightarrow> hosts (upd_host a h5 w2) b = hosts w b"
      using dr(7) by simp
    show "reqQ (hosts (upd_host a h5 w2) a) = reqQ (hosts w a) \<and> allQ (hosts (upd_host a h5 w2) a) = allQ (hosts w a) \<and>
       (phases_ok (hosts w a) \<longrightarrow> phases_ok (hosts (upd_host a h5 w2) a))" if "a \<notin> vbs_hosts (mgrs w mp)"
      using that dr(7) f1(2) qs5 q5 sc5 by (simp add: same_cmds_def allQ_def phases_ok_def)
    show "event_inv {#} (hosts (upd_host a h5 w2) a)" if ev: "event_inv {#e, e#} (hosts w a)"
    proof -
      have "event_inv {#e#} h1" using vsc_event_wait_end_inv(1) [OF _ _ h1, of "{#e#}"] ev by simp
      then have "event_inv {#e#} (hosts w2 a)" using dr(4) [rule_format, of a] event_inv_same_events [of h1 "hosts w2 a"] by simp
      then have "event_inv {#} (vsc_event_del e (hosts w2 a))" by (intro vsc_event_del_inv) simp
      then have ev3: "event_inv {#} (vsc_cmd_put c (vsc_event_del e (hosts w2 a)))"
        by (simp add: event_inv_same_events [OF cmd_put_frame(2)])
      then have "mset (all_eventQ (vsc_cmd_put c (vsc_event_del e (hosts w2 a)))) = {#}"
        by (simp add: event_inv_def)
      then have "event_inv {#} h5" using abort_all_event_inv(1) [of _ "{#}"] ev3 unfolding h5_def by simp
      then show ?thesis by simp
    qed
  qed (use dr L in \<open>simp_all add: m\<close>)
qed

lemma eh_reset_end_spec:
  assumes inv: "world_inv S (H(a := add_mset c (H a))) w" and a: "a \<in> S"
    and mp: "silbing_hosts (hosts w a) = Some mp" "unat (host_count (mgrs w mp)) \<le> MAX_HOST_NR_PER_VBS"
  shows "\<exists>r w' L. vsc_eh_reset_end sc (a, c, e) retval w = Some (r, w') \<and> world_inv S H w' \<and>
     (\<forall>b\<in>vbs_hosts (mgrs w mp). allQ (hosts w' b) = []) \<and>
     done_log (mid w') = done_log (mid w) @ L \<and>
     image_mset fst (mset L) + winflight S w' = winflight S w \<and>
     (\<forall>x\<in>set L. snd x = push_bit 16 (if r = SUCCESS then DID_REQUEUE else DID_SOFT_ERROR))"
  by (rule eh_reset_end_world [OF assms, of sc e retval]) blast

subsection \<open>Properties\<close>

text \<open>
  (C6) Emptying a host: \<open>vsc_each_queue_remove\<close> with either callback returns, leaves the three
  queues empty and the invariant intact, and completes every queued command exactly once, the
  request queue first and each queue in order, with the callback's result.
\<close>

theorem each_queue_remove_completes:
  assumes "host_inv H h"
    and "(callback, code) = (vsc_abort_cmd_callback, push_bit 16 DID_SOFT_ERROR) \<or>
         (callback, code) = (vsc_requeue_cmd_callback, push_bit 16 DID_REQUEUE)"
  shows "\<exists>h' m'. vsc_each_queue_remove callback (h, m) = Some (0, h', m') \<and> host_inv H h' \<and>
     allQ h' = [] \<and>
     done_log m' = done_log m @ map (\<lambda>i. (the (scsi_cmd (cmd_of h i)), code)) (reqQ h @ cmpQ h @ rspQ h)"
  using assms(2)
proof (elim disjE)
  assume "(callback, code) = (vsc_abort_cmd_callback, push_bit 16 DID_SOFT_ERROR)"
  then show ?thesis
    using abort_cb.each_queue_remove [OF assms(1), of m] unfolding allQ_def prod.inject by metis
next
  assume "(callback, code) = (vsc_requeue_cmd_callback, push_bit 16 DID_REQUEUE)"
  then show ?thesis
    using requeue_cb.each_queue_remove [OF assms(1), of m] unfolding allQ_def prod.inject by metis
qed

lemma each_queue_remove_completes_witness:
  "\<exists>w' h' m'. vsc_scsi_queue_command 5 example_world = Some (0, w') \<and>
     vsc_each_queue_remove vsc_abort_cmd_callback (hosts w' 0, mid w') = Some (0, h', m') \<and>
     allQ h' = [] \<and> done_log m' = [(5, push_bit 16 DID_SOFT_ERROR)]"
proof -
  obtain w' where w': "vsc_scsi_queue_command 5 example_world = Some (0, w')"
    "allQ (hosts w' 0) = [0]" "inflight (hosts w' 0) = {#5#}" "world_inv {0} (\<lambda>_. {#}) w'"
    "done_log (mid w') = []"
    by (rule example_queued)
  then have "host_inv {#} (hosts w' 0)" "the (scsi_cmd (cmd_of (hosts w' 0) 0)) = 5"
    by (simp_all add: world_inv_def inflight_def)
  moreover have "reqQ (hosts w' 0) @ cmpQ (hosts w' 0) @ rspQ (hosts w' 0) = [0]"
    using w'(2) by (simp add: allQ_def)
  ultimately obtain h' m' where
    "vsc_each_queue_remove vsc_abort_cmd_callback (hosts w' 0, mid w') = Some (0, h', m')"
    "allQ h' = []" "done_log m' = [(5, push_bit 16 DID_SOFT_ERROR)]"
    using each_queue_remove_completes [of "{#}" "hosts w' 0" vsc_abort_cmd_callback
        "push_bit 16 DID_SOFT_ERROR" "mid w'"] w'(5) by auto
  with w'(1) show ?thesis by blast
qed

text \<open>
  (C18) An error handler posts one event: when an event buffer is free, the event is last in
  the host's request queue, its page is the encoded message naming the command's serial number
  and the device's address, and all sleeping readers are woken; the handler then holds the
  command's buffer. When none is free nothing is queued and no reference is kept.
\<close>

theorem eh_posts_event:
  assumes "world_inv S H w" "a \<in> S" "c \<in> cmd_used (hosts w a)" "event_inv HE (hosts w a)"
    and scr: "host_scribble (scmds (mid w) sc) = Some (a, c)"
    and run: "(begin, ty) = (vsc_eh_abort_begin, VSC_EVENT_TYPE_ABORT) \<or>
              (begin, ty) = (vsc_eh_reset_begin, VSC_EVENT_TYPE_RESET_DEV)"
  shows "\<exists>r w'. begin sc w = Some (r, w') \<and> mid w' = mid w \<and> winflight S w' = winflight S w \<and>
     (case r of
        Inl v \<Rightarrow> v = SUCCESS \<and> world_inv S H w' \<and> event_used (hosts w a) = {..<nr_events (hosts w a)}
      | Inr (a', c', e) \<Rightarrow> a' = a \<and> c' = c \<and> world_inv S (H(a := add_mset c (H a))) w' \<and>
          event_inv (add_mset e (add_mset e HE)) (hosts w' a) \<and>
          event_reqQ (hosts w' a) = event_reqQ (hosts w a) @ [e] \<and> queue_waiters (hosts w' a) = 0 \<and>
          page_bytes (event_data (event_of (hosts w' a) e)) 0 (event_data_len (event_of (hosts w' a) e)) =
            enc_words (vsc_scsi_msg_data_words \<lparr>md_data_type = ty, md_data_len = 20\<rparr>) @
            enc_words (vsc_event_abort_words (eh_event_data sc c (hosts w a) (mid w))))"
proof -
  have "\<exists>cb f. begin sc w = post_event cb ty f sc a c w"
    using run by (elim disjE) (simp_all add: eh_begin_eq scr, blast+)
  then obtain cb f where b: "begin sc w = post_event cb ty f sc a c w" by blast
  show ?thesis
    by (rule post_event_spec [OF assms(1-4), of cb ty f sc]) (simp_all add: b)
qed

lemma example_event_inv:
  assumes "event_half h = event_half example_host"
  shows "event_inv {#} h"
proof -
  have h: "nr_events h = 2" "event_pool_tbl h = [example_event, example_event]" "event_pool_bits h = [0]"
    "event_reqQ h = []" "event_rspQ h = []"
    using assms by (simp_all add: event_half_def example_host_def zero_ctrl_def)
  then show ?thesis by (simp add: event_inv_defs event_used_def all_eventQ_def)
qed

lemma eh_posts_event_witness:
  "\<exists>w r w'. vsc_scsi_queue_command 5 example_world = Some (0, w) \<and>
     vsc_eh_abort_begin 5 w = Some (r, w') \<and> mid w' = mid w"
proof -
  obtain w where w: "vsc_scsi_queue_command 5 example_world = Some (0, w)" "allQ (hosts w 0) = [0]"
    "host_scribble (scmds (mid w) 5) = Some (0, 0)" "world_inv {0} (\<lambda>_. {#}) w"
    "event_half (hosts w 0) = event_half example_host"
    by (rule example_queued)
  have "0 \<in> cmd_used (hosts w 0)"
    using host_inv_linked [of "{#}" "hosts w 0" 0] w by (simp add: world_inv_def)
  from eh_posts_event [OF w(4) _ this example_event_inv [OF w(5)] w(3), of vsc_eh_abort_begin
      VSC_EVENT_TYPE_ABORT]
  obtain r w' where "vsc_eh_abort_begin 5 w = Some (r, w')" "mid w' = mid w" by blast
  with w(1) show ?thesis by blast
qed

lemma example_posted:
  obtains w e w1 where "vsc_scsi_queue_command 5 example_world = Some (0, w)"
    "vsc_eh_reset_begin 5 w = Some (Inr (0, 0, e), w1)" "world_inv {0} ((\<lambda>_. {#})(0 := {#0#})) w1"
    "event_inv {#e, e#} (hosts w1 0)" "silbing_hosts (hosts w1 0) = Some 0" "mgrs w1 = mgrs example_world"
    "winflight {0} w1 = {#5#}" "done_log (mid w1) = []" "same_cmds (vsc_cmd_get 0 (hosts w 0)) (hosts w1 0)"
    "event_reqQ (hosts w1 0) = [e]" "event_data_len (event_of (hosts w1 0) e) = 28"
proof -
  obtain w where w: "vsc_scsi_queue_command 5 example_world = Some (0, w)" "allQ (hosts w 0) = [0]"
    "host_scribble (scmds (mid w) 5) = Some (0, 0)" "world_inv {0} (\<lambda>_. {#}) w"
    "event_half (hosts w 0) = event_half example_host" "silbing_hosts (hosts w 0) = Some 0"
    "mgrs w = mgrs example_world" "inflight (hosts w 0) = {#5#}" "done_log (mid w) = []"
    by (rule example_queued)
  have used: "0 \<in> cmd_used (hosts w 0)"
    using host_inv_linked [of "{#}" "hosts w 0" 0] w by (simp add: world_inv_def)
  note einv = example_event_inv [OF w(5)]
  have room: "event_used (hosts w 0) \<noteq> {..<nr_events (hosts w 0)}"
    using w(5) by (simp add: event_half_def event_used_def lessThan_nat_numeral lessThan_Suc)
      (simp add: example_host_def zero_ctrl_def)
  show thesis
  proof (rule post_event_spec [OF w(4) _ used einv, of Reset_dev_event_callback VSC_EVENT_TYPE_RESET_DEV
        "\<lambda>s. s\<lparr>reset_dev_count := reset_dev_count s + 1\<rparr>" 5])
    fix e w1
    assume p: "post_event Reset_dev_event_callback VSC_EVENT_TYPE_RESET_DEV
        (\<lambda>s. s\<lparr>reset_dev_count := reset_dev_count s + 1\<rparr>) 5 0 0 w = Some (Inr (0, 0, e), w1)"
      and p1: "world_inv {0} ((\<lambda>_. {#})(0 := add_mset 0 {#})) w1" "mid w1 = mid w"
      "winflight {0} w1 = winflight {0} w" "event_inv (add_mset e (add_mset e {#})) (hosts w1 0)" "mgrs w1 = mgrs w"
      "same_cmds (vsc_cmd_get 0 (hosts w 0)) (hosts w1 0)"
      "silbing_hosts (hosts w1 0) = silbing_hosts (hosts w 0)"
      "event_reqQ (hosts w1 0) = event_reqQ (hosts w 0) @ [e]" "event_data_len (event_of (hosts w1 0) e) = 28"
    moreover have "event_reqQ (hosts w 0) = []"
      using w(5) by (simp add: event_half_def example_host_def zero_ctrl_def)
    ultimately show thesis
      using that [OF w(1), of e w1] p w
      by (simp add: eh_begin_eq winflight_def)
  qed (use room in auto)
qed

text \<open>
  (C8) Abort: when the handler wakes up, its references to the two buffers are given back
  whatever happened; the command is completed, once and with \<open>DID_ABORT\<close>, exactly when the
  event carries success and the command is still queued, and nothing else is completed.
\<close>

theorem eh_abort_completes_once:
  assumes "world_inv S (H(a := add_mset c (H a))) w" "a \<in> S"
    and "event_inv (add_mset e (add_mset e HE)) (hosts w a)"
    and "c \<notin> set (reqQ (hosts w a))" "c \<in> set (allQ (hosts w a)) \<Longrightarrow> scsi_cmd (cmd_of (hosts w a) c) = Some sc"
    and "vsc_eh_abort_end sc (a, c, e) retval w = Some (r, w')"
  shows "world_inv S H w' \<and> event_inv HE (hosts w' a) \<and>
    (if r = SUCCESS \<and> c \<in> set (allQ (hosts w a))
     then done_log (mid w') = done_log (mid w) @ [(sc, push_bit 16 DID_ABORT)] \<and>
          winflight S w = add_mset sc (winflight S w') \<and> c \<notin> set (allQ (hosts w' a))
     else done_log (mid w') = done_log (mid w) \<and> winflight S w' = winflight S w)"
  using eh_abort_end_spec [OF assms] by simp

lemma eh_abort_completes_once_witness:
  "\<exists>w e w1 r w2. vsc_eh_reset_begin 5 w = Some (Inr (0, 0, e), w1) \<and>
     vsc_eh_abort_end 5 (0, 0, e) 0 w1 = Some (r, w2) \<and> world_inv {0} (\<lambda>_. {#}) w2"
proof -
  obtain w e w1 where p: "vsc_scsi_queue_command 5 example_world = Some (0, w)"
    "vsc_eh_reset_begin 5 w = Some (Inr (0, 0, e), w1)" "world_inv {0} ((\<lambda>_. {#})(0 := {#0#})) w1"
    "event_inv {#e, e#} (hosts w1 0)" "same_cmds (vsc_cmd_get 0 (hosts w 0)) (hosts w1 0)"
    by (rule example_posted)
  obtain w' where w': "vsc_scsi_queue_command 5 example_world = Some (0, w')" "reqQ (hosts w' 0) = []"
    "inflight (hosts w' 0) = {#5#}" "allQ (hosts w' 0) = [0]" "world_inv {0} (\<lambda>_. {#}) w'"
    by (rule example_queued)
  have "w' = w" using p(1) w'(1) by simp
  have "\<exists>y. scsi_cmd (cmd_of (hosts w 0) 0) = Some y" "the (scsi_cmd (cmd_of (hosts w 0) 0)) = 5"
    using host_inv_linked [of "{#}" "hosts w' 0" 0] w' \<open>w' = w\<close> by (simp_all add: world_inv_def inflight_def)
  then have "scsi_cmd (cmd_of (hosts w1 0) 0) = Some 5" "0 \<notin> set (reqQ (hosts w1 0))"
    using w'(2) \<open>w' = w\<close> p(5) by (auto simp: cmd_of_same_cmds reqQ_same_cmds vsc_frame)
  note fact = eh_abort_completes_once [OF p(3) _ p(4) this(2) this(1)]
  obtain r w2 where "vsc_eh_abort_end 5 (0, 0, e) 0 w1 = Some (r, w2)"
    using vsc_event_wait_end_total [of e 0 "hosts w1 0"] by (auto simp: eh_abort_end_eq Let_def)
  with fact [of 0 r w2] p(2) show ?thesis by blast
qed



end
