(* ===== verification/Vsc_Umem.thy ===== *)
theory Vsc_Umem
  imports Vsc_State
begin

text \<open>
  User memory and the kernel's accessors. An address is mapped to a byte or not mapped. The
  accessors copy bytes in ascending order and stop at the first address that is not mapped;
  \<open>copy_to_user\<close> and \<open>copy_from_user\<close> return the number of bytes not copied, and
  \<open>copy_from_user\<close> fills the rest of the kernel buffer with zeros.
\<close>

type_synonym umem = "u64 \<Rightarrow> byte option"

definition poke :: "u64 \<Rightarrow> byte \<Rightarrow> umem \<Rightarrow> umem" where
  "poke a b um = um(a \<mapsto> b)"

fun copy_to_user :: "u64 \<Rightarrow> byte list \<Rightarrow> umem \<Rightarrow> nat \<times> umem" where
  "copy_to_user a [] um = (0, um)"
| "copy_to_user a (b # bs) um =
     (case um a of None \<Rightarrow> (length (b # bs), um) | Some _ \<Rightarrow> copy_to_user (a + 1) bs (poke a b um))"

fun copy_from_user :: "u64 \<Rightarrow> nat \<Rightarrow> umem \<Rightarrow> nat \<times> byte list" where
  "copy_from_user a 0 um = (0, [])"
| "copy_from_user a (Suc n) um =
     (case um a of
        None \<Rightarrow> (Suc n, replicate (Suc n) 0)
      | Some b \<Rightarrow> (let (left, bs) = copy_from_user (a + 1) n um in (left, b # bs)))"

text \<open>
  \<open>get_user(x, ptr)\<close> reads as many bytes as the object \<open>ptr\<close> points to has: one, in the driver's
  calls, with its sign extended.
\<close>

definition get_user :: "u64 \<Rightarrow> umem \<Rightarrow> u32 option" where
  "get_user a um = map_option scast (um a)"

subsection \<open>Mapped ranges\<close>

definition mapped :: "u64 \<Rightarrow> nat \<Rightarrow> umem \<Rightarrow> bool" where
  "mapped a n um \<longleftrightarrow> (\<forall>i<n. um (a + of_nat i) \<noteq> None)"

definition ubytes :: "u64 \<Rightarrow> nat \<Rightarrow> umem \<Rightarrow> byte list" where
  "ubytes a n um = map (\<lambda>i. the (um (a + of_nat i))) [0..<n]"

lemma length_ubytes [simp]: "length (ubytes a n um) = n"
  by (simp add: ubytes_def)

lemma mapped_0 [simp]: "mapped a 0 um"
  by (simp add: mapped_def)

lemma mapped_Suc: "mapped a (Suc n) um \<longleftrightarrow> um a \<noteq> None \<and> mapped (a + 1) n um"
  by (auto simp: mapped_def less_Suc_eq_0_disj add.assoc)

lemma ubytes_Suc: "ubytes a (Suc n) um = the (um a) # ubytes (a + 1) n um"
proof -
  have "[0..<Suc n] = 0 # map Suc [0..<n]" by (metis map_Suc_upt upt_conv_Cons zero_less_Suc)
  then show ?thesis by (simp add: ubytes_def comp_def add.assoc)
qed

lemma mapped_append: "mapped a (m + n) um \<longleftrightarrow> mapped a m um \<and> mapped (a + of_nat m) n um"
proof (induction m arbitrary: a)
  case (Suc m)
  show ?case using Suc [of "a + 1"] by (simp add: mapped_Suc add.assoc)
qed simp

lemma ubytes_append: "ubytes a (m + n) um = ubytes a m um @ ubytes (a + of_nat m) n um"
proof (induction m arbitrary: a)
  case 0
  show ?case by (simp add: ubytes_def)
next
  case (Suc m)
  show ?case using Suc [of "a + 1"] by (simp add: ubytes_Suc add.assoc)
qed

lemma poke_apply: "poke a b um c = (if c = a then Some b else um c)"
  by (simp add: poke_def)

lemma poke_dom: "um a \<noteq> None \<Longrightarrow> dom (poke a b um) = dom um"
  by (auto simp: dom_def poke_apply)

lemma mapped_write: "um a \<noteq> None \<Longrightarrow> mapped b n (poke a x um) = mapped b n um"
  by (auto simp: mapped_def poke_apply)

lemma copy_to_user_ok: "fst (copy_to_user a bs um) = 0 \<longleftrightarrow> mapped a (length bs) um"
  by (induction bs arbitrary: a um) (auto simp: mapped_Suc mapped_write split: option.split)

lemma copy_to_user_dom: "dom (snd (copy_to_user a bs um)) = dom um"
  by (induction bs arbitrary: a um) (auto simp: poke_dom split: option.split)

lemma copy_to_user_mapped [simp]: "mapped b n (snd (copy_to_user a bs um)) = mapped b n um"
  using copy_to_user_dom [of a bs um] unfolding mapped_def by (metis domIff)

text \<open>A copy in two pieces is a copy of the whole, faults included.\<close>

lemma copy_to_user_append:
  "copy_to_user a (xs @ ys) um =
     (let (left, um1) = copy_to_user a xs um in
      if left = 0 then copy_to_user (a + of_nat (length xs)) ys um1 else (left + length ys, um1))"
proof (induction xs arbitrary: a um)
  case (Cons b bs)
  then show ?case by (cases "um a") (simp_all add: add.assoc split_beta Let_def)
qed simp

lemma copy_to_user_other:
  "(\<forall>i<length bs. a + of_nat i \<noteq> c) \<Longrightarrow> snd (copy_to_user a bs um) c = um c"
proof (induction bs arbitrary: a um)
  case (Cons b bs)
  have "a \<noteq> c" "\<forall>i<length bs. a + 1 + of_nat i \<noteq> c"
    using Cons(2) by (auto simp: add.assoc dest: spec [of _ 0] spec [of _ "Suc _"])
  with Cons(1) show ?case by (auto simp: poke_apply split: option.split)
qed simp

lemma copy_to_user_bytes:
  "mapped a (length bs) um \<Longrightarrow> length bs \<le> 2 ^ 64 \<Longrightarrow> ubytes a (length bs) (snd (copy_to_user a bs um)) = bs"
proof (induction bs arbitrary: a um)
  case (Cons b bs)
  then obtain x where x: "um a = Some x" and m: "mapped (a + 1) (length bs) um"
    by (auto simp: mapped_Suc)
  have "\<forall>i<length bs. a + 1 + of_nat i \<noteq> a"
  proof (intro allI impI notI)
    fix i assume i: "i < length bs" and e: "a + 1 + of_nat i = a"
    from e have "of_nat (Suc i) = (0 :: u64)" by (simp add: add.assoc)
    then have "2 ^ LENGTH(64) dvd Suc i" unfolding word_of_nat_eq_0_iff .
    then show False using i Cons(3) by (auto dest: dvd_imp_le)
  qed
  then have "snd (copy_to_user (a + 1) bs (poke a b um)) a = Some b"
    using copy_to_user_other [of bs "a + 1" a "poke a b um"] by (simp add: poke_apply)
  moreover have "ubytes (a + 1) (length bs) (snd (copy_to_user (a + 1) bs (poke a b um))) = bs"
    using Cons(1) [of "a + 1" "poke a b um"] Cons(3) m by (simp add: mapped_write x)
  ultimately show ?case by (simp add: x ubytes_Suc)
qed (simp add: ubytes_def)

lemma copy_from_user_eq:
  "fst (copy_from_user a n um) = 0 \<longleftrightarrow> mapped a n um"
  "length (snd (copy_from_user a n um)) = n"
  "mapped a n um \<Longrightarrow> copy_from_user a n um = (0, ubytes a n um)"
  by (induction n arbitrary: a)
    (auto simp: mapped_Suc ubytes_Suc ubytes_def [of _ 0] split_beta split: option.split)

end
