(* ===== verification/Vsc_Read.thy ===== *)
theory Vsc_Read
  imports Vsc_ErrorHandlers Vsc_Umem
begin

text \<open>
  The reading side: the target polls (\<open>vsc_poll_wait\<close>), sleeps until there is work
  (\<open>vsc_get_scsi_cmd_msg\<close>) and takes a batch of commands (\<open>vsc_get_multi_scsi_cmd_and_cdb\<close>) or
  one event (\<open>vsc_get_event\<close>). The functions are split where the host's lock is released, and
  put together the way the code does. \<open>command_size\<close> is the kernel's \<open>scsi_command_size\<close>,
  \<open>stk\<close> what the message array on the stack holds before it is filled, \<open>wait\<close> what
  \<open>wait_event_interruptible\<close> returns and how the host changes meanwhile.
\<close>

definition POLLIN_RDNORM :: u32 where "POLLIN_RDNORM = 0x41"

definition vsc_poll_wait :: "vsc_ctrl_info option \<Rightarrow> u32" where
  "vsc_poll_wait hp =
     (case hp of
        None \<Rightarrow> 0
      | Some h \<Rightarrow> if cmpQ h \<noteq> [] \<or> event_reqQ h \<noteq> [] then POLLIN_RDNORM else 0)"

subsection \<open>A batch of commands\<close>

text \<open>The first locked section: up to \<open>n\<close> more buffers move to the response queue.\<close>

fun take_cmds :: "nat \<Rightarrow> vsc_ctrl_info \<Rightarrow> nat list \<times> vsc_ctrl_info" where
  "take_cmds 0 h = ([], h)"
| "take_cmds (Suc n) h =
     (case cmpQ h of
        [] \<Rightarrow> ([], h)
      | c # _ \<Rightarrow>
          (let h1 = removeQ c h;
               h2 = h1\<lparr>rspQ := addQ (rspQ h1) c\<rparr>;
               (cs, h3) = take_cmds n h2
           in (c # cs, h3)))"

definition get_multi_take :: "vsc_ctrl_info \<Rightarrow> nat list \<times> nat \<times> vsc_ctrl_info" where
  "get_multi_take h =
     (let (c_arr, h1) = take_cmds MAX_BATCH_SCSI_CMD_COUNT h;
          h2 = h1\<lparr>get_cmd_times := get_cmd_times h1 + 1,
                  get_cmd_total := get_cmd_total h1 + of_nat (length c_arr)\<rparr>
      in (c_arr, list_size (cmpQ h2), h2))"

text \<open>One message: the array element keeps what is not written. A CDB longer than 16 bytes would
  be written past \<open>cdb\<close>.\<close>

definition fill_msg ::
  "(byte list \<Rightarrow> nat) \<Rightarrow> nat \<Rightarrow> midlayer \<Rightarrow> vsc_ctrl_info \<Rightarrow> vsc_msg_cdb \<Rightarrow> vsc_msg_cdb option" where
  "fill_msg command_size c m h old =
     do { sc \<leftarrow> scsi_cmd (cmd_of h c);
          let s = scmds m sc;
          let dev = sdevs m (sc_device s);
          let n = command_size (cmnd s);
          if n \<le> 16 \<and> n \<le> length (cmnd s)
          then Some (old\<lparr>
            smsg := (smsg old)\<lparr>msg_type := VSC_MSG_TYPE_SCSI_CMD, msg_cmd_sn := cmd_sn (cmd_of h c),
              msg_tag := cmd_index (cmd_of h c), msg_host := vsc_ctrl_get_host_no h,
              msg_channel := sdev_channel dev, msg_id := sdev_id dev, msg_lun := sdev_lun dev,
              msg_direction := sc_data_direction s\<rparr>,
            cdb := take n (cmnd s) @ drop n (cdb old)\<rparr>)
          else None }"

fun fill_msgs ::
  "(byte list \<Rightarrow> nat) \<Rightarrow> nat list \<Rightarrow> midlayer \<Rightarrow> vsc_ctrl_info \<Rightarrow> vsc_msg_cdb list \<Rightarrow>
   (vsc_msg_cdb list \<times> vsc_ctrl_info) option" where
  "fill_msgs command_size [] m h stk = Some ([], h)"
| "fill_msgs command_size (c # cs) m h stk =
     (case stk of
        [] \<Rightarrow> None
      | old # stk' \<Rightarrow>
          do { let h1 = upd_cmd c (\<lambda>x. x\<lparr>cstat := CMD_STAT_READ_COMP\<rparr>) h;
               msg \<leftarrow> fill_msg command_size c m h1 old;
               (msgs, h2) \<leftarrow> fill_msgs command_size cs m h1 stk';
               Some (msg # msgs, h2) })"

text \<open>The error exit: the buffers go back to the head of \<open>cmpQ\<close>, one after the other.\<close>

definition get_multi_putback :: "nat list \<Rightarrow> vsc_ctrl_info \<Rightarrow> vsc_ctrl_info" where
  "get_multi_putback c_arr h =
     fold (\<lambda>c h.
       (let h1 = upd_cmd c (\<lambda>x. x\<lparr>cstat := CMD_STAT_REQUEST\<rparr>) h;
            h2 = removeQ c h1
        in h2\<lparr>cmpQ := c # cmpQ h2\<rparr>)) c_arr h"

definition mark_counts :: "nat \<Rightarrow> nat \<Rightarrow> vsc_msg_cdb list \<Rightarrow> vsc_msg_cdb list" where
  "mark_counts n left_count msgs =
     (case msgs of
        [] \<Rightarrow> []
      | x # xs \<Rightarrow> x\<lparr>smsg := (smsg x)\<lparr>msg_reserved0 := of_nat n, msg_reserved1 := of_nat left_count\<rparr>\<rparr> # xs)"

definition vsc_get_multi_scsi_cmd_and_cdb ::
  "(byte list \<Rightarrow> nat) \<Rightarrow> vsc_msg_cdb list \<Rightarrow> midlayer \<Rightarrow> u64 \<Rightarrow> int \<Rightarrow> vsc_ctrl_info \<Rightarrow> umem \<Rightarrow>
   (int \<times> vsc_ctrl_info \<times> umem) option" where
  "vsc_get_multi_scsi_cmd_and_cdb command_size stk m user_ptr len h um =
     (if len \<noteq> int MAX_SCSI_MSG_AND_CDB_LENGTH then Some (- EINVAL, h, um)
      else if cmpQ h = [] then Some (- ENODATA, h, um)
      else
        (let (c_arr, left_count, h1) = get_multi_take h; n = length c_arr in
         do { (msgs, h2) \<leftarrow> fill_msgs command_size c_arr m h1 stk;
              let bytes = concat (map enc_msg_cdb (mark_counts n left_count msgs));
              let (left, um1) = copy_to_user user_ptr bytes um;
              if left \<noteq> 0 then Some (- EFAULT, get_multi_putback c_arr h2, um1)
              else Some (int (56 * n), h2, um1) }))"

subsection \<open>An event\<close>

text \<open>\<open>pad\<close> is what the padding of the header on the stack holds.\<close>

definition get_event_back :: "nat \<Rightarrow> vsc_ctrl_info \<Rightarrow> vsc_ctrl_info" where
  "get_event_back e h =
     (let h1 = remove_eventQ e h in h1\<lparr>event_reqQ := add_eventQ (event_reqQ h1) e\<rparr>)"

definition vsc_get_event ::
  "u32 \<Rightarrow> u64 \<Rightarrow> int \<Rightarrow> vsc_ctrl_info \<Rightarrow> umem \<Rightarrow> int \<times> vsc_ctrl_info \<times> umem" where
  "vsc_get_event pad user_ptr len h um =
     (if (word_of_int len :: u64) < 56 then (- EINVAL, h, um)
      else
        (case event_reqQ h of
           [] \<Rightarrow> (- ENODATA, h, um)
         | e # _ \<Rightarrow>
             (let h1 = remove_eventQ e h;
                  h2 = h1\<lparr>event_rspQ := add_eventQ (event_rspQ h1) e\<rparr>;
                  more = (if cmpQ h2 \<noteq> [] \<or> event_reqQ h2 \<noteq> [] then 1 else 0);
                  n = event_data_len (event_of h2 e);
                  (left, um1) = copy_to_user (user_ptr + 28) (page_bytes (event_data (event_of h2 e)) 0 n) um
              in if left \<noteq> 0 then (- EFAULT, get_event_back e h2, um1)
                 else
                   (let head = \<lparr>ev_type = VSC_MSG_TYPE_EVENT, ev_reserved0 = 1, ev_reserved1 = more,
                                ev_event_sn = event_sn (event_of h2 e), ev_tag = event_index (event_of h2 e),
                                ev_data_length = of_nat n, ev_pad = pad\<rparr>;
                        (left, um2) = copy_to_user user_ptr (enc_words (vsc_scsi_event_words head)) um1
                    in if left \<noteq> 0 then (- EFAULT, get_event_back e h2, um2)
                       else (int (28 + n),
                             upd_event e (\<lambda>x. x\<lparr>estat := EVENT_LIST_STAT_READ_COMP\<rparr>) h2, um2)))))"

subsection \<open>Waiting for work\<close>

definition has_work :: "vsc_ctrl_info \<Rightarrow> bool" where
  "has_work h \<longleftrightarrow> cmpQ h \<noteq> [] \<or> event_reqQ h \<noteq> []"

text \<open>\<open>Inl\<close> an error and whether it is counted, \<open>Inr ()\<close> there is work.\<close>

partial_function (option) wait_for_work ::
  "(vsc_ctrl_info \<Rightarrow> int \<times> vsc_ctrl_info) \<Rightarrow> bool \<Rightarrow> vsc_ctrl_info \<Rightarrow> ((int \<times> bool + unit) \<times> vsc_ctrl_info) option"
  where
  "wait_for_work wait nonblock h =
     (if cmpQ h = [] \<and> event_reqQ h = [] then
        if nonblock then Some (Inl (- EAGAIN, False), h)
        else
          (let (retval, h1) = wait h in
           if retval < 0 then Some (Inl (retval, True), h1)
           else if wakeup_pid h1 \<noteq> 0 then Some (Inl (- EINTR, False), h1\<lparr>wakeup_pid := 0\<rparr>)
           else wait_for_work wait nonblock h1)
      else Some (Inr (), h))"

declare wait_for_work.simps [code]

definition vsc_get_scsi_cmd_msg ::
  "(byte list \<Rightarrow> nat) \<Rightarrow> vsc_msg_cdb list \<Rightarrow> u32 \<Rightarrow> (vsc_ctrl_info \<Rightarrow> int \<times> vsc_ctrl_info) \<Rightarrow> bool \<Rightarrow>
   midlayer \<Rightarrow> u64 \<Rightarrow> int \<Rightarrow> vsc_ctrl_info \<Rightarrow> umem \<Rightarrow> (int \<times> vsc_ctrl_info \<times> umem) option" where
  "vsc_get_scsi_cmd_msg command_size stk pad wait nonblock m user_ptr len h um =
     (if user_ptr = 0 then Some (- EFAULT, h, um)
      else
        do { (r, h1) \<leftarrow> wait_for_work wait nonblock h;
             case r of
               Inl (retval, counted) \<Rightarrow>
                 Some (retval,
                   (if counted then upd_stat (\<lambda>s. s\<lparr>read_fail_count := read_fail_count s + 1\<rparr>) h1 else h1), um)
             | Inr _ \<Rightarrow>
                 do { (retval, h2, um2) \<leftarrow>
                        (if event_reqQ h1 \<noteq> [] then Some (vsc_get_event pad user_ptr len h1 um)
                         else vsc_get_multi_scsi_cmd_and_cdb command_size stk m user_ptr len h1 um);
                      if retval < 0
                      then Some (retval, upd_stat (\<lambda>s. s\<lparr>read_fail_count := read_fail_count s + 1\<rparr>) h2, um2)
                      else Some (retval, h2, um2) } })"

subsection \<open>Interrupting a sleeping reader\<close>

definition vsc_interrupt_sleep_on_read :: "vsc_ctrl_info \<Rightarrow> vsc_ctrl_info" where
  "vsc_interrupt_sleep_on_read h =
     (if waitqueue_active h then wake_up_queue (h\<lparr>wakeup_pid := 1\<rparr>) else h)"

subsection \<open>What a batch does to the queues\<close>

lemma take_cmds_eq:
  assumes "distinct (allQ h)"
  shows "take_cmds n h = (take n (cmpQ h), h\<lparr>cmpQ := drop n (cmpQ h), rspQ := rspQ h @ take n (cmpQ h)\<rparr>)"
  using assms
proof (induction n arbitrary: h)
  case 0
  then show ?case by simp
next
  case (Suc n)
  show ?case
  proof (cases "cmpQ h")
    case Nil
    then show ?thesis by simp
  next
    case (Cons c cs)
    let ?h = "h\<lparr>cmpQ := cs, rspQ := rspQ h @ [c]\<rparr>"
    have "c \<notin> set (reqQ h)" "c \<notin> set (rspQ h)" using Suc.prems Cons by (auto simp: allQ_def)
    then have "(removeQ c h)\<lparr>rspQ := addQ (rspQ (removeQ c h)) c\<rparr> = ?h"
      using Cons by (simp add: removeQ_def addQ_def remove1_idem)
    moreover have "distinct (allQ ?h)" using Suc.prems Cons by (auto simp: allQ_def)
    ultimately show ?thesis using Suc.IH [of ?h] Cons by (simp add: Let_def)
  qed
qed

lemma fill_msgs_state:
  "fill_msgs command_size cs m h stk = Some (msgs, h') \<Longrightarrow>
   h' = h\<lparr>cmd_pool_tbl := mark_stat CMD_STAT_READ_COMP cs (cmd_pool_tbl h)\<rparr> \<and> length msgs = length cs"
proof (induction cs arbitrary: h stk msgs)
  case Nil
  then show ?case by (simp add: mark_stat_def)
next
  case (Cons c cs)
  from Cons.prems obtain old stk' msg msgs' where
    "fill_msgs command_size cs m (upd_cmd c (\<lambda>x. x\<lparr>cstat := CMD_STAT_READ_COMP\<rparr>) h) stk' = Some (msgs', h')"
    "msgs = msg # msgs'"
    by (auto simp: bind_eq_Some_conv Let_def split: list.splits)
  with Cons.IH [OF this(1)] show ?case by (simp add: mark_stat_def upd_cmd_def)
qed

text \<open>\<open>fill_msgs\<close> succeeds when every buffer carries a command with a CDB of at most 16 bytes.\<close>

definition cdb_fits :: "(byte list \<Rightarrow> nat) \<Rightarrow> scsi_cmnd \<Rightarrow> bool" where
  "cdb_fits command_size s \<longleftrightarrow> command_size (cmnd s) \<le> 16 \<and> command_size (cmnd s) \<le> length (cmnd s)"

definition cmd_msg ::
  "(byte list \<Rightarrow> nat) \<Rightarrow> midlayer \<Rightarrow> vsc_ctrl_info \<Rightarrow> nat \<Rightarrow> vsc_msg_cdb \<Rightarrow> vsc_msg_cdb" where
  "cmd_msg command_size m h c old =
     (let s = scmds m (the (scsi_cmd (cmd_of h c))); dev = sdevs m (sc_device s); n = command_size (cmnd s) in
      old\<lparr>smsg := (smsg old)\<lparr>msg_type := VSC_MSG_TYPE_SCSI_CMD, msg_cmd_sn := cmd_sn (cmd_of h c),
              msg_tag := cmd_index (cmd_of h c), msg_host := vsc_ctrl_get_host_no h,
              msg_channel := sdev_channel dev, msg_id := sdev_id dev, msg_lun := sdev_lun dev,
              msg_direction := sc_data_direction s\<rparr>,
          cdb := take n (cmnd s) @ drop n (cdb old)\<rparr>)"

lemma upd_cstat_fields:
  "scsi_cmd (cmd_of (upd_cmd c (cstat_update f) h) i) = scsi_cmd (cmd_of h i)"
  "cmd_sn (cmd_of (upd_cmd c (cstat_update f) h) i) = cmd_sn (cmd_of h i)"
  "cmd_index (cmd_of (upd_cmd c (cstat_update f) h) i) = cmd_index (cmd_of h i)"
  by (cases "i = c"; cases "c < length (cmd_pool_tbl h)"; simp add: upd_cmd_def list_update_beyond)+

lemma cmd_msg_upd_cstat:
  "cmd_msg command_size m (upd_cmd c (cstat_update f) h) = cmd_msg command_size m h"
proof -
  have "vsc_ctrl_get_host_no (upd_cmd c (cstat_update f) h) = vsc_ctrl_get_host_no h"
    by (simp add: vsc_ctrl_get_host_no_def upd_cmd_def split: option.split)
  then show ?thesis by (simp add: cmd_msg_def fun_eq_iff upd_cstat_fields Let_def)
qed

lemma fill_msgs_eq:
  assumes "\<forall>c\<in>set cs. \<exists>sc. scsi_cmd (cmd_of h c) = Some sc \<and> cdb_fits command_size (scmds m sc)"
    and "length cs \<le> length stk"
  shows "\<exists>h'. fill_msgs command_size cs m h stk =
     Some (map2 (cmd_msg command_size m h) cs stk, h')"
  using assms
proof (induction cs arbitrary: h stk)
  case Nil
  then show ?case by simp
next
  case (Cons c cs)
  let ?h = "upd_cmd c (\<lambda>x. x\<lparr>cstat := CMD_STAT_READ_COMP\<rparr>) h"
  obtain old stk' where stk: "stk = old # stk'" using Cons.prems(2) by (cases stk) auto
  obtain sc where sc: "scsi_cmd (cmd_of h c) = Some sc" "cdb_fits command_size (scmds m sc)"
    using Cons.prems(1) by auto
  have "fill_msg command_size c m ?h old = Some (cmd_msg command_size m ?h c old)"
    using sc by (simp add: fill_msg_def cmd_msg_def cdb_fits_def upd_cstat_fields Let_def)
  moreover obtain h' where "fill_msgs command_size cs m ?h stk' =
     Some (map2 (cmd_msg command_size m ?h) cs stk', h')"
    using Cons.IH [of ?h stk'] Cons.prems stk by (auto simp: upd_cstat_fields)
  ultimately show ?case by (simp add: stk cmd_msg_upd_cstat)
qed

lemma get_multi_putback_eq:
  assumes "distinct (allQ h)" "distinct cs" "set cs \<subseteq> set (rspQ h)"
  shows "get_multi_putback cs h = h\<lparr>cmd_pool_tbl := mark_stat CMD_STAT_REQUEST cs (cmd_pool_tbl h),
     cmpQ := rev cs @ cmpQ h, rspQ := fold remove1 cs (rspQ h)\<rparr>"
  using assms
proof (induction cs arbitrary: h)
  case Nil
  then show ?case by (simp add: get_multi_putback_def mark_stat_def)
next
  case (Cons c cs)
  let ?h = "h\<lparr>cmd_pool_tbl := (cmd_pool_tbl h)[c := (cmd_of h c)\<lparr>cstat := CMD_STAT_REQUEST\<rparr>],
      rspQ := remove1 c (rspQ h), cmpQ := c # cmpQ h\<rparr>"
  have n: "c \<notin> set (reqQ h)" "c \<notin> set (cmpQ h)" using Cons.prems by (auto simp: allQ_def)
  have "get_multi_putback (c # cs) h = get_multi_putback cs ?h"
    using n by (simp add: get_multi_putback_def upd_cmd_def removeQ_def remove1_idem)
  moreover have "distinct (allQ ?h)" "set cs \<subseteq> set (rspQ ?h)"
    using Cons.prems by (auto simp: allQ_def set_remove1_eq)
  ultimately show ?case
    using Cons.IH [of ?h] Cons.prems by (simp add: mark_stat_def)
qed

lemma fold_remove1_append: "distinct (xs @ cs) \<Longrightarrow> fold remove1 cs (xs @ cs) = xs"
proof (induction cs)
  case (Cons c cs)
  then have "remove1 c (xs @ c # cs) = xs @ cs" by (simp add: remove1_append)
  with Cons show ?case by simp
qed simp

subsection \<open>The invariant\<close>

lemma host_inv_batch:
  assumes inv: "host_inv H h" and q: "mset (cmpQ h' @ rspQ h') = mset (cmpQ h @ rspQ h)"
    and h': "reqQ h' = reqQ h" "io_running h' = io_running h" "Qdepth h' = Qdepth h"
    and same: "same_buffers h h'"
  shows "host_inv H h'" "inflight h' = inflight h"
proof -
  have m: "mset (allQ h') = mset (allQ h)" using q h'(1) by (simp add: allQ_def)
  show "host_inv H h'"
    using inv same m h'(2) by (rule host_inv_move) (use inv h' in \<open>simp add: host_inv_def counters_ok_def\<close>)
  show "inflight h' = inflight h" using same m by (rule inflight_move)
qed

lemma get_multi_take_eq:
  assumes "host_inv H h"
  shows "get_multi_take h =
     (take 4 (cmpQ h), length (cmpQ h) - 4,
      h\<lparr>cmpQ := drop 4 (cmpQ h), rspQ := rspQ h @ take 4 (cmpQ h), get_cmd_times := get_cmd_times h + 1,
        get_cmd_total := get_cmd_total h + of_nat (min (length (cmpQ h)) 4)\<rparr>)"
  using assms
  by (simp add: get_multi_take_def take_cmds_eq host_inv_def queues_ok_def MAX_BATCH_SCSI_CMD_COUNT_def)

text \<open>The three queues and the table after a batch was handed out.\<close>

definition batch_taken :: "vsc_ctrl_info \<Rightarrow> vsc_ctrl_info" where
  "batch_taken h = h\<lparr>cmpQ := drop 4 (cmpQ h), rspQ := rspQ h @ take 4 (cmpQ h),
     cmd_pool_tbl := mark_stat CMD_STAT_READ_COMP (take 4 (cmpQ h)) (cmd_pool_tbl h),
     get_cmd_times := get_cmd_times h + 1,
     get_cmd_total := get_cmd_total h + of_nat (min (length (cmpQ h)) 4)\<rparr>"

definition batch_returned :: "vsc_ctrl_info \<Rightarrow> vsc_ctrl_info" where
  "batch_returned h = h\<lparr>cmpQ := rev (take 4 (cmpQ h)) @ drop 4 (cmpQ h),
     cmd_pool_tbl := mark_stat CMD_STAT_REQUEST (take 4 (cmpQ h))
       (mark_stat CMD_STAT_READ_COMP (take 4 (cmpQ h)) (cmd_pool_tbl h)),
     get_cmd_times := get_cmd_times h + 1,
     get_cmd_total := get_cmd_total h + of_nat (min (length (cmpQ h)) 4)\<rparr>"

lemma batch_taken_inv:
  assumes inv: "host_inv H h"
  shows "host_inv H (batch_taken h)" "inflight (batch_taken h) = inflight h"
    "phases_ok h \<Longrightarrow> phases_ok (batch_taken h)"
proof -
  have same: "same_buffers h (batch_taken h)"
    using same_buffers_mark [of h CMD_STAT_READ_COMP "take 4 (cmpQ h)"]
    by (simp add: same_buffers_def batch_taken_def)
  have "mset (cmpQ (batch_taken h) @ rspQ (batch_taken h)) = mset (cmpQ h @ rspQ h)"
    by (simp add: batch_taken_def) (metis append_take_drop_id mset_append union_commute)
  from host_inv_batch [OF inv this _ _ _ same]
  show "host_inv H (batch_taken h)" "inflight (batch_taken h) = inflight h"
    by (simp_all add: batch_taken_def)
  assume ph: "phases_ok h"
  have len: "i < length (cmd_pool_tbl h)" if "i \<in> set (allQ h)" for i
    using host_inv_linked [OF inv that] by simp
  have d: "distinct (allQ h)" using inv by (simp add: host_inv_defs)
  then have "set (take 4 (cmpQ h)) \<inter> set (drop 4 (cmpQ h)) = {}"
    by (metis allQ_def append_take_drop_id distinct_append)
  moreover have "set (take 4 (cmpQ h)) \<subseteq> set (cmpQ h)" "set (drop 4 (cmpQ h)) \<subseteq> set (cmpQ h)"
    by (rule set_take_subset, rule set_drop_subset)
  ultimately show "phases_ok (batch_taken h)"
    using ph len d unfolding phases_ok_def batch_taken_def
    by (auto simp: mark_stat_nth allQ_def disjoint_iff subset_iff)
qed

lemma batch_returned_inv:
  assumes inv: "host_inv H h"
  shows "host_inv H (batch_returned h)" "inflight (batch_returned h) = inflight h"
proof -
  have same: "same_buffers h (batch_returned h)"
    using same_buffers_mark [of h CMD_STAT_READ_COMP "take 4 (cmpQ h)"]
      same_buffers_mark [of "h\<lparr>cmd_pool_tbl := mark_stat CMD_STAT_READ_COMP (take 4 (cmpQ h)) (cmd_pool_tbl h)\<rparr>"
        CMD_STAT_REQUEST "take 4 (cmpQ h)"]
    by (simp add: same_buffers_def batch_returned_def)
  have "mset (cmpQ (batch_returned h) @ rspQ (batch_returned h)) = mset (cmpQ h @ rspQ h)"
    by (simp add: batch_returned_def) (metis append_take_drop_id mset_append)
  from host_inv_batch [OF inv this _ _ _ same]
  show "host_inv H (batch_returned h)" "inflight (batch_returned h) = inflight h"
    by (simp_all add: batch_returned_def)
qed

lemma get_multi_cases:
  fixes user_ptr :: u64 and um :: umem
  assumes inv: "host_inv H h" and len: "len = 224" and q: "cmpQ h \<noteq> []"
    and stk: "length stk = 4"
    and fits: "\<forall>c\<in>set (take 4 (cmpQ h)). cdb_fits command_size (scmds m (the (scsi_cmd (cmd_of h c))))"
  defines "msgs \<equiv> mark_counts (min (length (cmpQ h)) 4) (length (cmpQ h) - 4)
                    (map2 (cmd_msg command_size m h) (take 4 (cmpQ h)) stk)"
  defines "res \<equiv> copy_to_user user_ptr (concat (map enc_msg_cdb msgs)) um"
  shows "vsc_get_multi_scsi_cmd_and_cdb command_size stk m user_ptr len h um =
     (if fst res = 0 then Some (int (56 * min (length (cmpQ h)) 4), batch_taken h, snd res)
      else Some (- EFAULT, batch_returned h, snd res))"
proof -
  let ?cs = "take 4 (cmpQ h)"
  let ?h1 = "h\<lparr>cmpQ := drop 4 (cmpQ h), rspQ := rspQ h @ ?cs, get_cmd_times := get_cmd_times h + 1,
        get_cmd_total := get_cmd_total h + of_nat (min (length (cmpQ h)) 4)\<rparr>"
  have d: "distinct (allQ h)" using inv by (simp add: host_inv_defs)
  have sub: "set ?cs \<subseteq> set (cmpQ h)" by (rule set_take_subset)
  have ex: "\<forall>c\<in>set ?cs. \<exists>sc. scsi_cmd (cmd_of ?h1 c) = Some sc \<and> cdb_fits command_size (scmds m sc)"
  proof
    fix c assume c: "c \<in> set ?cs"
    then have "c \<in> set (allQ h)" using sub by (auto simp: allQ_def)
    with host_inv_linked [OF inv this] fits c
    show "\<exists>sc. scsi_cmd (cmd_of ?h1 c) = Some sc \<and> cdb_fits command_size (scmds m sc)" by auto
  qed
  obtain h2 where fm: "fill_msgs command_size ?cs m ?h1 stk =
      Some (map2 (cmd_msg command_size m ?h1) ?cs stk, h2)"
    using fill_msgs_eq [OF ex, of stk] stk by auto
  have same: "cmd_msg command_size m ?h1 = cmd_msg command_size m h"
    by (simp add: fun_eq_iff cmd_msg_def vsc_ctrl_get_host_no_def Let_def split: option.split)
  have h2: "h2 = batch_taken h"
    using fill_msgs_state [OF fm] by (simp add: batch_taken_def)
  have "distinct (allQ h2)" "set ?cs \<subseteq> set (rspQ h2)"
    using batch_taken_inv(1) [OF inv] by (auto simp: h2 host_inv_defs batch_taken_def)
  then have "get_multi_putback ?cs h2 = h2\<lparr>cmd_pool_tbl := mark_stat CMD_STAT_REQUEST ?cs (cmd_pool_tbl h2),
     cmpQ := rev ?cs @ cmpQ h2, rspQ := fold remove1 ?cs (rspQ h2)\<rparr>"
    using d by (intro get_multi_putback_eq) (auto simp: allQ_def)
  moreover have "fold remove1 ?cs (rspQ h @ ?cs) = rspQ h"
    using d sub by (intro fold_remove1_append) (auto simp: allQ_def)
  ultimately have undo: "get_multi_putback ?cs h2 = batch_returned h"
    by (simp add: h2 batch_taken_def batch_returned_def)
  show ?thesis
    using q len
    by (simp add: vsc_get_multi_scsi_cmd_and_cdb_def get_multi_take_eq [OF inv] fm same undo [unfolded h2] h2
        split_beta res_def msgs_def Let_def)
qed

subsection \<open>Events\<close>

definition event_head :: "vsc_ctrl_info \<Rightarrow> u32 \<Rightarrow> vsc_scsi_event" where
  "event_head h pad =
     (let e = hd (event_reqQ h) in
      \<lparr>ev_type = VSC_MSG_TYPE_EVENT, ev_reserved0 = 1,
       ev_reserved1 = (if cmpQ h \<noteq> [] \<or> tl (event_reqQ h) \<noteq> [] then 1 else 0),
       ev_event_sn = event_sn (event_of h e), ev_tag = event_index (event_of h e),
       ev_data_length = of_nat (event_data_len (event_of h e)), ev_pad = pad\<rparr>)"

lemma get_event_ok:
  assumes inv: "event_inv HE h" and q: "event_reqQ h = e # es"
    and len: "56 \<le> len" "len < 2 ^ 31"
    and m: "mapped user_ptr 28 um" "mapped (user_ptr + 28) (event_data_len (event_of h e)) um"
  defines "um1 \<equiv> snd (copy_to_user (user_ptr + 28)
                    (page_bytes (event_data (event_of h e)) 0 (event_data_len (event_of h e))) um)"
  shows "vsc_get_event pad user_ptr len h um =
     (int (28 + event_data_len (event_of h e)),
      upd_event e (\<lambda>x. x\<lparr>estat := EVENT_LIST_STAT_READ_COMP\<rparr>)
        (h\<lparr>event_reqQ := es, event_rspQ := event_rspQ h @ [e]\<rparr>),
      snd (copy_to_user user_ptr (enc_words (vsc_scsi_event_words (event_head h pad))) um1))"
proof -
  have e: "e \<notin> set es" "e \<notin> set (event_rspQ h)"
    using inv q by (auto simp: event_inv_def all_eventQ_def)
  have l: "\<not> (word_of_int len :: u64) < 56"
    using len by (simp add: word_less_def uint_word_of_int)
  have sz: "length (vsc_scsi_event_words x) = 7" for x
    by (simp add: vsc_scsi_event_words_def)
  have c1: "fst (copy_to_user (user_ptr + 28)
      (page_bytes (event_data (event_of h e)) 0 (event_data_len (event_of h e))) um) = 0"
    using m(2) copy_to_user_ok by simp
  have c2: "fst (copy_to_user user_ptr (enc_words (vsc_scsi_event_words x)) um1) = 0" for x
    using m(1) copy_to_user_ok [of user_ptr "enc_words (vsc_scsi_event_words x)"] by (simp add: um1_def sz)
  show ?thesis
    using l c1 c2 e
    by (simp add: vsc_get_event_def q remove_eventQ_def add_eventQ_def remove1_idem split_beta Let_def
        event_head_def um1_def)
qed

lemma get_event_inv:
  assumes inv: "event_inv HE h" and r: "vsc_get_event pad user_ptr len h um = (r, h', um')"
  shows "event_inv HE h'" "same_cmds h h'" "same_host h h'" "mset (all_eventQ h') = mset (all_eventQ h)"
proof -
  have "(event_inv HE h' \<and> mset (all_eventQ h') = mset (all_eventQ h)) \<and> same_cmds h h' \<and> same_host h h'"
  proof (cases "event_reqQ h")
    case Nil
    with r inv show ?thesis by (auto simp: vsc_get_event_def split: if_splits)
  next
    case (Cons e es)
    let ?h2 = "h\<lparr>event_reqQ := es, event_rspQ := event_rspQ h @ [e]\<rparr>"
    let ?h3 = "h\<lparr>event_reqQ := es @ [e]\<rparr>"
    have d: "e \<notin> set es" "e \<notin> set (event_rspQ h)"
      using inv Cons by (auto simp: event_inv_def all_eventQ_def)
    then have h2: "(remove_eventQ e h)\<lparr>event_rspQ := add_eventQ (event_rspQ (remove_eventQ e h)) e\<rparr> = ?h2"
      using Cons by (simp add: remove_eventQ_def add_eventQ_def remove1_idem)
    have h3: "get_event_back e ?h2 = ?h3"
      using d by (simp add: get_event_back_def remove_eventQ_def add_eventQ_def remove1_idem remove1_append Let_def)
    have "h' = h \<or> h' = ?h3 \<or> h' = upd_event e (\<lambda>x. x\<lparr>estat := EVENT_LIST_STAT_READ_COMP\<rparr>) ?h2"
      using r unfolding vsc_get_event_def Cons list.case Let_def h2 h3
      by (auto split: if_splits prod.splits)
    moreover have i2: "event_inv HE ?h2" "event_inv HE ?h3"
      using inv Cons by (auto simp: event_inv_defs all_eventQ_def event_used_def)
    moreover have "event_inv HE (upd_event e (\<lambda>x. x\<lparr>estat := EVENT_LIST_STAT_READ_COMP\<rparr>) ?h2)"
      by (rule upd_event_inv [OF i2(1)]) simp_all
    ultimately show ?thesis
      using inv Cons
      by (elim disjE) (simp_all add: all_eventQ_def upd_event_def same_cmds_def same_host_def)
  qed
  then show "event_inv HE h'" "same_cmds h h'" "same_host h h'" "mset (all_eventQ h') = mset (all_eventQ h)"
    by auto
qed

subsection \<open>Waiting\<close>

text \<open>
  The contract of \<open>wait_event_interruptible\<close>: it returns a negative value when interrupted by
  a signal, and otherwise only when its condition holds.
\<close>

definition wait_contract :: "(vsc_ctrl_info \<Rightarrow> int \<times> vsc_ctrl_info) \<Rightarrow> bool" where
  "wait_contract wait \<longleftrightarrow>
     (\<forall>h. fst (wait h) \<ge> 0 \<longrightarrow> has_work (snd (wait h)) \<or> wakeup_pid (snd (wait h)) \<noteq> 0)"

lemma wait_contractD:
  "wait_contract wait \<Longrightarrow> \<not> fst (wait h) < 0 \<Longrightarrow> wakeup_pid (snd (wait h)) = 0 \<Longrightarrow> has_work (snd (wait h))"
  unfolding wait_contract_def by (drule spec [of _ h]) simp

lemma wait_for_work_returns:
  assumes "wait_contract wait"
  shows "wait_for_work wait nonblock h =
     Some (if has_work h then (Inr (), h)
           else if nonblock then (Inl (- EAGAIN, False), h)
           else if fst (wait h) < 0 then (Inl (fst (wait h), True), snd (wait h))
           else if wakeup_pid (snd (wait h)) \<noteq> 0
                then (Inl (- EINTR, False), (snd (wait h))\<lparr>wakeup_pid := 0\<rparr>)
                else (Inr (), snd (wait h)))"
proof -
  have "wait_for_work wait nonblock g = Some (Inr (), g)" if "has_work g" for g
    using that by (subst wait_for_work.simps) (auto simp: has_work_def)
  moreover have "has_work (snd (wait h))" if "\<not> fst (wait h) < 0" "wakeup_pid (snd (wait h)) = 0"
    using assms that by (rule wait_contractD)
  ultimately show ?thesis
    by (subst wait_for_work.simps) (auto simp: split_beta Let_def has_work_def)
qed

subsection \<open>Properties\<close>

lemma map2_cdb_length:
  assumes "\<forall>x\<in>set stk. length (cdb x) = 16"
    and "\<forall>c\<in>set cs. cdb_fits command_size (scmds m (the (scsi_cmd (cmd_of h c))))"
  shows "\<forall>x\<in>set (mark_counts a b (map2 (cmd_msg command_size m h) cs stk)). length (cdb x) = 16"
proof -
  have "length (cdb (cmd_msg command_size m h c old)) = 16" if "(c, old) \<in> set (zip cs stk)" for c old
    using assms set_zip_leftD [OF that] set_zip_rightD [OF that]
    by (simp add: cmd_msg_def cdb_fits_def Let_def)
  then have "\<forall>x\<in>set (map2 (cmd_msg command_size m h) cs stk). length (cdb x) = 16" by auto
  then show ?thesis by (auto simp: mark_counts_def split: list.splits)
qed

lemma length_mark_counts [simp]: "length (mark_counts a b xs) = length xs"
  by (simp add: mark_counts_def split: list.split)

lemma batch_delivered:
  assumes inv: "host_inv H h" and q: "cmpQ h \<noteq> []"
    and stk: "length stk = 4" "\<forall>x\<in>set stk. length (cdb x) = 16"
    and fits: "\<forall>c\<in>set (take 4 (cmpQ h)). cdb_fits command_size (scmds m (the (scsi_cmd (cmd_of h c))))"
    and mem: "mapped user_ptr (56 * min (length (cmpQ h)) 4) um"
  shows "\<exists>um'. vsc_get_multi_scsi_cmd_and_cdb command_size stk m user_ptr 224 h um =
       Some (int (56 * min (length (cmpQ h)) 4), batch_taken h, um') \<and> dom um' = dom um \<and>
     (\<forall>i<min (length (cmpQ h)) 4.
        dec_msg_cdb (ubytes user_ptr (56 * min (length (cmpQ h)) 4) um') (i * 56) =
        Some (mark_counts (min (length (cmpQ h)) 4) (length (cmpQ h) - 4)
               (map2 (cmd_msg command_size m h) (take 4 (cmpQ h)) stk) ! i))"
proof -
  let ?n = "min (length (cmpQ h)) 4"
  let ?msgs = "mark_counts ?n (length (cmpQ h) - 4) (map2 (cmd_msg command_size m h) (take 4 (cmpQ h)) stk)"
  let ?bytes = "concat (map enc_msg_cdb ?msgs)"
  have cdb: "\<forall>x\<in>set ?msgs. length (cdb x) = 16"
    using stk(2) fits by (rule map2_cdb_length)
  have n: "length ?msgs = ?n" using stk(1) by simp
  have lenb: "length ?bytes = 56 * ?n" using length_msg_cdb_array [OF cdb] n by simp
  have ok: "fst (copy_to_user user_ptr ?bytes um) = 0"
    using mem copy_to_user_ok [of user_ptr ?bytes um] lenb by simp
  have "ubytes user_ptr (length ?bytes) (snd (copy_to_user user_ptr ?bytes um)) = ?bytes"
    using mem lenb by (intro copy_to_user_bytes) simp_all
  then have ub: "ubytes user_ptr (56 * ?n) (snd (copy_to_user user_ptr ?bytes um)) = ?bytes"
    by (simp only: lenb)
  have "dec_msg_cdb ?bytes (i * 56) = Some (?msgs ! i)" if "i < ?n" for i
    using dec_msg_cdb_array [OF cdb, of i "[]" "[]"] that unfolding n by simp
  then show ?thesis
    using get_multi_cases [OF inv refl q stk(1) fits, of user_ptr um] ok copy_to_user_dom [of user_ptr ?bytes um] ub
    by (intro exI [of _ "snd (copy_to_user user_ptr ?bytes um)"]) simp
qed

text \<open>
  (C12) Delivery: a read of the batch size with commands waiting hands over the first
  \<open>min 4 n\<close> commands of \<open>cmpQ\<close> in order. The user buffer then decodes to one message per
  command (serial number, tag, address, direction, CDB), the first message carries the number
  of commands and how many are left, the commands wait for their response in \<open>rspQ\<close> with
  status \<open>READ_COMP\<close>, and the host's invariant holds.
\<close>

theorem read_delivers_batch:
  assumes inv: "host_inv H h" and q: "cmpQ h \<noteq> []"
    and stk: "length stk = 4" "\<forall>x\<in>set stk. length (cdb x) = 16"
    and fits: "\<forall>c\<in>set (take 4 (cmpQ h)). cdb_fits command_size (scmds m (the (scsi_cmd (cmd_of h c))))"
    and mem: "mapped user_ptr (56 * min (length (cmpQ h)) 4) um"
  shows "\<exists>h' um'. vsc_get_multi_scsi_cmd_and_cdb command_size stk m user_ptr 224 h um =
       Some (int (56 * min (length (cmpQ h)) 4), h', um') \<and>
     host_inv H h' \<and> inflight h' = inflight h \<and> (phases_ok h \<longrightarrow> phases_ok h') \<and>
     cmpQ h' = drop 4 (cmpQ h) \<and> rspQ h' = rspQ h @ take 4 (cmpQ h) \<and>
     (\<forall>i<min (length (cmpQ h)) 4.
        dec_msg_cdb (ubytes user_ptr (56 * min (length (cmpQ h)) 4) um') (i * 56) =
        Some (mark_counts (min (length (cmpQ h)) 4) (length (cmpQ h) - 4)
               (map2 (cmd_msg command_size m h) (take 4 (cmpQ h)) stk) ! i))"
  using batch_delivered [OF inv q stk fits mem] batch_taken_inv [OF inv]
  by (auto simp: batch_taken_def)

text \<open>
  (C30) A read whose copy to user memory fails loses no command: the batch is back in \<open>cmpQ\<close>
  before the commands behind it, and the invariant holds. The batch is put back in reverse
  order, so the commands are not delivered in the order they were queued.
\<close>

theorem failed_read_reverses_batch:
  assumes inv: "host_inv H h" and q: "cmpQ h \<noteq> []"
    and stk: "length stk = 4" "\<forall>x\<in>set stk. length (cdb x) = 16"
    and fits: "\<forall>c\<in>set (take 4 (cmpQ h)). cdb_fits command_size (scmds m (the (scsi_cmd (cmd_of h c))))"
    and mem: "\<not> mapped user_ptr (56 * min (length (cmpQ h)) 4) um"
  shows "\<exists>h' um'. vsc_get_multi_scsi_cmd_and_cdb command_size stk m user_ptr 224 h um =
       Some (- EFAULT, h', um') \<and> host_inv H h' \<and> inflight h' = inflight h \<and>
     cmpQ h' = rev (take 4 (cmpQ h)) @ drop 4 (cmpQ h) \<and> rspQ h' = rspQ h"
proof -
  let ?n = "min (length (cmpQ h)) 4"
  let ?msgs = "mark_counts ?n (length (cmpQ h) - 4) (map2 (cmd_msg command_size m h) (take 4 (cmpQ h)) stk)"
  let ?bytes = "concat (map enc_msg_cdb ?msgs)"
  have cdb: "\<forall>x\<in>set ?msgs. length (cdb x) = 16"
    using stk(2) fits by (rule map2_cdb_length)
  have "length ?bytes = 56 * ?n" using length_msg_cdb_array [OF cdb] stk(1) by simp
  then have "fst (copy_to_user user_ptr ?bytes um) \<noteq> 0"
    using mem copy_to_user_ok [of user_ptr ?bytes um] by simp
  then show ?thesis
    using get_multi_cases [OF inv refl q stk(1) fits, of user_ptr um] batch_returned_inv [OF inv]
    by (intro exI [of _ "batch_returned h"] exI [of _ "snd (copy_to_user user_ptr ?bytes um)"])
      (simp add: batch_returned_def)
qed

text \<open>
  (C29) Delivery of an event: the first event of the queue is written to user memory as a
  header (type, serial number, tag, length, whether more is waiting) followed by its page, it
  moves to the response queue with status \<open>READ_COMP\<close>, and the event invariant holds.
\<close>

theorem read_delivers_event:
  assumes inv: "event_inv HE h" and q: "event_reqQ h = e # es" and len: "56 \<le> len" "len < 2 ^ 31"
    and n: "event_data_len (event_of h e) = n" "n \<le> PAGE_SIZE"
    and mem: "mapped user_ptr (28 + n) um"
  shows "\<exists>h' um'. vsc_get_event pad user_ptr len h um = (int (28 + n), h', um') \<and>
     event_inv HE h' \<and> event_reqQ h' = es \<and> event_rspQ h' = event_rspQ h @ [e] \<and>
     estat (event_of h' e) = EVENT_LIST_STAT_READ_COMP \<and>
     ubytes user_ptr 28 um' = enc_words (vsc_scsi_event_words (event_head h pad)) \<and>
     ubytes (user_ptr + 28) n um' = page_bytes (event_data (event_of h e)) 0 n"
proof -
  let ?page = "page_bytes (event_data (event_of h e)) 0 n"
  let ?head = "enc_words (vsc_scsi_event_words (event_head h pad))"
  let ?um1 = "snd (copy_to_user (user_ptr + 28) ?page um)"
  let ?um2 = "snd (copy_to_user user_ptr ?head ?um1)"
  let ?h = "upd_event e (\<lambda>x. x\<lparr>estat := EVENT_LIST_STAT_READ_COMP\<rparr>)
        (h\<lparr>event_reqQ := es, event_rspQ := event_rspQ h @ [e]\<rparr>)"
  have m: "mapped user_ptr 28 um" "mapped (user_ptr + 28) n um"
    using mem mapped_append [of user_ptr 28 n um] by simp_all
  have run: "vsc_get_event pad user_ptr len h um = (int (28 + n), ?h, ?um2)"
    using get_event_ok [OF inv q len m(1), of pad] m(2) n by simp
  have hl: "length ?head = 28" by (simp add: vsc_scsi_event_words_def)
  have "ubytes user_ptr (length ?head) ?um2 = ?head"
    using m(1) hl by (intro copy_to_user_bytes) simp_all
  then have head: "ubytes user_ptr 28 ?um2 = ?head" by (simp only: hl)
  have e: "e < length (event_pool_tbl h)"
    using inv q event_inv_held [OF inv, of e] by (auto simp: event_inv_def all_eventQ_def)
  have "?um2 (user_ptr + 28 + of_nat k) = ?um1 (user_ptr + 28 + of_nat k)" if k: "k < n" for k
  proof (rule copy_to_user_other, unfold hl, intro allI impI notI)
    fix i :: nat assume i: "i < 28" and eq: "user_ptr + of_nat i = user_ptr + 28 + of_nat k"
    then have "(of_nat i :: u64) = of_nat (28 + k)" by (simp add: add.assoc)
    moreover have "28 + k < 2 ^ 64" using k n(2) by (simp add: PAGE_SIZE_def)
    ultimately show False using i by (simp add: word_of_nat_eq_iff take_bit_nat_eq_self del: of_nat_add)
  qed
  then have "ubytes (user_ptr + 28) n ?um2 = ubytes (user_ptr + 28) n ?um1"
    by (simp add: ubytes_def)
  also have "\<dots> = ?page"
    using copy_to_user_bytes [of "user_ptr + 28" ?page um] m(2) n(2) by (simp add: PAGE_SIZE_def)
  finally have page: "ubytes (user_ptr + 28) n ?um2 = ?page" .
  show ?thesis
    using run get_event_inv(1) [OF inv run] head page e
    by (intro exI [of _ ?h] exI [of _ ?um2]) (simp add: upd_event_def)
qed

text \<open>
  A read never spins: with the kernel's contract for \<open>wait_event_interruptible\<close> the wait
  loop ends after at most one sleep; a non-blocking read does not sleep; and it goes on to
  fetch a message only when there is one.
\<close>

lemma read_wait_terminates:
  assumes "wait_contract wait"
  shows "\<exists>r h'. wait_for_work wait nonblock h = Some (r, h') \<and>
     (r = Inr () \<longrightarrow> has_work h') \<and> (nonblock \<longrightarrow> h' = h) \<and> (has_work h \<longrightarrow> r = Inr () \<and> h' = h) \<and>
     (r = Inl (- EAGAIN, False) \<longrightarrow> nonblock)"
  using wait_for_work_returns [OF assms, of nonblock h] wait_contractD [OF assms, of h]
  by auto

subsection \<open>Witnesses\<close>

definition example_stk :: "vsc_msg_cdb list" where
  "example_stk = replicate 4 \<lparr>smsg = of_vsc_scsi_msg (replicate 10 0), cdb = replicate 16 0\<rparr>"

lemma example_stk_ok: "length example_stk = 4" "\<forall>x\<in>set example_stk. length (cdb x) = 16"
  by (simp_all add: example_stk_def)

lemma example_readable:
  obtains w where "vsc_scsi_queue_command 5 example_world = Some (0, w)" "host_inv {#} (hosts w 0)"
    "cmpQ (hosts w 0) = [0]"
    "\<forall>c\<in>set (take 4 (cmpQ (hosts w 0))).
       cdb_fits (\<lambda>_. 10) (scmds (mid w) (the (scsi_cmd (cmd_of (hosts w 0) c))))"
proof -
  obtain w where w: "vsc_scsi_queue_command 5 example_world = Some (0, w)" "cmpQ (hosts w 0) = [0]"
    "inflight (hosts w 0) = {#5#}" "allQ (hosts w 0) = [0]" "world_inv {0} (\<lambda>_. {#}) w"
    "cmnd (scmds (mid w) 5) = cmnd example_scmd"
    by (rule example_queued)
  moreover from this have "the (scsi_cmd (cmd_of (hosts w 0) 0)) = 5" by (simp add: inflight_def)
  ultimately show thesis by (intro that [of w]) (simp_all add: world_inv_def cdb_fits_def)
qed

lemma read_delivers_batch_witness:
  "\<exists>w h' um'. vsc_scsi_queue_command 5 example_world = Some (0, w) \<and>
     vsc_get_multi_scsi_cmd_and_cdb (\<lambda>_. 10) example_stk (mid w) 0x1000 224 (hosts w 0) (\<lambda>_. Some 0) =
       Some (56, h', um') \<and> cmpQ h' = []"
proof -
  obtain w where w: "vsc_scsi_queue_command 5 example_world = Some (0, w)" "host_inv {#} (hosts w 0)"
    "cmpQ (hosts w 0) = [0]"
    "\<forall>c\<in>set (take 4 (cmpQ (hosts w 0))).
       cdb_fits (\<lambda>_. 10) (scmds (mid w) (the (scsi_cmd (cmd_of (hosts w 0) c))))"
    by (rule example_readable)
  have "mapped 0x1000 n (\<lambda>_. Some 0)" for n by (simp add: mapped_def)
  from read_delivers_batch [OF w(2) _ example_stk_ok w(4) this] w(1,3) show ?thesis by fastforce
qed

lemma failed_read_reverses_batch_witness:
  "\<exists>w h' um'. vsc_scsi_queue_command 5 example_world = Some (0, w) \<and>
     vsc_get_multi_scsi_cmd_and_cdb (\<lambda>_. 10) example_stk (mid w) 0x1000 224 (hosts w 0) (\<lambda>_. None) =
       Some (- EFAULT, h', um') \<and> cmpQ h' = [0]"
proof -
  obtain w where w: "vsc_scsi_queue_command 5 example_world = Some (0, w)" "host_inv {#} (hosts w 0)"
    "cmpQ (hosts w 0) = [0]"
    "\<forall>c\<in>set (take 4 (cmpQ (hosts w 0))).
       cdb_fits (\<lambda>_. 10) (scmds (mid w) (the (scsi_cmd (cmd_of (hosts w 0) c))))"
    by (rule example_readable)
  have "\<not> mapped 0x1000 (56 * min (length (cmpQ (hosts w 0))) 4) (\<lambda>_. None)"
    using w(3) by (auto simp: mapped_def intro: exI [of _ 0])
  from failed_read_reverses_batch [OF w(2) _ example_stk_ok w(4) this] w(1,3) show ?thesis by fastforce
qed

lemma read_delivers_event_witness:
  "\<exists>w e w1 h' um'. vsc_eh_reset_begin 5 w = Some (Inr (0, 0, e), w1) \<and>
     vsc_get_event 0 0x1000 56 (hosts w1 0) (\<lambda>_. Some 0) = (56, h', um') \<and> event_rspQ h' = event_rspQ (hosts w1 0) @ [e]"
proof -
  obtain w e w1 where p: "vsc_eh_reset_begin 5 w = Some (Inr (0, 0, e), w1)" "event_inv {#e, e#} (hosts w1 0)"
    "event_reqQ (hosts w1 0) = [e]" "event_data_len (event_of (hosts w1 0) e) = 28"
    by (rule example_posted)
  have m: "mapped 0x1000 (28 + 28) (\<lambda>_. Some 0)" by (simp add: mapped_def)
  have n: "28 \<le> PAGE_SIZE" by (simp add: PAGE_SIZE_def)
  have l: "(56 :: int) \<le> 56" "(56 :: int) < 2 ^ 31" by simp_all
  from read_delivers_event [OF p(2,3) l p(4) n m, of 0] p(1) show ?thesis by fastforce
qed

lemma read_wait_terminates_witness:
  "\<exists>r h'. wait_for_work (\<lambda>h. (0, h\<lparr>wakeup_pid := 1\<rparr>)) False example_host = Some (r, h')"
proof -
  have "wait_contract (\<lambda>h. (0, h\<lparr>wakeup_pid := 1\<rparr>))" by (simp add: wait_contract_def)
  from read_wait_terminates [OF this, of False example_host] show ?thesis by blast
qed

end
