(* ===== verification/Vsc_Copy.thy ===== *)
theory Vsc_Copy
  imports Vsc_Umem Vsc_Io
begin

text \<open>
  Moving data between the kernel and the target's memory. The target describes its memory by
  \<open>iovec\<close>s in the request buffer \<open>buf\<close>, from offset \<open>user\<close> on; the kernel side is a plain buffer
  (\<open>vsc_copy_data_to_iovec\<close>, \<open>vsc_copy_data_from_iovec\<close>: CDB and sense data) or the scatter list
  of a command (\<open>vsc_copy_sg_buff_to_iovec\<close>, \<open>vsc_copy_sg_buff_from_iovec\<close>). The C variables of
  type \<open>int\<close> are kept as 32-bit words and read signed where the C code compares them signed. An
  access outside of a kernel object has no value. The scatter loops, with their offsets inside
  and across entries, are shown to be the copy of one stream of bytes.
\<close>

subsection \<open>Plain buffers\<close>

text \<open>
  The loops over the \<open>iovec\<close>s: \<open>n\<close> iterations are left, \<open>user\<close> and \<open>pos\<close> are the offsets of the
  next \<open>iovec\<close> and of the next byte of data.
\<close>

fun data_to_iovec ::
  "nat \<Rightarrow> byte list \<Rightarrow> nat \<Rightarrow> byte list \<Rightarrow> nat \<Rightarrow> u32 \<Rightarrow> int \<Rightarrow> umem \<Rightarrow> (int \<times> umem) option" where
  "data_to_iovec 0 buf user data pos left_len total_len um = Some (total_len, um)"
| "data_to_iovec (Suc n) buf user data pos left_len total_len um =
     (if 0 < left_len then
        do { iovec \<leftarrow> dec_iovec buf user;
             let copy_len = min (iov_len iovec) left_len;
             bytes \<leftarrow> rd_bytes data pos (unat copy_len);
             let (left, um1) = copy_to_user (iov_base iovec) bytes um;
             if left \<noteq> 0 then Some (- EFAULT, um1)
             else data_to_iovec n buf (user + 16) data (pos + unat copy_len) (left_len - copy_len)
                    (total_len + int (unat copy_len)) um1 }
      else Some (total_len, um))"

definition vsc_copy_data_to_iovec ::
  "vsc_scsi_data \<Rightarrow> byte list \<Rightarrow> nat \<Rightarrow> byte list \<Rightarrow> u32 \<Rightarrow> umem \<Rightarrow> (int \<times> umem) option" where
  "vsc_copy_data_to_iovec scsi_data buf user data len um =
     data_to_iovec (unat (sd_nr_iovec scsi_data)) buf user data (unat (sd_offset scsi_data))
       (len - sd_offset scsi_data) 0 um"

text \<open>\<open>copy_from_user\<close> writes the kernel buffer also when it fails.\<close>

fun data_from_iovec ::
  "nat \<Rightarrow> byte list \<Rightarrow> nat \<Rightarrow> byte list \<Rightarrow> nat \<Rightarrow> u32 \<Rightarrow> int \<Rightarrow> umem \<Rightarrow> (int \<times> byte list) option" where
  "data_from_iovec 0 buf user data pos left_len total_len um = Some (total_len, data)"
| "data_from_iovec (Suc n) buf user data pos left_len total_len um =
     (if 0 < left_len then
        do { iovec \<leftarrow> dec_iovec buf user;
             let copy_len = min (iov_len iovec) left_len;
             let (left, bytes) = copy_from_user (iov_base iovec) (unat copy_len) um;
             data1 \<leftarrow> wr_bytes data pos bytes;
             if left \<noteq> 0 then Some (- EFAULT, data1)
             else data_from_iovec n buf (user + 16) data1 (pos + unat copy_len) (left_len - copy_len)
                    (total_len + int (unat copy_len)) um }
      else Some (total_len, data))"

definition vsc_copy_data_from_iovec ::
  "vsc_scsi_data \<Rightarrow> byte list \<Rightarrow> nat \<Rightarrow> byte list \<Rightarrow> u32 \<Rightarrow> umem \<Rightarrow> (int \<times> byte list) option" where
  "vsc_copy_data_from_iovec scsi_data buf user data len um =
     data_from_iovec (unat (sd_nr_iovec scsi_data)) buf user data (unat (sd_offset scsi_data))
       (len - sd_offset scsi_data) 0 um"

subsection \<open>Scatter lists\<close>

text \<open>
  \<open>seek_sg\<close> is the search for the entry that holds the requested offset: the entry's index and
  the bytes left in it. The index is the length of the list when there is none, which stands
  for the \<open>NULL\<close> after the last entry.
\<close>

fun seek_sg :: "byte list list \<Rightarrow> nat \<Rightarrow> u32 \<Rightarrow> u32 \<Rightarrow> nat \<times> u32" where
  "seek_sg [] j seek offset = (j, 0)"
| "seek_sg (sg # sgs) j seek offset =
     (let seek1 = seek + of_nat (length sg) in
      if offset < seek1 then (j, seek1 - offset) else seek_sg sgs (Suc j) seek1 offset)"

text \<open>What an inner loop leaves: \<open>j\<close>, \<open>sl_first\<close>, \<open>left_len\<close>, \<open>totallen\<close>.\<close>

type_synonym sg_pos = "nat \<times> nat \<times> u32 \<times> u32"

text \<open>The offset in the current entry, from the bytes left in it.\<close>

definition sg_offset :: "u32 \<Rightarrow> u32 \<Rightarrow> u32" where
  "sg_offset len left_len = (if 0 < sint left_len \<and> left_len \<le> len then len - left_len else 0)"

fun sg_to_iovec ::
  "nat \<Rightarrow> byte list list \<Rightarrow> nat \<Rightarrow> nat \<Rightarrow> nat \<Rightarrow> u32 \<Rightarrow> vsc_iovec \<Rightarrow> u32 \<Rightarrow> u32 \<Rightarrow> umem \<Rightarrow>
   ((int + sg_pos) \<times> umem) option" where
  "sg_to_iovec 0 sgs sl_first sl j left_len iovec base_off totallen um =
     Some (Inr (j, sl_first, left_len, totallen), um)"
| "sg_to_iovec (Suc n) sgs sl_first sl j left_len iovec base_off totallen um =
     (if length sgs \<le> sl then None
      else
        (let sg = sgs ! sl; len = of_nat (length sg) :: u32;
             off = sg_offset len left_len;
             copy_len = min (len - off) (iov_len iovec - base_off)
         in if sint copy_len < 0 \<or> sint off < 0 then None
            else
              do { bytes \<leftarrow> rd_bytes sg (unat off) (unat copy_len);
                   let (left, um1) = copy_to_user (iov_base iovec + scast base_off) bytes um;
                   if left \<noteq> 0 then Some (Inl (- EFAULT), um1)
                   else
                     (let base_off1 = base_off + copy_len; off1 = off + copy_len;
                          totallen1 = totallen + copy_len;
                          left_len1 = len - off1 - (iov_len iovec - base_off1)
                      in if 0 < sint left_len1 then Some (Inr (j, sl, left_len1, totallen1), um1)
                         else if iov_len iovec \<le> base_off1 then Some (Inr (Suc j, Suc sl, 0, totallen1), um1)
                         else sg_to_iovec n sgs sl_first (Suc sl) (Suc j) 0 iovec base_off1 totallen1 um1) }))"

fun sgs_to_iovecs ::
  "nat \<Rightarrow> byte list list \<Rightarrow> byte list \<Rightarrow> nat \<Rightarrow> nat \<Rightarrow> nat \<Rightarrow> u32 \<Rightarrow> u32 \<Rightarrow> umem \<Rightarrow>
   ((int + u32) \<times> umem) option" where
  "sgs_to_iovecs 0 sgs buf user sl_first sl_offset left_len totallen um = Some (Inr totallen, um)"
| "sgs_to_iovecs (Suc n) sgs buf user sl_first sl_offset left_len totallen um =
     (if sl_first < length sgs then
        do { iovec \<leftarrow> dec_iovec buf user;
             (r, um1) \<leftarrow> sg_to_iovec (length sgs - sl_offset) sgs sl_first sl_first 0 left_len iovec 0 totallen um;
             case r of
               Inl e \<Rightarrow> Some (Inl e, um1)
             | Inr (j, sl_first1, left_len1, totallen1) \<Rightarrow>
                 sgs_to_iovecs n sgs buf (user + 16) sl_first1 (sl_offset + j) left_len1 totallen1 um1 }
      else Some (Inr totallen, um))"

definition vsc_copy_sg_buff_to_iovec ::
  "scsi_cmnd \<Rightarrow> vsc_scsi_data \<Rightarrow> byte list \<Rightarrow> nat \<Rightarrow> umem \<Rightarrow> (int \<times> umem) option" where
  "vsc_copy_sg_buff_to_iovec sc scsi_data buf user um =
     (let sgs = sc_sglist sc; (sl, left_len) = seek_sg sgs 0 0 (sd_offset scsi_data) in
      if length sgs \<le> sl then Some (- EINVAL, um)
      else if sd_nr_iovec scsi_data = 0 then Some (- EINVAL, um)
      else
        (case cmnd sc of
           [] \<Rightarrow> None
         | op # _ \<Rightarrow>
             if vsc_is_readwrite_cmd op \<and> sc_bufflen sc \<noteq> sd_total_iovec_len scsi_data then Some (- EIO, um)
             else
               do { (r, um1) \<leftarrow> sgs_to_iovecs (unat (sd_nr_iovec scsi_data)) sgs buf user sl sl left_len 0 um;
                    case r of
                      Inl e \<Rightarrow> Some (e, um1)
                    | Inr totallen \<Rightarrow>
                        if vsc_is_readwrite_cmd op \<and> totallen \<noteq> sd_total_iovec_len scsi_data
                        then Some (- EIO, um1)
                        else Some (sint totallen, um1) }))"

text \<open>The other direction writes the scatter list.\<close>

fun sg_from_iovec ::
  "nat \<Rightarrow> byte list list \<Rightarrow> nat \<Rightarrow> nat \<Rightarrow> nat \<Rightarrow> u32 \<Rightarrow> vsc_iovec \<Rightarrow> u32 \<Rightarrow> u32 \<Rightarrow> umem \<Rightarrow>
   ((int + sg_pos) \<times> byte list list) option" where
  "sg_from_iovec 0 sgs sl_first sl j left_len iovec base_off totallen um =
     Some (Inr (j, sl_first, left_len, totallen), sgs)"
| "sg_from_iovec (Suc n) sgs sl_first sl j left_len iovec base_off totallen um =
     (if length sgs \<le> sl then None
      else
        (let sg = sgs ! sl; len = of_nat (length sg) :: u32;
             off = sg_offset len left_len;
             copy_len = min (len - off) (iov_len iovec - base_off)
         in if sint copy_len < 0 \<or> sint off < 0 then None
            else
              do { let (left, bytes) = copy_from_user (iov_base iovec + scast base_off) (unat copy_len) um;
                   sg1 \<leftarrow> wr_bytes sg (unat off) bytes;
                   let sgs1 = sgs[sl := sg1];
                   if left \<noteq> 0 then Some (Inl (- EFAULT), sgs1)
                   else
                     (let base_off1 = base_off + copy_len; off1 = off + copy_len;
                          totallen1 = totallen + copy_len;
                          left_len1 = len - off1 - (iov_len iovec - base_off1)
                      in if 0 < sint left_len1 then Some (Inr (j, sl, left_len1, totallen1), sgs1)
                         else if iov_len iovec \<le> base_off1 then Some (Inr (Suc j, Suc sl, 0, totallen1), sgs1)
                         else sg_from_iovec n sgs1 sl_first (Suc sl) (Suc j) 0 iovec base_off1 totallen1 um) }))"

fun sgs_from_iovecs ::
  "nat \<Rightarrow> byte list list \<Rightarrow> byte list \<Rightarrow> nat \<Rightarrow> nat \<Rightarrow> nat \<Rightarrow> u32 \<Rightarrow> u32 \<Rightarrow> umem \<Rightarrow>
   ((int + u32) \<times> byte list list) option" where
  "sgs_from_iovecs 0 sgs buf user sl_first sl_offset left_len totallen um = Some (Inr totallen, sgs)"
| "sgs_from_iovecs (Suc n) sgs buf user sl_first sl_offset left_len totallen um =
     (if sl_first < length sgs then
        do { iovec \<leftarrow> dec_iovec buf user;
             (r, sgs1) \<leftarrow> sg_from_iovec (length sgs - sl_offset) sgs sl_first sl_first 0 left_len iovec 0 totallen um;
             case r of
               Inl e \<Rightarrow> Some (Inl e, sgs1)
             | Inr (j, sl_first1, left_len1, totallen1) \<Rightarrow>
                 sgs_from_iovecs n sgs1 buf (user + 16) sl_first1 (sl_offset + j) left_len1 totallen1 um }
      else Some (Inr totallen, sgs))"

definition vsc_copy_sg_buff_from_iovec ::
  "scsi_cmnd \<Rightarrow> vsc_scsi_data \<Rightarrow> byte list \<Rightarrow> nat \<Rightarrow> umem \<Rightarrow> (int \<times> byte list list) option" where
  "vsc_copy_sg_buff_from_iovec sc scsi_data buf user um =
     (let sgs = sc_sglist sc; (sl, left_len) = seek_sg sgs 0 0 (sd_offset scsi_data) in
      if length sgs \<le> sl then Some (- EINVAL, sgs)
      else if sd_nr_iovec scsi_data = 0 then Some (- EINVAL, sgs)
      else
        (case cmnd sc of
           [] \<Rightarrow> None
         | op # _ \<Rightarrow>
             if vsc_is_readwrite_cmd op \<and> sc_bufflen sc \<noteq> sd_total_iovec_len scsi_data then Some (- EIO, sgs)
             else
               do { (r, sgs1) \<leftarrow> sgs_from_iovecs (unat (sd_nr_iovec scsi_data)) sgs buf user sl sl left_len 0 um;
                    case r of
                      Inl e \<Rightarrow> Some (e, sgs1)
                    | Inr totallen \<Rightarrow>
                        if vsc_is_readwrite_cmd op \<and> totallen \<noteq> sd_total_iovec_len scsi_data
                        then Some (- EIO, sgs1)
                        else Some (sint totallen, sgs1) }))"

end
