(* ===== verification/Vsc_CopySpec.thy ===== *)
theory Vsc_CopySpec
  imports Vsc_Copy
begin

text \<open>
  The copy loops implement a simple specification: \<open>scatter\<close> writes one stream of bytes to the
  \<open>iovec\<close>s one after the other. The stream of a scatter list is the rest of the current entry
  followed by the entries behind it.
\<close>

subsection \<open>Signed differences\<close>

lemma int_diff_31: "(a :: nat) < 2 ^ 31 \<Longrightarrow> b < 2 ^ 31 \<Longrightarrow>
    - (2 ^ 31) \<le> int a - int b \<and> int a - int b < 2 ^ 31"
  by simp

lemma step_diff: "(b :: nat) \<le> k \<Longrightarrow> f \<le> l \<Longrightarrow> c = min (l - f) (k - b) \<Longrightarrow>
    0 < int (l - (f + c)) - int (k - (b + c)) \<longleftrightarrow> k - b < l - f"
  by (auto simp: min_def)

lemma sint_diff:
  assumes "unat (u :: u32) < 2 ^ 31" "unat (v :: u32) < 2 ^ 31"
  shows "sint (u - v) = int (unat u) - int (unat v)"
proof -
  have "u - v = word_of_int (int (unat u) - int (unat v))"
    by simp
  moreover have "sint (word_of_int (int (unat u) - int (unat v)) :: u32) = int (unat u) - int (unat v)"
    using int_diff_31 [OF assms] by (intro c_int_small [unfolded c_int_def]) blast+
  ultimately show ?thesis by (simp only:)
qed

lemma sint_small: "unat (u :: u32) < 2 ^ 31 \<Longrightarrow> sint u = int (unat u)"
  using sint_diff [of u 0] by simp

lemma scast_small: "unat (u :: u32) < 2 ^ 31 \<Longrightarrow> (scast u :: u64) = of_nat (unat u)"
  using sint_small [of u] by (simp add: scast_eq)

lemma unat_diff: "unat (v :: u32) \<le> unat u \<Longrightarrow> unat (u - v) = unat u - unat v"
  by (simp add: unat_sub word_le_nat_alt)

lemma unat_plus_le:
  assumes "unat (u :: u32) + unat v \<le> unat (w :: u32)"
  shows "unat (u + v) = unat u + unat v"
proof -
  have "unat w < 2 ^ LENGTH(32)" by (rule unsigned_less)
  with assms have "unat u + unat v < 2 ^ LENGTH(32)" by (rule le_less_trans)
  then show ?thesis by (simp only: unat_plus_if' if_True)
qed

subsection \<open>The specification\<close>

fun scatter :: "vsc_iovec list \<Rightarrow> byte list \<Rightarrow> nat \<Rightarrow> umem \<Rightarrow> (int + nat) \<times> umem" where
  "scatter [] D t um = (Inr t, um)"
| "scatter (v # vs) D t um =
     (let k = unat (iov_len v); (left, um1) = copy_to_user (iov_base v) (take k D) um in
      if left \<noteq> 0 then (Inl (- EFAULT), um1)
      else scatter vs (drop k D) (t + length (take k D)) um1)"

definition sg_stream :: "byte list list \<Rightarrow> nat \<Rightarrow> u32 \<Rightarrow> byte list" where
  "sg_stream sgs sl left_len =
     (if sl < length sgs
      then drop (unat (sg_offset (of_nat (length (sgs ! sl))) left_len)) (sgs ! sl) @ concat (drop (Suc sl) sgs)
      else [])"

text \<open>The position of the outer loop: what is still to be copied is \<open>R\<close>.\<close>

definition sg_at :: "byte list list \<Rightarrow> nat \<Rightarrow> nat \<Rightarrow> u32 \<Rightarrow> byte list \<Rightarrow> bool" where
  "sg_at sgs sl_first sl_offset left_len R \<longleftrightarrow>
     (sl_first = sl_offset \<and> sl_first < length sgs \<and> R = sg_stream sgs sl_first left_len) \<or>
     (length sgs \<le> sl_offset \<and> R = [])"

definition sgs_small :: "byte list list \<Rightarrow> bool" where
  "sgs_small sgs \<longleftrightarrow> (\<forall>sg\<in>set sgs. length sg < 2 ^ 31)"

lemma sg_stream_0: "sg_stream sgs sl 0 = concat (drop sl sgs)"
  by (cases "sl < length sgs") (simp_all add: sg_stream_def sg_offset_def flip: Cons_nth_drop_Suc)

lemma sg_offset_le: "unat (sg_offset len left_len) \<le> unat len"
proof (cases "0 < sint left_len \<and> left_len \<le> len")
  case True
  then show ?thesis by (simp add: sg_offset_def unat_sub)
qed (auto simp: sg_offset_def)

lemma sg_offset_back:
  assumes "unat l = unat len - x" "x \<le> unat len" "0 < sint l"
  shows "unat (sg_offset len l) = x"
  using assms by (simp add: sg_offset_def word_le_nat_alt unat_diff)

text \<open>One step of the inner loop, in natural numbers.\<close>

lemma sg_step_words:
  assumes len: "unat len < 2 ^ 31" and o1: "unat off \<le> unat len"
    and iov: "unat iov < 2 ^ 31" and base: "unat base \<le> unat iov"
  defines "c \<equiv> min (len - off) (iov - base :: u32)"
  shows "unat c = min (unat len - unat off) (unat iov - unat base)"
    "\<not> sint c < 0" "\<not> sint off < 0"
    "unat (base + c) = unat base + unat c" "unat (off + c) = unat off + unat c"
    "0 < sint (len - (off + c) - (iov - (base + c))) \<longleftrightarrow> unat iov - unat base < unat len - unat off"
    "iov \<le> base + c \<longleftrightarrow> unat iov - unat base \<le> unat len - unat off"
proof -
  have d: "unat (len - off) = unat len - unat off" "unat (iov - base) = unat iov - unat base"
    using o1 base by (simp_all add: unat_diff)
  show c: "unat c = min (unat len - unat off) (unat iov - unat base)"
    by (simp add: c_def min_def word_le_nat_alt d)
  then have cl: "unat c \<le> unat len - unat off" "unat c \<le> unat iov - unat base" by simp_all
  then show "\<not> sint c < 0" "\<not> sint off < 0"
    using len o1 by (simp_all add: sint_small)
  show b: "unat (base + c) = unat base + unat c"
    using cl base by (intro unat_plus_le [of _ _ iov]) simp
  show f: "unat (off + c) = unat off + unat c"
    using cl o1 by (intro unat_plus_le [of _ _ len]) simp
  have "unat (len - (off + c)) = unat len - (unat off + unat c)"
    "unat (iov - (base + c)) = unat iov - (unat base + unat c)"
    using cl o1 base b f by (simp_all add: unat_diff)
  then have "sint (len - (off + c) - (iov - (base + c))) =
      int (unat len - (unat off + unat c)) - int (unat iov - (unat base + unat c))"
    using len iov by (subst sint_diff) simp_all
  then show "0 < sint (len - (off + c) - (iov - (base + c))) \<longleftrightarrow> unat iov - unat base < unat len - unat off"
    using step_diff [OF base o1 c] by (simp only:)
  show "iov \<le> base + c \<longleftrightarrow> unat iov - unat base \<le> unat len - unat off"
    using base unfolding word_le_nat_alt b c by auto
qed

lemma sg_partial:
  assumes len: "unat len < 2 ^ 31" and o1: "unat off \<le> unat len"
    and iov: "unat iov < 2 ^ 31" and base: "unat base \<le> unat iov"
    and less: "unat iov - unat base < unat len - unat off"
  defines "c \<equiv> min (len - off) (iov - base :: u32)"
  shows "unat (sg_offset len (len - (off + c) - (iov - (base + c)))) = unat off + (unat iov - unat base)"
proof -
  note w = sg_step_words [OF len o1 iov base, folded c_def]
  let ?l = "len - (off + c) - (iov - (base + c))" and ?K = "unat iov - unat base"
  have cK: "unat c = ?K" using w(1) less by simp
  then have "unat (base + c) = unat iov" using w(4) base by simp
  then have "base + c = iov" by (rule unsigned_word_eqI)
  then have l: "?l = len - (off + c)" by (simp only:) simp
  have fits: "unat (off + c) \<le> unat len" using w(5) cK less by simp
  then have "unat ?l = unat len - (unat off + ?K)"
    unfolding l unat_diff [OF fits] w(5) cK by (simp only:)
  moreover have "0 < sint ?l" using w(6) less by (simp only:)
  moreover have "unat off + ?K \<le> unat len" using fits w(5) cK by (simp only:)
  ultimately show ?thesis by (intro sg_offset_back)
qed

lemma sg_to_iovec_spec:
  assumes "sgs_small sgs" and "unat (iov_len v) < 2 ^ 31"
  shows "unat base_off \<le> unat (iov_len v) \<Longrightarrow> n = length sgs - sl \<Longrightarrow> sl = so + j \<Longrightarrow>
    (let R = sg_stream sgs sl left_len; K = unat (iov_len v) - unat base_off;
         (left, um1) = copy_to_user (iov_base v + of_nat (unat base_off)) (take K R) um in
     if left \<noteq> 0 then sg_to_iovec n sgs sl_first sl j left_len v base_off totallen um = Some (Inl (- EFAULT), um1)
     else \<exists>j' sl' left'.
       sg_to_iovec n sgs sl_first sl j left_len v base_off totallen um =
         Some (Inr (j', sl', left', totallen + of_nat (length (take K R))), um1) \<and>
       sg_at sgs sl' (so + j') left' (drop K R))"
proof (induction n arbitrary: sl j left_len base_off totallen um)
  case 0
  then show ?case by (simp add: sg_stream_def sg_at_def)
next
  case (Suc n)
  have sl: "sl < length sgs" using Suc.prems(2) by simp
  let ?sg = "sgs ! sl" and ?iov = "iov_len v"
  let ?len = "of_nat (length ?sg) :: u32"
  let ?off = "sg_offset ?len left_len"
  let ?c = "min (?len - ?off) (?iov - base_off)"
  let ?K = "unat ?iov - unat base_off" and ?rest = "concat (drop (Suc sl) sgs)"
  have "length ?sg < 2 ^ 31" using assms(1) sl by (simp add: sgs_small_def)
  then have ulen: "unat ?len = length ?sg" by (simp add: unat_of_nat take_bit_nat_eq_self)
  have len31: "unat ?len < 2 ^ 31" using \<open>length ?sg < 2 ^ 31\<close> ulen by simp
  note w = sg_step_words [OF len31 sg_offset_le assms(2) Suc.prems(1), of left_len]
  let ?rem = "length ?sg - unat ?off"
  have R: "sg_stream sgs sl left_len = drop (unat ?off) ?sg @ ?rest"
    using sl by (simp add: sg_stream_def)
  have uc: "unat ?c = min ?rem ?K" using w(1) ulen by simp
  have bytes: "rd_bytes ?sg (unat ?off) (unat ?c) = Some (take (unat ?c) (drop (unat ?off) ?sg))"
    using uc sg_offset_le [of ?len left_len] ulen by (simp add: rd_bytes_def)
  let ?bs = "take (unat ?c) (drop (unat ?off) ?sg)"
  have lbs: "length ?bs = unat ?c" using uc by simp
  have sc: "(scast base_off :: u64) = of_nat (unat base_off)"
    using Suc.prems(1) assms(2) by (intro scast_small) simp
  let ?a = "iov_base v + of_nat (unat base_off)"
  obtain left um1 where cp: "copy_to_user ?a ?bs um = (left, um1)" by fastforce
  have unfold: "sg_to_iovec (Suc n) sgs sl_first sl j left_len v base_off totallen um =
     (if left \<noteq> 0 then Some (Inl (- EFAULT), um1)
      else if ?K < ?rem
        then Some (Inr (j, sl, ?len - (?off + ?c) - (?iov - (base_off + ?c)), totallen + ?c), um1)
      else if ?K \<le> ?rem then Some (Inr (Suc j, Suc sl, 0, totallen + ?c), um1)
      else sg_to_iovec n sgs sl_first (Suc sl) (Suc j) 0 v (base_off + ?c) (totallen + ?c) um1)"
    using sl w(2,3,6,7) ulen bytes cp by (simp add: Let_def sc)
  show ?case
  proof (cases "?K \<le> ?rem")
    case True
    then have cK: "unat ?c = ?K" using uc by simp
    have tk: "take ?K (sg_stream sgs sl left_len) = ?bs" using True R cK by simp
    have tot: "totallen + of_nat (length ?bs) = totallen + ?c" using lbs by simp
    have "sg_at sgs sl (so + j) (?len - (?off + ?c) - (?iov - (base_off + ?c)))
            (drop ?K (sg_stream sgs sl left_len))" if "?K < ?rem"
    proof -
      let ?l = "?len - (?off + ?c) - (?iov - (base_off + ?c))"
      have "unat (sg_offset ?len ?l) = unat ?off + ?K"
        using that ulen by (intro sg_partial len31 sg_offset_le assms(2) Suc.prems(1)) (simp only:)
      then show ?thesis
        using sl Suc.prems(3) True by (simp add: sg_at_def sg_stream_def R add.commute)
    qed
    moreover have "sg_at sgs (Suc sl) (so + Suc j) 0 (drop ?K (sg_stream sgs sl left_len))" if "?K = ?rem"
    proof -
      have "drop ?K (sg_stream sgs sl left_len) = ?rest" unfolding R using that by simp
      then show ?thesis
        using Suc.prems(3) sg_stream_0 [of sgs "Suc sl"] unfolding sg_at_def
        by (cases "Suc sl < length sgs") (simp_all only: add_Suc_right simp_thms not_less drop_all concat.simps)
    qed
    ultimately show ?thesis
      using True cp tot by (simp only: unfold tk Let_def prod.case) auto
  next
    case False
    then have cr: "unat ?c = ?rem" using uc by simp
    have base: "unat (base_off + ?c) = unat base_off + ?rem" using w(4) cr by simp
    let ?K' = "unat ?iov - unat (base_off + ?c)"
    have K': "?K = ?rem + ?K'" using False base by simp
    have bsall: "?bs = drop (unat ?off) ?sg" using cr by simp
    have next_stream: "sg_stream sgs (Suc sl) 0 = ?rest" by (rule sg_stream_0)
    have tk: "take ?K (sg_stream sgs sl left_len) = ?bs @ take ?K' ?rest"
      unfolding R K' bsall by simp
    have dr: "drop ?K (sg_stream sgs sl left_len) = drop ?K' ?rest"
      unfolding R K' by simp
    have addr: "?a + of_nat (length ?bs) = iov_base v + of_nat (unat (base_off + ?c))"
      using base lbs cr by (simp add: add.assoc)
    have tot: "totallen + of_nat (length (?bs @ take ?K' ?rest)) =
        totallen + ?c + of_nat (length (take ?K' ?rest))"
      using lbs by (simp add: add.assoc)
    have prems: "unat (base_off + ?c) \<le> unat ?iov" "n = length sgs - Suc sl" "Suc sl = so + Suc j"
      using base False Suc.prems(2,3) by simp_all
    have IH: "let (left, um2) = copy_to_user (iov_base v + of_nat (unat (base_off + ?c))) (take ?K' ?rest) um1 in
     if left \<noteq> 0 then sg_to_iovec n sgs sl_first (Suc sl) (Suc j) 0 v (base_off + ?c) (totallen + ?c) um1 =
         Some (Inl (- EFAULT), um2)
     else \<exists>j' sl' left'.
       sg_to_iovec n sgs sl_first (Suc sl) (Suc j) 0 v (base_off + ?c) (totallen + ?c) um1 =
         Some (Inr (j', sl', left', totallen + ?c + of_nat (length (take ?K' ?rest))), um2) \<and>
       sg_at sgs sl' (so + j') left' (drop ?K' ?rest)"
      using Suc.IH [OF prems, where left_len = 0 and totallen = "totallen + ?c" and um = um1]
      unfolding next_stream Let_def .
    have nK: "\<not> ?K < ?rem" "\<not> ?K \<le> ?rem" using False by simp_all
    show ?thesis
    proof (cases "left = 0")
      case True
      obtain left2 um2 where cp2: "copy_to_user (iov_base v + of_nat (unat (base_off + ?c))) (take ?K' ?rest) um1 = (left2, um2)"
        by fastforce
      have "copy_to_user ?a (?bs @ take ?K' ?rest) um = (left2, um2)"
        unfolding copy_to_user_append cp Let_def prod.case addr cp2 using True by simp
      then show ?thesis
        using IH True unfolding unfold tk dr Let_def tot cp2 prod.case
        by (simp only: nK if_False simp_thms prod.case)
    next
      case False
      have "copy_to_user ?a (?bs @ take ?K' ?rest) um = (left + length (take ?K' ?rest), um1)"
        unfolding copy_to_user_append cp Let_def prod.case using False by simp
      then show ?thesis
        unfolding unfold tk Let_def using False by simp
    qed
  qed
qed

subsection \<open>All \<open>iovec\<close>s\<close>

lemma scatter_Nil [simp]: "scatter vs [] t um = (Inr t, um)"
  by (induction vs arbitrary: t) simp_all

definition iovecs_at :: "byte list \<Rightarrow> nat \<Rightarrow> vsc_iovec list \<Rightarrow> bool" where
  "iovecs_at buf user vs \<longleftrightarrow>
     (\<forall>i<length vs. dec_iovec buf (user + 16 * i) = Some (vs ! i) \<and> unat (iov_len (vs ! i)) < 2 ^ 31)"

lemma iovecs_at_Cons:
  "iovecs_at buf user (v # vs) \<longleftrightarrow>
     dec_iovec buf user = Some v \<and> unat (iov_len v) < 2 ^ 31 \<and> iovecs_at buf (user + 16) vs"
  by (auto simp: iovecs_at_def less_Suc_eq_0_disj algebra_simps)

lemma sgs_to_iovecs_spec:
  assumes "sgs_small sgs"
  shows "iovecs_at buf user vs \<Longrightarrow> sg_at sgs sl so left_len R \<Longrightarrow>
    sgs_to_iovecs (length vs) sgs buf user sl so left_len (of_nat t) um =
      Some (map_prod (map_sum id of_nat) id (scatter vs R t um))"
proof (induction vs arbitrary: user sl so left_len R t um)
  case (Cons v vs)
  from Cons.prems(1) have v: "dec_iovec buf user = Some v" "unat (iov_len v) < 2 ^ 31" "iovecs_at buf (user + 16) vs"
    by (simp_all add: iovecs_at_Cons)
  show ?case
  proof (cases "length sgs \<le> so")
    case True
    with Cons.prems(2) have R: "R = []" by (auto simp: sg_at_def)
    then have "sg_at sgs sl so left_len []" using Cons.prems(2) by simp
    from Cons.IH [OF v(3) this, of t um] show ?thesis using True v(1) R by simp
  next
    case False
    with Cons.prems(2) have so: "sl = so" "sl < length sgs" "R = sg_stream sgs sl left_len"
      by (auto simp: sg_at_def)
    obtain left um1 where cp: "copy_to_user (iov_base v) (take (unat (iov_len v)) R) um = (left, um1)"
      by fastforce
    have "if left \<noteq> 0 then sg_to_iovec (length sgs - so) sgs sl sl 0 left_len v 0 (of_nat t) um = Some (Inl (- EFAULT), um1)
     else \<exists>j' sl' left'.
       sg_to_iovec (length sgs - so) sgs sl sl 0 left_len v 0 (of_nat t) um =
         Some (Inr (j', sl', left', of_nat t + of_nat (length (take (unat (iov_len v)) R))), um1) \<and>
       sg_at sgs sl' (so + j') left' (drop (unat (iov_len v)) R)"
      using sg_to_iovec_spec [OF assms v(2), of 0 "length sgs - so" so so 0 left_len um sl "of_nat t"]
      using cp so by (simp add: Let_def del: length_take split: if_splits)
    then show ?thesis
    proof (cases "left = 0")
      case True
      with \<open>if left \<noteq> 0 then _ else _\<close> obtain j' sl' left' where
        r: "sg_to_iovec (length sgs - so) sgs sl sl 0 left_len v 0 (of_nat t) um =
          Some (Inr (j', sl', left', of_nat (t + length (take (unat (iov_len v)) R))), um1)"
        and at: "sg_at sgs sl' (so + j') left' (drop (unat (iov_len v)) R)"
        by auto
      show ?thesis
        using so(2) v(1) r cp True Cons.IH [OF v(3) at, of "t + length (take (unat (iov_len v)) R)" um1]
        by (simp add: Let_def del: length_take of_nat_add)
    qed (use so(2) v(1) cp in simp)
  qed
qed simp

subsection \<open>The first entry\<close>

lemma unat_plus_of_nat: "unat (s :: u32) + n < 2 ^ 32 \<Longrightarrow> unat (s + of_nat n) = unat s + n"
  by (simp add: unat_word_ariths unat_of_nat take_bit_nat_eq_self mod_simps)

lemma seek_sg_found:
  assumes "unat seek \<le> unat offset" "unat offset < unat seek + length (concat sgs)"
    "unat seek + length (concat sgs) < 2 ^ 32"
  obtains k left where "seek_sg sgs j seek offset = (j + k, left)" "k < length sgs"
    "0 < unat left" "unat left \<le> length (sgs ! k)"
    "drop (unat offset - unat seek) (concat sgs) =
       drop (length (sgs ! k) - unat left) (sgs ! k) @ concat (drop (Suc k) sgs)"
  using assms
proof (induction sgs arbitrary: j seek thesis)
  case (Cons sg sgs)
  let ?seek = "seek + of_nat (length sg)"
  have s: "unat ?seek = unat seek + length sg"
    using Cons.prems(4) by (intro unat_plus_of_nat) simp
  show ?case
  proof (cases "offset < ?seek")
    case True
    then have "unat offset < unat seek + length sg" by (simp add: word_less_nat_alt s)
    moreover have "unat (?seek - offset) = unat seek + length sg - unat offset"
      using True unat_diff [of offset ?seek] by (simp add: word_less_nat_alt s)
    ultimately show ?thesis
      using Cons.prems(1) [of 0 "?seek - offset"] True Cons.prems(2) by simp
  next
    case False
    then have le: "unat seek + length sg \<le> unat offset" by (simp add: word_less_nat_alt s)
    obtain k left where k: "seek_sg sgs (Suc j) ?seek offset = (Suc j + k, left)" "k < length sgs"
      "0 < unat left" "unat left \<le> length (sgs ! k)"
      "drop (unat offset - unat ?seek) (concat sgs) =
         drop (length (sgs ! k) - unat left) (sgs ! k) @ concat (drop (Suc k) sgs)"
      using Cons.IH [of "Suc j" ?seek] Cons.prems(3,4) le s by auto
    show ?thesis
      using Cons.prems(1) [of "Suc k" left] k False le s by simp
  qed
qed simp

lemma seek_sg_none:
  assumes "unat seek + length (concat sgs) \<le> unat offset"
  shows "seek_sg sgs j seek offset = (j + length sgs, 0)"
  using assms
proof (induction sgs arbitrary: j seek)
  case (Cons sg sgs)
  have "unat offset < 2 ^ LENGTH(32)" by (rule unsigned_less)
  then have s: "unat (seek + of_nat (length sg)) = unat seek + length sg"
    using Cons.prems by (intro unat_plus_of_nat) simp
  then have "\<not> offset < seek + of_nat (length sg)"
    using Cons.prems by (simp add: word_less_nat_alt)
  then show ?case using Cons.IH [of "seek + of_nat (length sg)" "Suc j"] Cons.prems s by simp
qed simp

lemma small_sgs: "length (concat sgs) < 2 ^ 31 \<Longrightarrow> sgs_small sgs"
  unfolding sgs_small_def length_concat
  using member_le_sum_list [of _ "map length sgs"] by fastforce

lemma seek_sg_at:
  assumes small: "length (concat sgs) < 2 ^ 31" and "unat offset < length (concat sgs)"
  obtains sl left where "seek_sg sgs 0 0 offset = (sl, left)" "sl < length sgs"
    "sg_at sgs sl sl left (drop (unat offset) (concat sgs))"
proof -
  obtain k left where k: "seek_sg sgs 0 0 offset = (0 + k, left)" "k < length sgs"
    "0 < unat left" "unat left \<le> length (sgs ! k)"
    "drop (unat offset - unat (0 :: u32)) (concat sgs) =
       drop (length (sgs ! k) - unat left) (sgs ! k) @ concat (drop (Suc k) sgs)"
    by (rule seek_sg_found [of 0 offset sgs 0]) (use assms in simp_all)
  have "length (sgs ! k) < 2 ^ 31"
    using small_sgs [OF small] k(2) by (simp add: sgs_small_def)
  then have u: "unat (of_nat (length (sgs ! k)) :: u32) = length (sgs ! k)"
    by (simp add: unat_of_nat take_bit_nat_eq_self)
  have "unat left < 2 ^ 31" using k(4) \<open>length (sgs ! k) < 2 ^ 31\<close> by simp
  then have "0 < sint left" using k(3) by (simp only: sint_small of_nat_0_less_iff)
  then have "unat (sg_offset (of_nat (length (sgs ! k))) left) = length (sgs ! k) - unat left"
    using u k(4) by (intro sg_offset_back) simp_all
  then have "sg_at sgs k k left (drop (unat offset) (concat sgs))"
    using k(2,5) by (simp add: sg_at_def sg_stream_def)
  then show thesis using k(1,2) that by simp
qed

subsection \<open>Properties\<close>

definition iov_total :: "vsc_iovec list \<Rightarrow> nat" where
  "iov_total vs = sum_list (map (\<lambda>v. unat (iov_len v)) vs)"

lemma scatter_total:
  "fst (scatter vs D t um) = Inr t' \<Longrightarrow> t' = t + min (length D) (iov_total vs)"
  by (induction vs arbitrary: D t um) (force simp: iov_total_def Let_def split: prod.splits if_splits)+

lemma scatter_error: "fst (scatter vs D t um) = Inl e \<Longrightarrow> e = - EFAULT"
  by (induction vs arbitrary: D t um) (auto simp: Let_def split: prod.splits if_splits)

text \<open>
  (C19) A read command's data reach the target: when the request's offset lies within the data of
  the command and its \<open>iovec\<close>s are in the request buffer, \<open>vsc_copy_sg_buff_to_iovec\<close> never
  leaves a kernel object, and its effect on user memory is to write the bytes of the scatter list from the
  offset on, as one stream, to the \<open>iovec\<close>s in their order. It returns the number of bytes, or
  \<open>-EFAULT\<close> at the first address that is not mapped; a READ or WRITE command whose
  byte count is not the announced one gets \<open>-EIO\<close>.
\<close>
theorem sg_buff_to_iovec_scatters:
  assumes "length (concat (sc_sglist sc)) < 2 ^ 31" "unat (sd_offset sd) < length (concat (sc_sglist sc))"
    and "iovecs_at buf user vs" "length vs = unat (sd_nr_iovec sd)" "vs \<noteq> []"
    and "cmnd sc = op # rest" "vsc_is_readwrite_cmd op \<Longrightarrow> sc_bufflen sc = sd_total_iovec_len sd"
  shows "vsc_copy_sg_buff_to_iovec sc sd buf user um =
    (case scatter vs (drop (unat (sd_offset sd)) (concat (sc_sglist sc))) 0 um of
       (Inl e, um1) \<Rightarrow> Some (- EFAULT, um1)
     | (Inr t, um1) \<Rightarrow>
         Some (if vsc_is_readwrite_cmd op \<and> t \<noteq> unat (sd_total_iovec_len sd) then - EIO else int t, um1))"
proof -
  let ?sgs = "sc_sglist sc" and ?D = "drop (unat (sd_offset sd)) (concat (sc_sglist sc))"
  obtain sl left where sl: "seek_sg ?sgs 0 0 (sd_offset sd) = (sl, left)" "sl < length ?sgs"
    "sg_at ?sgs sl sl left ?D"
    using seek_sg_at [OF assms(1,2)] .
  have nr: "sd_nr_iovec sd \<noteq> 0" using assms(4,5) by auto
  have chk: "\<not> (vsc_is_readwrite_cmd op \<and> sc_bufflen sc \<noteq> sd_total_iovec_len sd)" using assms(7) by blast
  have run: "sgs_to_iovecs (unat (sd_nr_iovec sd)) ?sgs buf user sl sl left 0 um =
      Some (map_prod (map_sum id of_nat) id (scatter vs ?D 0 um))"
    using sgs_to_iovecs_spec [OF small_sgs [OF assms(1)] assms(3) sl(3), of 0 um] assms(4) by simp
  obtain r um1 where r: "scatter vs ?D 0 um = (r, um1)" by fastforce
  show ?thesis
  proof (cases r)
    case (Inl e)
    then have "e = - EFAULT" using scatter_error [of vs ?D 0 um e] r by simp
    then show ?thesis using sl run r Inl nr assms(6) chk by (simp add: vsc_copy_sg_buff_to_iovec_def del: de_Morgan_conj)
  next
    case (Inr t)
    then have "t \<le> length ?D" using scatter_total [of vs ?D 0 um t] r by simp
    then have t: "t < 2 ^ 31" using assms(1) by simp
    then have u: "unat (of_nat t :: u32) = t" by (rule unat_of_nat_u32)
    then have "sint (of_nat t :: u32) = int t" using t by (simp only: sint_small)
    moreover have "of_nat t = sd_total_iovec_len sd \<longleftrightarrow> t = unat (sd_total_iovec_len sd)"
      using u by auto
    ultimately show ?thesis
      using sl run r Inr nr assms(6) chk by (simp add: vsc_copy_sg_buff_to_iovec_def del: de_Morgan_conj)
  qed
qed

definition example_iovecs :: "vsc_iovec list" where
  "example_iovecs = [\<lparr>iov_base = 100, iov_len = 3\<rparr>, \<lparr>iov_base = 200, iov_len = 8\<rparr>]"

definition example_iovec_buf :: "byte list" where
  "example_iovec_buf = concat (map enc_iovec example_iovecs)"

lemma example_iovecs_at: "iovecs_at example_iovec_buf 0 example_iovecs"
  unfolding iovecs_at_def
proof (intro allI impI conjI)
  fix i assume i: "i < length example_iovecs"
  then show "dec_iovec example_iovec_buf (0 + 16 * i) = Some (example_iovecs ! i)"
    using iov.dec_array [OF i, of "[]" "[]"] by (simp add: example_iovec_buf_def mult.commute)
  show "unat (iov_len (example_iovecs ! i)) < 2 ^ 31"
    using i by (auto simp: example_iovecs_def less_Suc_eq)
qed

definition example_sd :: vsc_scsi_data where
  "example_sd = \<lparr>sd_data_type = 0, sd_data_len = 0, sd_nr_iovec = 2, sd_total_iovec_len = 4, sd_offset = 1\<rparr>"

theorem sg_buff_to_iovec_scatters_witness:
  "\<exists>um. vsc_copy_sg_buff_to_iovec (example_scmd\<lparr>sc_sglist := [[1, 2], [3, 4, 5]], sc_bufflen := 4\<rparr>)
          example_sd example_iovec_buf 0 (\<lambda>_. Some 0) = Some (4, um) \<and>
        um 100 = Some 2 \<and> um 102 = Some 4 \<and> um 200 = Some 5"
  by (subst sg_buff_to_iovec_scatters [where vs = example_iovecs and op = 40 and rest = "replicate 9 0"])
    (simp_all add: example_iovecs_at example_sd_def, simp_all add: example_iovecs_def Let_def poke_def
      example_sd_def vsc_is_readwrite_cmd_def)

subsection \<open>The other direction\<close>

text \<open>
  The bytes taken from the \<open>iovec\<close>s form one stream too, of at most \<open>n\<close> bytes; it is laid over the
  data of the command.
\<close>

fun gather :: "vsc_iovec list \<Rightarrow> nat \<Rightarrow> umem \<Rightarrow> byte list" where
  "gather [] n um = []"
| "gather (v # vs) n um =
     (let k = min (unat (iov_len v)) n in ubytes (iov_base v) k um @ gather vs (n - k) um)"

fun gather_mapped :: "vsc_iovec list \<Rightarrow> nat \<Rightarrow> umem \<Rightarrow> bool" where
  "gather_mapped [] n um \<longleftrightarrow> True"
| "gather_mapped (v # vs) n um \<longleftrightarrow>
     (let k = min (unat (iov_len v)) n in mapped (iov_base v) k um \<and> gather_mapped vs (n - k) um)"

definition overlay :: "nat \<Rightarrow> 'a list \<Rightarrow> 'a list \<Rightarrow> 'a list" where
  "overlay p bs xs = take p xs @ bs @ drop (p + length bs) xs"

lemma overlay_Nil [simp]: "overlay p [] xs = xs"
  by (simp add: overlay_def)

lemma length_overlay: "p + length bs \<le> length xs \<Longrightarrow> length (overlay p bs xs) = length xs"
  by (simp add: overlay_def)

lemma overlay_overlay:
  "p + length as + length bs \<le> length xs \<Longrightarrow>
   overlay (p + length as) bs (overlay p as xs) = overlay p (as @ bs) xs"
  by (simp add: overlay_def ac_simps)

lemma overlay_inner:
  "p + length bs \<le> length xs \<Longrightarrow> overlay (length as + p) bs (as @ xs @ cs) = as @ overlay p bs xs @ cs"
  by (simp add: overlay_def)

lemma wr_bytes_overlay: "off + length bs \<le> length xs \<Longrightarrow> wr_bytes xs off bs = Some (overlay off bs xs)"
  by (simp add: wr_bytes_def overlay_def)

lemma length_gather: "length (gather vs n um) = min n (iov_total vs)"
  by (induction vs arbitrary: n) (auto simp: iov_total_def Let_def)

lemma concat_split: "i < length xss \<Longrightarrow> concat xss = concat (take i xss) @ xss ! i @ concat (drop (Suc i) xss)"
  by (metis concat.simps(2) concat_append id_take_nth_drop append.assoc)

lemma concat_update:
  "i < length xss \<Longrightarrow> concat (xss[i := ys]) = concat (take i xss) @ ys @ concat (drop (Suc i) xss)"
  by (simp add: upd_conv_take_nth_drop)

lemma mapped_le: "mapped a n um \<Longrightarrow> m \<le> n \<Longrightarrow> mapped a m um"
  by (simp add: mapped_def)

lemma min_shift: "(r :: nat) \<le> k - b \<Longrightarrow> min (k - b) (r + l) = r + min (k - (b + r)) l"
  by arith

lemma sgs_small_map: "sgs_small sgs \<longleftrightarrow> (\<forall>l\<in>set (map length sgs). l < 2 ^ 31)"
  by (auto simp: sgs_small_def)

lemma sg_from_iovec_spec:
  assumes "unat (iov_len v) < 2 ^ 31"
  shows "sgs_small sgs \<Longrightarrow> unat base_off \<le> unat (iov_len v) \<Longrightarrow> n = length sgs - sl \<Longrightarrow> sl = so + j \<Longrightarrow>
    R = sg_stream sgs sl left_len \<Longrightarrow> K = min (unat (iov_len v) - unat base_off) (length R) \<Longrightarrow>
    mapped (iov_base v + of_nat (unat base_off)) K um \<Longrightarrow>
    \<exists>j' sl' left' sgs'.
       sg_from_iovec n sgs sl_first sl j left_len v base_off totallen um =
         Some (Inr (j', sl', left', totallen + of_nat K), sgs') \<and>
       map length sgs' = map length sgs \<and>
       concat sgs' = overlay (length (concat sgs) - length R)
         (ubytes (iov_base v + of_nat (unat base_off)) K um) (concat sgs) \<and>
       sg_at sgs' sl' (so + j') left' (drop K R)"
proof (induction n arbitrary: sgs sl j left_len base_off totallen R K)
  case 0
  then show ?case by (simp add: sg_stream_def sg_at_def ubytes_def)
next
  case (Suc n)
  have sl: "sl < length sgs" using Suc.prems(3) by simp
  let ?sg = "sgs ! sl" and ?iov = "iov_len v"
  let ?len = "of_nat (length ?sg) :: u32"
  let ?off = "sg_offset ?len left_len"
  let ?c = "min (?len - ?off) (?iov - base_off)"
  let ?K = "unat ?iov - unat base_off" and ?rest = "concat (drop (Suc sl) sgs)"
  have "length ?sg < 2 ^ 31" using Suc.prems(1) sl by (simp add: sgs_small_def)
  then have ulen: "unat ?len = length ?sg" by (simp add: unat_of_nat take_bit_nat_eq_self)
  have len31: "unat ?len < 2 ^ 31" using \<open>length ?sg < 2 ^ 31\<close> ulen by simp
  note w = sg_step_words [OF len31 sg_offset_le assms(1) Suc.prems(2), of left_len]
  let ?rem = "length ?sg - unat ?off"
  have off: "unat ?off \<le> length ?sg" using sg_offset_le [of ?len left_len] ulen by simp
  have R: "R = drop (unat ?off) ?sg @ ?rest" using sl Suc.prems(5) by (simp add: sg_stream_def)
  have uc: "unat ?c = min ?rem ?K" using w(1) ulen by simp
  let ?a = "iov_base v + of_nat (unat base_off)"
  let ?bs = "ubytes ?a (unat ?c) um"
  let ?sg1 = "overlay (unat ?off) ?bs ?sg"
  let ?sgs1 = "sgs[sl := ?sg1]" and ?p = "length (concat sgs) - length R"
  have fit: "unat ?off + length ?bs \<le> length ?sg" using uc off by simp
  have cK: "unat ?c \<le> K" unfolding uc Suc.prems(6) R length_append length_drop by linarith
  have ma: "mapped ?a (unat ?c) um"
    using Suc.prems(7) cK by (rule mapped_le)
  have p: "?p = length (concat (take sl sgs)) + unat ?off"
    using R off by (subst concat_split [OF sl]) simp
  have c1: "concat ?sgs1 = overlay ?p ?bs (concat sgs)"
    unfolding concat_update [OF sl] p
    by (subst concat_split [OF sl]) (rule overlay_inner [OF fit, symmetric])
  have len1: "map length ?sgs1 = map length sgs"
    using length_overlay [OF fit] by (simp add: map_update list_update_same_conv sl)
  have drop1: "drop (unat ?off + length ?bs) ?sg1 = drop (unat ?off + length ?bs) ?sg"
    using fit by (simp add: overlay_def)
  have sc: "(scast base_off :: u64) = of_nat (unat base_off)"
    using Suc.prems(2) assms by (intro scast_small) simp
  have unfold: "sg_from_iovec (Suc n) sgs sl_first sl j left_len v base_off totallen um =
     (if ?K < ?rem
        then Some (Inr (j, sl, ?len - (?off + ?c) - (?iov - (base_off + ?c)), totallen + ?c), ?sgs1)
      else if ?K \<le> ?rem then Some (Inr (Suc j, Suc sl, 0, totallen + ?c), ?sgs1)
      else sg_from_iovec n ?sgs1 sl_first (Suc sl) (Suc j) 0 v (base_off + ?c) (totallen + ?c) um)"
    using sl w(2,3,6,7) ulen copy_from_user_eq(3) [OF ma] wr_bytes_overlay [OF fit] by (simp add: Let_def sc)
  show ?case
  proof (cases "?K \<le> ?rem")
    case True
    then have K: "K = ?K" "unat ?c = ?K" using uc Suc.prems(6) R by simp_all
    have tot: "totallen + of_nat K = totallen + ?c" unfolding K(1) K(2) [symmetric] by simp
    have "sg_at ?sgs1 sl (so + j) (?len - (?off + ?c) - (?iov - (base_off + ?c))) (drop K R)" if "?K < ?rem"
    proof -
      let ?l = "?len - (?off + ?c) - (?iov - (base_off + ?c))"
      have "unat (sg_offset ?len ?l) = unat ?off + ?K"
        using that ulen by (intro sg_partial len31 sg_offset_le assms Suc.prems(2)) (simp only:)
      then show ?thesis
        using sl Suc.prems(4) True drop1 K length_overlay [OF fit]
        by (simp add: sg_at_def sg_stream_def R add.commute)
    qed
    moreover have "sg_at ?sgs1 (Suc sl) (so + Suc j) 0 (drop K R)" if "?K = ?rem"
    proof -
      have "drop K R = ?rest" unfolding R K using that by simp
      then show ?thesis
        using Suc.prems(4) sg_stream_0 [of ?sgs1 "Suc sl"] unfolding sg_at_def
        by (cases "Suc sl < length sgs") simp_all
    qed
    ultimately show ?thesis
      unfolding unfold tot using True c1 len1 K by (cases "?K < ?rem") auto
  next
    case False
    then have cr: "unat ?c = ?rem" using uc by simp
    have base: "unat (base_off + ?c) = unat base_off + ?rem" using w(4) cr by simp
    let ?K' = "min (unat ?iov - unat (base_off + ?c)) (length ?rest)"
    have K: "K = unat ?c + ?K'"
      unfolding base cr Suc.prems(6) R length_append length_drop using False by (intro min_shift) simp
    have small1: "sgs_small ?sgs1"
      using Suc.prems(1) unfolding sgs_small_map len1 .
    have a: "iov_base v + of_nat (unat (base_off + ?c)) = ?a + of_nat (unat ?c)"
      using base cr by (simp add: add.assoc)
    have prems: "unat (base_off + ?c) \<le> unat ?iov" "n = length ?sgs1 - Suc sl" "Suc sl = so + Suc j"
      "?rest = sg_stream ?sgs1 (Suc sl) 0"
      using base False Suc.prems(3,4) by (simp_all add: sg_stream_0)
    have "mapped (iov_base v + of_nat (unat (base_off + ?c))) ?K' um"
      using Suc.prems(7) unfolding K mapped_append a by simp
    from Suc.IH [OF small1 prems refl this, of "totallen + ?c"] obtain j' sl' left' sgs' where
      r: "sg_from_iovec n ?sgs1 sl_first (Suc sl) (Suc j) 0 v (base_off + ?c) (totallen + ?c) um =
         Some (Inr (j', sl', left', totallen + ?c + of_nat ?K'), sgs')"
      and l: "map length sgs' = map length ?sgs1"
      and c2: "concat sgs' = overlay (length (concat ?sgs1) - length ?rest)
         (ubytes (?a + of_nat (unat ?c)) ?K' um) (concat ?sgs1)"
      and at: "sg_at sgs' sl' (so + j') left' (drop ?K' ?rest)"
      unfolding a by blast
    have "length (concat ?sgs1) - length ?rest = ?p + length ?bs"
      unfolding p concat_update [OF sl] using length_overlay [OF fit] cr off by simp
    moreover have "?p + length ?bs + ?K' \<le> length (concat sgs)"
      unfolding p by (subst concat_split [OF sl]) (use fit in simp)
    ultimately have "concat sgs' = overlay ?p (ubytes ?a K um) (concat sgs)"
      unfolding c2 c1 K ubytes_append
      using overlay_overlay [of ?p ?bs "ubytes (?a + of_nat (unat ?c)) ?K' um" "concat sgs"] by simp
    moreover have "totallen + ?c + of_nat ?K' = totallen + of_nat K"
      unfolding K by (simp add: add.assoc)
    moreover have "drop ?K' ?rest = drop K R" unfolding K R cr by simp
    ultimately show ?thesis
      unfolding unfold using False r l len1 at by auto
  qed
qed

lemma gather_0 [simp]: "gather vs 0 um = []"
  using length_gather [of vs 0 um] by simp

lemma sgs_from_iovecs_spec:
  shows "sgs_small sgs \<Longrightarrow> iovecs_at buf user vs \<Longrightarrow> sg_at sgs sl so left_len R \<Longrightarrow> gather_mapped vs (length R) um \<Longrightarrow>
    length R \<le> length (concat sgs) \<Longrightarrow>
    \<exists>sgs'. sgs_from_iovecs (length vs) sgs buf user sl so left_len totallen um =
        Some (Inr (totallen + of_nat (length (gather vs (length R) um))), sgs') \<and>
      map length sgs' = map length sgs \<and>
      concat sgs' = overlay (length (concat sgs) - length R) (gather vs (length R) um) (concat sgs)"
proof (induction vs arbitrary: sgs user sl so left_len R totallen)
  case (Cons v vs)
  from Cons.prems(2) have v: "dec_iovec buf user = Some v" "unat (iov_len v) < 2 ^ 31" "iovecs_at buf (user + 16) vs"
    by (simp_all add: iovecs_at_Cons)
  show ?case
  proof (cases "length sgs \<le> so")
    case True
    with Cons.prems(3) have R: "R = []" by (auto simp: sg_at_def)
    then have "sg_at sgs sl so left_len []" using Cons.prems(3) by simp
    from Cons.IH [OF Cons.prems(1) v(3) this] show ?thesis
      using True v(1) R Cons.prems(4) by (simp add: ubytes_def)
  next
    case False
    with Cons.prems(3) have so: "sl = so" "so < length sgs" "R = sg_stream sgs so left_len"
      by (auto simp: sg_at_def)
    let ?K = "min (unat (iov_len v)) (length R)"
    have m: "mapped (iov_base v + of_nat (unat (0 :: u32))) ?K um"
      and gm: "gather_mapped vs (length R - ?K) um"
      using Cons.prems(4) by (simp_all add: Let_def)
    have pre: "unat (0 :: u32) \<le> unat (iov_len v)" "so = so + 0"
      "?K = min (unat (iov_len v) - unat (0 :: u32)) (length R)" by simp_all
    from sg_from_iovec_spec [OF v(2) Cons.prems(1) pre(1) refl pre(2) so(3) pre(3) m, of so totallen]
    obtain j' sl' left' sgs1 where
      r: "sg_from_iovec (length sgs - so) sgs so so 0 left_len v 0 totallen um =
         Some (Inr (j', sl', left', totallen + of_nat ?K), sgs1)"
      and l: "map length sgs1 = map length sgs"
      and c: "concat sgs1 = overlay (length (concat sgs) - length R) (ubytes (iov_base v) ?K um) (concat sgs)"
      and at: "sg_at sgs1 sl' (so + j') left' (drop ?K R)"
      by auto
    have lc: "length (concat sgs1) = length (concat sgs)" unfolding length_concat l ..
    have small: "sgs_small sgs1" using Cons.prems(1) unfolding sgs_small_map l .
    have "gather_mapped vs (length (drop ?K R)) um" "length (drop ?K R) \<le> length (concat sgs1)"
      using gm Cons.prems(5) unfolding lc by simp_all
    from Cons.IH [OF small v(3) at this, of "totallen + of_nat ?K"] obtain sgs' where
      r2: "sgs_from_iovecs (length vs) sgs1 buf (user + 16) sl' (so + j') left' (totallen + of_nat ?K) um =
        Some (Inr (totallen + of_nat ?K + of_nat (length (gather vs (length R - ?K) um))), sgs')"
      and l2: "map length sgs' = map length sgs1"
      and c2: "concat sgs' = overlay (length (concat sgs1) - (length R - ?K)) (gather vs (length R - ?K) um) (concat sgs1)"
      by (auto simp del: gather.simps)
    have g: "gather (v # vs) (length R) um = ubytes (iov_base v) ?K um @ gather vs (length R - ?K) um"
      by (simp add: Let_def)
    have "length (concat sgs1) - (length R - ?K) = length (concat sgs) - length R + length (ubytes (iov_base v) ?K um)"
      using Cons.prems(5) unfolding lc by simp
    moreover have "length (concat sgs) - length R + length (ubytes (iov_base v) ?K um) +
        length (gather vs (length R - ?K) um) \<le> length (concat sgs)"
      using Cons.prems(5) by (simp add: length_gather)
    ultimately have "concat sgs' = overlay (length (concat sgs) - length R) (gather (v # vs) (length R) um) (concat sgs)"
      unfolding c2 c g by (simp only: overlay_overlay)
    moreover have "totallen + of_nat ?K + of_nat (length (gather vs (length R - ?K) um)) =
        totallen + of_nat (length (gather (v # vs) (length R) um))"
      unfolding g by (simp add: add.assoc)
    ultimately show ?thesis
      using so v(1) r r2 l l2 by (simp del: gather.simps)
  qed
qed simp

text \<open>
  (C20) A write command's data come from the target: under the same conditions, and with the bytes to
  copy mapped, \<open>vsc_copy_sg_buff_from_iovec\<close> lays the bytes of the \<open>iovec\<close>s, as one stream, over
  the data of the command from the offset on. Bytes before the offset and behind the stream keep
  their values, the entries of the scatter list keep their sizes, and the number of bytes copied
  is the lesser of the bytes left in the list and the sum of the \<open>iovec\<close> lengths.
\<close>
theorem sg_buff_from_iovec_gathers:
  assumes "length (concat (sc_sglist sc)) < 2 ^ 31" "unat (sd_offset sd) < length (concat (sc_sglist sc))"
    and "iovecs_at buf user vs" "length vs = unat (sd_nr_iovec sd)" "vs \<noteq> []"
    and "cmnd sc = op # rest" "vsc_is_readwrite_cmd op \<Longrightarrow> sc_bufflen sc = sd_total_iovec_len sd"
    and "room = length (concat (sc_sglist sc)) - unat (sd_offset sd)" "gather_mapped vs room um"
  shows "\<exists>sgs'. vsc_copy_sg_buff_from_iovec sc sd buf user um =
      Some (if vsc_is_readwrite_cmd op \<and> min room (iov_total vs) \<noteq> unat (sd_total_iovec_len sd) then - EIO
            else int (min room (iov_total vs)), sgs') \<and>
    map length sgs' = map length (sc_sglist sc) \<and>
    concat sgs' = overlay (unat (sd_offset sd)) (gather vs room um) (concat (sc_sglist sc))"
proof -
  let ?sgs = "sc_sglist sc" and ?D = "drop (unat (sd_offset sd)) (concat (sc_sglist sc))"
  obtain sl left where sl: "seek_sg ?sgs 0 0 (sd_offset sd) = (sl, left)" "sl < length ?sgs"
    "sg_at ?sgs sl sl left ?D"
    using seek_sg_at [OF assms(1,2)] .
  have nr: "sd_nr_iovec sd \<noteq> 0" using assms(4,5) by auto
  have chk: "\<not> (vsc_is_readwrite_cmd op \<and> sc_bufflen sc \<noteq> sd_total_iovec_len sd)" using assms(7) by blast
  have room: "length ?D = room" "length (concat ?sgs) - room = unat (sd_offset sd)"
    using assms(2,8) by simp_all
  let ?t = "min room (iov_total vs)"
  obtain sgs' where run: "sgs_from_iovecs (unat (sd_nr_iovec sd)) ?sgs buf user sl sl left 0 um =
      Some (Inr (of_nat ?t), sgs')" "map length sgs' = map length ?sgs"
    "concat sgs' = overlay (unat (sd_offset sd)) (gather vs room um) (concat ?sgs)"
    using sgs_from_iovecs_spec [OF small_sgs [OF assms(1)] assms(3) sl(3), of um 0] assms(4,8,9)
    unfolding room length_gather by auto
  have t: "?t < 2 ^ 31" using assms(1,8) by linarith
  then have u: "unat (of_nat ?t :: u32) = ?t" by (rule unat_of_nat_u32)
  then have "sint (of_nat ?t :: u32) = int ?t" using t by (simp only: sint_small)
  moreover have "of_nat ?t = sd_total_iovec_len sd \<longleftrightarrow> ?t = unat (sd_total_iovec_len sd)"
    using u by (metis unsigned_word_eqI)
  ultimately show ?thesis
    using sl run nr assms(6) chk by (simp add: vsc_copy_sg_buff_from_iovec_def del: de_Morgan_conj)
qed

theorem sg_buff_from_iovec_gathers_witness:
  "\<exists>sgs'. vsc_copy_sg_buff_from_iovec (example_scmd\<lparr>sc_sglist := [[1, 2], [3, 4, 5]], sc_bufflen := 4\<rparr>)
            example_sd example_iovec_buf 0 (\<lambda>a. Some (if a = 200 then 9 else 7)) = Some (4, sgs') \<and>
          concat sgs' = [1, 7, 7, 7, 9]"
  using sg_buff_from_iovec_gathers [of "example_scmd\<lparr>sc_sglist := [[1, 2], [3, 4, 5]], sc_bufflen := 4\<rparr>"
      example_sd example_iovec_buf 0 example_iovecs 40 "replicate 9 0" 4 "\<lambda>a. Some (if a = 200 then 9 else 7)"]
    example_iovecs_at
  by (simp add: example_sd_def) (simp add: example_iovecs_def mapped_def iov_total_def ubytes_def overlay_def Let_def
      upt_conv_Cons, blast)

subsection \<open>Plain buffers\<close>

lemma data_to_iovec_spec:
  assumes "iovecs_at buf user vs" "pos + unat left_len = length data"
  shows "data_to_iovec (length vs) buf user data pos left_len (int t) um =
    Some (case scatter vs (drop pos data) t um of (Inl e, um1) \<Rightarrow> (e, um1) | (Inr t', um1) \<Rightarrow> (int t', um1))"
  using assms
proof (induction vs arbitrary: user pos left_len t um)
  case (Cons v vs)
  from Cons.prems(1) have v: "dec_iovec buf user = Some v" "iovecs_at buf (user + 16) vs"
    by (simp_all add: iovecs_at_Cons)
  show ?case
  proof (cases "left_len = 0")
    case True
    then show ?thesis using Cons.prems(2) by simp
  next
    case False
    let ?c = "min (iov_len v) left_len"
    have c: "unat ?c = min (unat (iov_len v)) (unat left_len)" by (simp add: min_def word_le_nat_alt)
    have bytes: "rd_bytes data pos (unat ?c) = Some (take (unat (iov_len v)) (drop pos data))"
      using Cons.prems(2) c by (simp add: rd_bytes_def min_def)
    have left: "unat (left_len - ?c) = unat left_len - unat ?c"
      using c by (intro unat_diff) simp
    have len: "length (take (unat (iov_len v)) (drop pos data)) = unat ?c" using Cons.prems(2) c by simp
    have dr: "drop (pos + unat ?c) data = drop (unat (iov_len v)) (drop pos data)"
      using Cons.prems(2) c by (simp add: min_def add.commute)
    obtain left um1 where cp: "copy_to_user (iov_base v) (take (unat (iov_len v)) (drop pos data)) um = (left, um1)"
      by fastforce
    have IH: "data_to_iovec (length vs) buf (user + 16) data (pos + unat ?c) (left_len - ?c) (int (t + unat ?c)) um1 =
      Some (case scatter vs (drop (unat (iov_len v)) (drop pos data)) (t + unat ?c) um1 of
        (Inl e, um1) \<Rightarrow> (e, um1) | (Inr t', um1) \<Rightarrow> (int t', um1))"
      using Cons.IH [OF v(2), of "pos + unat ?c" "left_len - ?c" "t + unat ?c" um1] Cons.prems(2) c left
      unfolding dr by simp
    have pos: "0 < left_len" using False by (simp add: word_gt_0)
    have "data_to_iovec (length (v # vs)) buf user data pos left_len (int t) um =
       (if left \<noteq> 0 then Some (- EFAULT, um1)
        else data_to_iovec (length vs) buf (user + 16) data (pos + unat ?c) (left_len - ?c) (int (t + unat ?c)) um1)"
      using pos v(1) bytes cp by (simp add: Let_def)
    then show ?thesis
      using IH cp len by (simp only: scatter.simps Let_def prod.case) simp
  qed
qed simp

text \<open>
  (C28) Sense data and CDBs reach the target: when the offset is within the data, the \<open>len\<close> bytes of
  the buffer from the offset on go to the \<open>iovec\<close>s in order. An offset behind the data makes
  \<open>len - offset\<close> wrap, and the first non-empty \<open>iovec\<close> then reads behind the buffer.
\<close>
theorem data_to_iovec_scatters:
  assumes "unat len = length data" "iovecs_at buf user vs" "length vs = unat (sd_nr_iovec sd)"
  shows "(unat (sd_offset sd) \<le> length data \<longrightarrow> vsc_copy_data_to_iovec sd buf user data len um =
       Some (case scatter vs (drop (unat (sd_offset sd)) data) 0 um of
         (Inl e, um1) \<Rightarrow> (e, um1) | (Inr t, um1) \<Rightarrow> (int t, um1))) \<and>
    (length data < unat (sd_offset sd) \<and> vs \<noteq> [] \<and> 0 < iov_len (hd vs) \<longrightarrow>
       vsc_copy_data_to_iovec sd buf user data len um = None)"
proof (intro conjI impI; (elim conjE)?)
  assume "unat (sd_offset sd) \<le> length data"
  then have "unat (sd_offset sd) + unat (len - sd_offset sd) = length data"
    using assms(1) by (subst unat_diff) simp_all
  from data_to_iovec_spec [OF assms(2) this, of 0 um]
  show "vsc_copy_data_to_iovec sd buf user data len um =
      Some (case scatter vs (drop (unat (sd_offset sd)) data) 0 um of
        (Inl e, um1) \<Rightarrow> (e, um1) | (Inr t, um1) \<Rightarrow> (int t, um1))"
    using assms(3) by (simp add: vsc_copy_data_to_iovec_def)
next
  assume less: "length data < unat (sd_offset sd)" and "vs \<noteq> []" and iov: "0 < iov_len (hd vs)"
  then obtain v vs' where vs: "vs = v # vs'" by (cases vs) simp
  from vs assms(2,3) have v: "dec_iovec buf user = Some v" "unat (sd_nr_iovec sd) = Suc (length vs')"
    by (simp_all add: iovecs_at_Cons)
  have "len \<noteq> sd_offset sd" using less assms(1) by auto
  then have left: "0 < len - sd_offset sd" by (simp add: word_gt_0)
  then have "0 < min (iov_len v) (len - sd_offset sd)" using iov vs by (simp add: min_def)
  then have "rd_bytes data (unat (sd_offset sd)) (unat (min (iov_len v) (len - sd_offset sd))) = None"
    using less by (simp add: rd_bytes_def)
  then show "vsc_copy_data_to_iovec sd buf user data len um = None"
    using left v by (simp add: vsc_copy_data_to_iovec_def)
qed

theorem data_to_iovec_scatters_witness:
  "vsc_copy_data_to_iovec (example_sd\<lparr>sd_offset := 97\<rparr>) example_iovec_buf 0 (replicate 96 0) 96 (\<lambda>_. Some 0) = None"
  using data_to_iovec_scatters [of 96 "replicate 96 0" example_iovec_buf 0 example_iovecs
      "example_sd\<lparr>sd_offset := 97\<rparr>" "\<lambda>_. Some 0"] example_iovecs_at
  by (simp add: example_sd_def) (simp add: example_iovecs_def)

end
