(* ===== verification/Vsc_Data.thy ===== *)
theory Vsc_Data
  imports Vsc_Read Vsc_CopySpec
begin

text \<open>
  The data phase: the target asks for a command's CDB or data, or sends data or sense bytes
  (\<open>vsc_xfer_data\<close>, \<open>vsc_scsi_cmd_data\<close>), up to four requests in one call
  (\<open>vsc_multi_scsi_cmd_data\<close>). The request buffer comes from a pool and is guarded by two magic
  words. \<open>buf\<close> is a whole pool element, of 1144 bytes; offset 4 in it is what the code calls
  \<open>buf\<close>. The lock of the host is not held while bytes are copied.
\<close>

definition VSC_MODE_READ :: nat where "VSC_MODE_READ = 1"
definition VSC_MODE_WRITE :: nat where "VSC_MODE_WRITE = 2"
definition SCSI_SENSE_BUFFERSIZE :: u32 where "SCSI_SENSE_BUFFERSIZE = 96"

lemmas data_consts = VSC_MODE_READ_def VSC_MODE_WRITE_def VSC_MSG_DATA_TYPE_CDB_def
  VSC_MSG_DATA_TYPE_DATA_def VSC_MSG_DATA_TYPE_SENSE_def SCSI_SENSE_BUFFERSIZE_def

subsection \<open>One transfer\<close>

text \<open>\<open>user\<close> is the offset of the \<open>iovec\<close>s in \<open>buf\<close>. The result: \<open>retval\<close>, the host, the command, user memory.\<close>

definition vsc_xfer_data ::
  "(byte list \<Rightarrow> nat) \<Rightarrow> vsc_scsi_data \<Rightarrow> nat \<Rightarrow> vsc_ctrl_info \<Rightarrow> byte list \<Rightarrow> nat \<Rightarrow> scsi_cmnd \<Rightarrow> umem \<Rightarrow>
   (int \<times> vsc_ctrl_info \<times> scsi_cmnd \<times> umem) option" where
  "vsc_xfer_data command_size scsi_data mode h buf user sc um =
     (if sd_data_type scsi_data = VSC_MSG_DATA_TYPE_CDB then
        (if VSC_MODE_READ \<noteq> mode then Some (- EACCES, h, sc, um)
         else
           do { let h1 = h\<lparr>get_cdb_total := get_cdb_total h + 1\<rparr>;
                (retval, um1) \<leftarrow> vsc_copy_data_to_iovec scsi_data buf user (cmnd sc)
                                   (of_nat (command_size (cmnd sc))) um;
                Some (retval, h1, sc, um1) })
      else if sd_data_type scsi_data = VSC_MSG_DATA_TYPE_DATA then
        (if VSC_MODE_READ = mode then
           do { (retval, um1) \<leftarrow> vsc_copy_sg_buff_to_iovec sc scsi_data buf user um;
                Some (retval, h, sc, um1) }
         else if VSC_MODE_WRITE = mode then
           do { (retval, sgs) \<leftarrow> vsc_copy_sg_buff_from_iovec sc scsi_data buf user um;
                Some (retval, h, sc\<lparr>sc_sglist := sgs\<rparr>, um) }
         else Some (- EFAULT, h, sc, um))
      else if sd_data_type scsi_data = VSC_MSG_DATA_TYPE_SENSE then
        (if VSC_MODE_WRITE \<noteq> mode then Some (- EACCES, h, sc, um)
         else
           do { (retval, sense) \<leftarrow> vsc_copy_data_from_iovec scsi_data buf user (sense_buffer sc)
                                     SCSI_SENSE_BUFFERSIZE um;
                Some (retval, h, sc\<lparr>sense_buffer := sense\<rparr>, um) })
      else Some (- EIO, h, sc, um))"

text \<open>
  The request of one command at offset \<open>user\<close> of \<open>buf\<close>. The locked part, which finds the command,
  is \<open>find_data_cmd\<close>.
\<close>

definition find_data_cmd :: "vsc_scsi_data_msg \<Rightarrow> vsc_ctrl_info \<Rightarrow> (int + nat) option" where
  "find_data_cmd msg h =
     (let c = unat (dm_tag msg) in
      if cstat (cmd_of h c) \<noteq> CMD_STAT_READ_COMP \<or> cmd_sn (cmd_of h c) \<noteq> dm_cmd_sn msg then Some (Inl (- EIO))
      else if cmd_unlinked c h then Some (Inl (- EIO))
      else map_option Inr (scsi_cmd (cmd_of h c)))"

type_synonym data_state = "vsc_ctrl_info \<times> midlayer \<times> umem"

definition vsc_scsi_cmd_data ::
  "(byte list \<Rightarrow> nat) \<Rightarrow> nat \<Rightarrow> byte list \<Rightarrow> nat \<Rightarrow> int \<Rightarrow> u32 \<Rightarrow> data_state \<Rightarrow> (int \<times> u32 \<times> data_state) option"
  where
  "vsc_scsi_cmd_data command_size mode buf user len data_len st =
     (let (h, m, um) = st in
      do { msg \<leftarrow> dec_scsi_data_msg buf user;
           if dm_type msg \<noteq> VSC_MSG_TYPE_SCSI_DATA \<or> nr_cmds h \<le> unat (dm_tag msg) \<or>
              word_of_int len < dm_scsi_data_len msg
           then Some (- EIO, data_len, st)
           else
             do { r \<leftarrow> find_data_cmd msg h;
                  case r of
                    Inl e \<Rightarrow> Some (e, data_len, st)
                  | Inr sc \<Rightarrow>
                      do { scsi_data \<leftarrow> dec_scsi_data buf (user + 24);
                           (retval, h1, s1, um1) \<leftarrow>
                             vsc_xfer_data command_size scsi_data mode h buf (user + 44) (scmds m sc) um;
                           let st1 = (h1, upd_sc sc (\<lambda>_. s1) m, um1);
                           if retval < 0 then Some (retval, data_len, st1)
                           else Some (c_int (0 + retval), sd_data_len scsi_data, st1) } } })"

subsection \<open>The guarded buffer\<close>

definition VSC_SCSI_BUF_HEAD_MAGIC :: u32 where "VSC_SCSI_BUF_HEAD_MAGIC = 0x55AA33CC"
definition VSC_SCSI_BUF_TAIL_MAGIC :: u32 where "VSC_SCSI_BUF_TAIL_MAGIC = 0x11EE22DD"

text \<open>\<open>pool\<close> is the element \<open>mempool_alloc\<close> returns, with what it holds.\<close>

definition vsc_alloc_scsi_buf :: "byte list option \<Rightarrow> byte list option option" where
  "vsc_alloc_scsi_buf pool =
     (case pool of
        None \<Rightarrow> Some None
      | Some buf \<Rightarrow>
          do { buf1 \<leftarrow> wr_bytes buf 0 (le_bytes 4 VSC_SCSI_BUF_HEAD_MAGIC);
               buf2 \<leftarrow> wr_bytes buf1 (4 + MAX_SCSI_DATA_AND_RSP_LENGTH) (le_bytes 4 VSC_SCSI_BUF_TAIL_MAGIC);
               Some (Some buf2) })"

definition vsc_free_scsi_buf :: "byte list \<Rightarrow> int option" where
  "vsc_free_scsi_buf buf =
     do { head_magic \<leftarrow> rd32 buf 0;
          tail_magic \<leftarrow> rd32 buf (4 + MAX_SCSI_DATA_AND_RSP_LENGTH);
          Some (if head_magic \<noteq> VSC_SCSI_BUF_HEAD_MAGIC \<or> tail_magic \<noteq> VSC_SCSI_BUF_TAIL_MAGIC
                then - EFAULT else 0) }"

text \<open>\<open>copy_from_user(buf, user_ptr, len)\<close>; a negative \<open>len\<close> is a huge size.\<close>

definition fill_scsi_buf :: "byte list \<Rightarrow> u64 \<Rightarrow> int \<Rightarrow> umem \<Rightarrow> (bool \<times> byte list) option" where
  "fill_scsi_buf buf user_ptr len um =
     (if len < 0 then None
      else
        do { let (left, bytes) = copy_from_user user_ptr (nat len) um;
             buf1 \<leftarrow> wr_bytes buf 4 bytes;
             Some (left = 0, buf1) })"

subsection \<open>Several requests\<close>

text \<open>
  The loop over the requests; \<open>n\<close> are left, \<open>temp\<close> is the offset of the next one. \<open>Inl\<close> when a
  request failed.
\<close>

fun cmd_data_loop ::
  "(byte list \<Rightarrow> nat) \<Rightarrow> nat \<Rightarrow> byte list \<Rightarrow> nat \<Rightarrow> nat \<Rightarrow> int \<Rightarrow> u32 \<Rightarrow> int \<Rightarrow> data_state \<Rightarrow>
   ((unit + int) \<times> data_state) option" where
  "cmd_data_loop command_size mode buf 0 temp len data_len totallen st = Some (Inr totallen, st)"
| "cmd_data_loop command_size mode buf (Suc n) temp len data_len totallen st =
     do { (ret_len, data_len1, st1) \<leftarrow> vsc_scsi_cmd_data command_size mode buf temp len data_len st;
          if ret_len < 0 then Some (Inl (), st1)
          else cmd_data_loop command_size mode buf n (temp + SCSI_MAX_DATA_BUF_SIZE)
                 (len - int SCSI_MAX_DATA_BUF_SIZE) data_len1 (c_int (totallen + ret_len)) st1 }"

definition vsc_multi_scsi_cmd_data ::
  "(byte list \<Rightarrow> nat) \<Rightarrow> byte list option \<Rightarrow> nat \<Rightarrow> u64 \<Rightarrow> int \<Rightarrow> data_state \<Rightarrow> (int \<times> data_state) option" where
  "vsc_multi_scsi_cmd_data command_size pool mode user_ptr len st =
     (let (h, m, um) = st in
      do { bufp \<leftarrow> vsc_alloc_scsi_buf pool;
           case bufp of
             None \<Rightarrow> Some (- ENOMEM, st)
           | Some buf0 \<Rightarrow>
               do { (ok, buf) \<leftarrow> fill_scsi_buf buf0 user_ptr len um;
                    if \<not> ok then do { _ \<leftarrow> vsc_free_scsi_buf buf; Some (- EFAULT, st) }
                    else
                      do { msg \<leftarrow> dec_scsi_data_msg buf 4;
                           let n = sint (dm_reserved0 msg);
                           if n = 0 \<or> int MAX_BATCH_SCSI_CMD_COUNT < n
                           then do { _ \<leftarrow> vsc_free_scsi_buf buf; Some (- EFAULT, st) }
                           else
                             do { (r, st1) \<leftarrow> cmd_data_loop command_size mode buf (nat n) 4 len 0 0 st;
                                  retval \<leftarrow> vsc_free_scsi_buf buf;
                                  Some (case r of Inl _ \<Rightarrow> - EIO | Inr _ \<Rightarrow> retval, st1) } } } })"

end
