(* ===== verification/Vsc_Response.thy ===== *)
theory Vsc_Response
  imports Vsc_Data
begin

text \<open>
  The writing side: the target answers commands (\<open>vsc_response_scsi_cmd_new\<close>), several at once
  and together with their data (\<open>vsc_response_multi_scsi_cmd\<close>,
  \<open>vsc_response_multi_data_and_rsp\<close>), and events (\<open>vsc_response_event\<close>). \<open>vsc_get_msg\<close> and
  \<open>vsc_response_msg\<close> are the two entry points of the open file.
\<close>

subsection \<open>The answer to one command\<close>

definition vsc_sense_check :: "u32 \<Rightarrow> scsi_cmnd \<Rightarrow> scsi_cmnd" where
  "vsc_sense_check command_status sc =
     (if command_status = CMD_SUCCESS then sc
      else if command_status = CMD_FAILURE then sc
      else if command_status = CMD_INVALID then sc\<lparr>sc_result := push_bit 16 DID_NO_CONNECT\<rparr>
      else if command_status = CMD_CONNECTION_LOST then sc\<lparr>sc_result := push_bit 16 DID_ERROR\<rparr>
      else if command_status = CMD_TIMEOUT then sc\<lparr>sc_result := push_bit 16 DID_TIME_OUT\<rparr>
      else if command_status = CMD_PROTOCOL_ERR then sc\<lparr>sc_result := push_bit 16 DID_SOFT_ERROR\<rparr>
      else if command_status = CMD_NEED_RETRY then sc\<lparr>sc_result := push_bit 16 DID_REQUEUE\<rparr>
      else sc\<lparr>sc_result := push_bit 16 DID_ERROR\<rparr>)"

definition COMMAND_COMPLETE :: u32 where "COMMAND_COMPLETE = 0"

text \<open>What the handler writes to the command before it is completed.\<close>

definition set_rsp_result :: "vsc_scsi_rsp_msg \<Rightarrow> scsi_cmnd \<Rightarrow> scsi_cmnd" where
  "set_rsp_result msg sc =
     (let sc1 = sc\<lparr>sc_result := push_bit 16 DID_OK\<rparr>;
          sc2 = vsc_sense_check (rsp_command_status msg) sc1;
          sc3 = sc2\<lparr>sc_result := sc_result sc2 OR push_bit 8 COMMAND_COMPLETE\<rparr>;
          sc4 = sc3\<lparr>sc_result := sc_result sc3 OR push_bit 1 (rsp_scsi_status msg AND 0x7F)\<rparr>
      in sc4\<lparr>sc_resid := 0\<rparr>)"

text \<open>On the error exits \<open>c\<close> is \<open>NULL\<close>, so the code that would put the buffer back is never reached.\<close>

definition vsc_response_scsi_cmd_new ::
  "vsc_scsi_rsp_msg \<Rightarrow> vsc_ctrl_info \<Rightarrow> midlayer \<Rightarrow> (int \<times> vsc_ctrl_info \<times> midlayer) option" where
  "vsc_response_scsi_cmd_new msg h m =
     (let c = unat (rsp_tag msg) in
      if nr_cmds h \<le> c then Some (- EIO, h, m)
      else if cstat (cmd_of h c) \<noteq> CMD_STAT_READ_COMP \<or> cmd_sn (cmd_of h c) \<noteq> rsp_cmd_sn msg
      then Some (- EIO, h, m)
      else if cmd_unlinked c h then Some (- EIO, h, m)
      else
        do { let h1 = upd_cmd c (\<lambda>x. x\<lparr>cstat := CMD_STAT_RESP\<rparr>) (removeQ c h);
             sc \<leftarrow> scsi_cmd (cmd_of h1 c);
             if cmnd (scmds m sc) = [] then None
             else
               do { let h2 = h1\<lparr>io_running := io_running h1 - 1\<rparr>;
                    let m1 = scsi_done sc (upd_sc sc (set_rsp_result msg) m);
                    Some (0, vsc_cmd_put c h2, m1) } })"

subsection \<open>Several answers\<close>

text \<open>\<open>Inl\<close> when an answer was refused; \<open>off\<close> is the offset of the next one in \<open>buf\<close>.\<close>

fun rsp_loop ::
  "byte list \<Rightarrow> nat \<Rightarrow> nat \<Rightarrow> int \<Rightarrow> vsc_ctrl_info \<Rightarrow> midlayer \<Rightarrow> ((unit + int) \<times> vsc_ctrl_info \<times> midlayer) option"
  where
  "rsp_loop buf 0 off total_len h m = Some (Inr total_len, h, m)"
| "rsp_loop buf (Suc n) off total_len h m =
     do { msg \<leftarrow> dec_rsp_msg buf off;
          (retval, h1, m1) \<leftarrow> vsc_response_scsi_cmd_new msg h m;
          if retval < 0 then Some (Inl (), h1, m1)
          else rsp_loop buf n (off + 28) (c_int (total_len + retval)) h1 m1 }"

definition vsc_response_multi_scsi_cmd ::
  "byte list \<Rightarrow> nat \<Rightarrow> int \<Rightarrow> vsc_ctrl_info \<Rightarrow> midlayer \<Rightarrow> (int \<times> vsc_ctrl_info \<times> midlayer) option" where
  "vsc_response_multi_scsi_cmd buf user len h m =
     (if len \<noteq> int (28 * MAX_BATCH_SCSI_RSP_COUNT) then Some (- EFAULT, h, m)
      else
        do { msg \<leftarrow> dec_rsp_msg buf user;
             let n = sint (rsp_reserved0 msg);
             if n = 0 \<or> int MAX_BATCH_SCSI_RSP_COUNT < n then Some (- EINVAL, h, m)
             else
               do { (r, h1, m1) \<leftarrow> rsp_loop buf (nat n) user 0 h m;
                    case r of
                      Inl _ \<Rightarrow> Some (- EIO, h1, m1)
                    | Inr total_len \<Rightarrow>
                        Some (total_len, h1\<lparr>put_rsp_times := put_rsp_times h1 + 1,
                                           put_rsp_total := put_rsp_total h1 + word_of_int n\<rparr>, m1) } })"

definition vsc_response_multi_data_and_rsp ::
  "(byte list \<Rightarrow> nat) \<Rightarrow> byte list option \<Rightarrow> nat \<Rightarrow> u64 \<Rightarrow> int \<Rightarrow> data_state \<Rightarrow> (int \<times> data_state) option" where
  "vsc_response_multi_data_and_rsp command_size pool mode user_ptr len st =
     (if len \<noteq> int MAX_SCSI_DATA_AND_RSP_LENGTH then Some (- EINVAL, st)
      else
        do { bufp \<leftarrow> vsc_alloc_scsi_buf pool;
             case bufp of
               None \<Rightarrow> Some (- ENOMEM, st)
             | Some buf0 \<Rightarrow>
                 do { (ok, buf) \<leftarrow> fill_scsi_buf buf0 user_ptr len (snd (snd st));
                      if \<not> ok then do { _ \<leftarrow> vsc_free_scsi_buf buf; Some (- EFAULT, st) }
                      else
                        do { msg \<leftarrow> dec_scsi_data_msg buf 4;
                             let read_n = sint (dm_reserved0 msg);
                             let cmd_n = sint (dm_reserved1 msg);
                             if int MAX_BATCH_SCSI_RSP_COUNT < read_n \<or> int MAX_BATCH_SCSI_RSP_COUNT < cmd_n \<or> cmd_n = 0
                             then do { _ \<leftarrow> vsc_free_scsi_buf buf; Some (- EFAULT, st) }
                             else
                               do { (r, st1) \<leftarrow> cmd_data_loop command_size mode buf (nat read_n) 4 len 0 0 st;
                                    case r of
                                      Inl _ \<Rightarrow> do { _ \<leftarrow> vsc_free_scsi_buf buf; Some (- EIO, st1) }
                                    | Inr _ \<Rightarrow>
                                        do { let (h1, m1, um1) = st1;
                                             (ret_len, h2, m2) \<leftarrow>
                                               vsc_response_multi_scsi_cmd buf
                                                 (4 + MAX_BATCH_SCSI_RSP_COUNT * SCSI_MAX_DATA_BUF_SIZE)
                                                 (len - int (MAX_BATCH_SCSI_RSP_COUNT * SCSI_MAX_DATA_BUF_SIZE)) h1 m1;
                                             retval \<leftarrow> vsc_free_scsi_buf buf;
                                             Some (if ret_len < 0 then - EIO else retval, h2, m2, um1) } } } } })"

subsection \<open>The answer to an event\<close>

definition event_data_of :: "(nat \<Rightarrow> byte) \<Rightarrow> vsc_scsi_msg_data" where
  "event_data_of pg = of_vsc_scsi_msg_data [le_word (page_bytes pg 0 4), le_word (page_bytes pg 4 4)]"

definition vsc_response_event ::
  "u64 \<Rightarrow> int \<Rightarrow> umem \<Rightarrow> vsc_ctrl_info \<Rightarrow> (int \<times> vsc_ctrl_info) option" where
  "vsc_response_event user_ptr len um h =
     (if user_ptr = 0 then Some (- EFAULT, h)
      else
        do { let (left, bytes) = copy_from_user user_ptr 28 um;
             if left \<noteq> 0 then Some (- EFAULT, h)
             else
               do { ws \<leftarrow> rd_words bytes 0 7;
                    let event = of_vsc_scsi_event ws;
                    let e = unat (ev_tag event);
                    if nr_events h \<le> e then Some (- EIO, h)
                    else if estat (event_of h e) \<noteq> EVENT_LIST_STAT_READ_COMP \<or>
                            event_sn (event_of h e) \<noteq> ev_event_sn event then Some (- EIO, h)
                    else
                      do { let h1 = upd_event e (\<lambda>x. x\<lparr>estat := EVENT_LIST_STAT_RESP\<rparr>) h;
                           let n = unat (ev_data_length event);
                           if word_of_int len < ev_data_length event \<or> PAGE_SIZE \<le> n then Some (- EIO, h1)
                           else
                             do { let (left, bytes) = copy_from_user (user_ptr + 28) n um;
                                  let h2 = upd_event e (\<lambda>x. x\<lparr>event_data_len := n,
                                                             event_data := page_write 0 bytes (event_data x)\<rparr>) h1;
                                  if left \<noteq> 0 then Some (- EFAULT, h2)
                                  else
                                    (case event_callback (event_of h2 e) of
                                       None \<Rightarrow> Some (28, h2)
                                     | Some cb \<Rightarrow>
                                         (let msg = event_data_of (event_data (event_of h2 e)) in
                                          if ev_data_length event < md_data_len msg then Some (- EFAULT, h2)
                                          else
                                            do { (retval, h3) \<leftarrow>
                                                   run_event_callback cb EVENT_SHOOT e (md_data_type msg)
                                                     (page_bytes (event_data (event_of h2 e)) 8 (PAGE_SIZE - 8))
                                                     (md_data_len msg) h2;
                                                 let h4 = upd_event e (\<lambda>x. x\<lparr>shoot := EVENT_SHOOT_SHOOT,
                                                                           e_waiting := False\<rparr>) h3;
                                                 Some (if retval \<noteq> 0 then retval else 28, h4) })) } } } })"

subsection \<open>The entry points\<close>

text \<open>Reading: without a host the error exit still counts the failure in it.\<close>

definition count_read_fail :: "vsc_ctrl_info \<Rightarrow> vsc_ctrl_info" where
  "count_read_fail h = upd_stat (\<lambda>s. s\<lparr>read_fail_count := read_fail_count s + 1\<rparr>) h"

definition vsc_get_msg ::
  "(byte list \<Rightarrow> nat) \<Rightarrow> vsc_msg_cdb list \<Rightarrow> u32 \<Rightarrow> byte list option \<Rightarrow> (vsc_ctrl_info \<Rightarrow> int \<times> vsc_ctrl_info) \<Rightarrow>
   bool \<Rightarrow> u64 \<Rightarrow> int \<Rightarrow> vsc_ctrl_info option \<Rightarrow> midlayer \<Rightarrow> umem \<Rightarrow> (int \<times> data_state) option" where
  "vsc_get_msg command_size stk pad pool wait nonblock user_ptr len hp m um =
     (case hp of
        None \<Rightarrow> None
      | Some h \<Rightarrow>
          do { (retval, h1, m1, um1) \<leftarrow>
                 (case get_user user_ptr um of
                    None \<Rightarrow> Some (- EFAULT, h, m, um)
                  | Some type \<Rightarrow>
                      if VSC_MSG_TYPE_SCSI_CMD = type then
                        do { (retval, h1, um1) \<leftarrow>
                               vsc_get_scsi_cmd_msg command_size stk pad wait nonblock m user_ptr len h um;
                             Some (retval, h1, m, um1) }
                      else if VSC_MSG_TYPE_SCSI_DATA = type then
                        vsc_multi_scsi_cmd_data command_size pool VSC_MODE_READ user_ptr len (h, m, um)
                      else Some (- EINVAL, h, m, um));
               if retval < 0 then Some (retval, count_read_fail h1, m1, um1)
               else Some (retval, h1, m1, um1) })"

definition vsc_response_msg ::
  "(byte list \<Rightarrow> nat) \<Rightarrow> byte list option \<Rightarrow> u64 \<Rightarrow> int \<Rightarrow> vsc_ctrl_info option \<Rightarrow> midlayer \<Rightarrow> umem \<Rightarrow>
   (int \<times> (data_state option)) option" where
  "vsc_response_msg command_size pool user_ptr len hp m um =
     (case hp of
        None \<Rightarrow> Some (- EFAULT, None)
      | Some h \<Rightarrow>
          do { (retval, h1, m1, um1) \<leftarrow>
                 (case get_user user_ptr um of
                    None \<Rightarrow> Some (- EFAULT, h, m, um)
                  | Some type \<Rightarrow>
                      if VSC_MSG_TYPE_EVENT = type then
                        do { (retval, h1) \<leftarrow> vsc_response_event user_ptr len um h; Some (retval, h1, m, um) }
                      else if VSC_MSG_TYPE_SCSI_DATA = type then
                        vsc_response_multi_data_and_rsp command_size pool VSC_MODE_WRITE user_ptr len (h, m, um)
                      else Some (- EINVAL, h, m, um));
               if retval < 0
               then Some (retval, Some (upd_stat (\<lambda>s. s\<lparr>write_fail_count := write_fail_count s + 1\<rparr>) h1, m1, um1))
               else Some (retval, Some (h1, m1, um1)) })"

end
