(* ===== verification/Vsc_Answers.thy ===== *)
theory Vsc_Answers
  imports Vsc_Response
begin

text \<open>
  What the writing side guarantees: an answer completes the command its tag and sequence number
  name, once, and no other; the result given to the middle layer is the table of
  \<open>vsc_sense_check\<close> combined with the target's status byte; a data request touches one command
  only; the guarded buffer cannot be overrun by a response, and can be by a request.
\<close>

subsection \<open>The result of a command\<close>

definition status_host_byte :: "u32 \<Rightarrow> u32" where
  "status_host_byte s =
     (if s = CMD_SUCCESS \<or> s = CMD_FAILURE then DID_OK
      else if s = CMD_INVALID then DID_NO_CONNECT
      else if s = CMD_TIMEOUT then DID_TIME_OUT
      else if s = CMD_PROTOCOL_ERR then DID_SOFT_ERROR
      else if s = CMD_NEED_RETRY then DID_REQUEUE
      else DID_ERROR)"

lemma vsc_sense_check_result:
  "sc_result sc = 0 \<Longrightarrow> sc_result (vsc_sense_check s sc) = push_bit 16 (status_host_byte s)"
  by (simp add: vsc_sense_check_def status_host_byte_def cmd_status_consts)

lemma set_rsp_result_eq:
  "set_rsp_result msg sc = sc\<lparr>sc_result := push_bit 16 (status_host_byte (rsp_command_status msg)) OR
       push_bit 1 (rsp_scsi_status msg AND 0x7F), sc_resid := 0\<rparr>"
proof -
  have "vsc_sense_check s x = x\<lparr>sc_result := sc_result (vsc_sense_check s x)\<rparr>" for s x
    by (simp add: vsc_sense_check_def)
  from this [of "rsp_command_status msg" "sc\<lparr>sc_result := 0\<rparr>"] show ?thesis
    using vsc_sense_check_result [of "sc\<lparr>sc_result := 0\<rparr>" "rsp_command_status msg"]
    by (simp add: set_rsp_result_def COMMAND_COMPLETE_def Let_def)
qed

lemma result_fields:
  fixes s t :: u32
  assumes "j \<le> 1"
  shows "drop_bit 16 (push_bit 16 (take_bit 4 s) OR push_bit j (take_bit 7 t)) AND mask 8 = take_bit 4 s"
    "(push_bit 16 (take_bit 4 s) OR push_bit j (take_bit 7 t)) AND mask 8 = push_bit j (take_bit 7 t)"
    "(push_bit 16 (take_bit 4 s) OR push_bit j (take_bit 7 t)) AND
       (push_bit 24 (mask 8) OR push_bit 8 (mask 8)) = 0"
  using assms by (auto intro!: bit_eqI simp: bit_simps)

text \<open>
  The result of an answered command: its host byte is the one the command status stands for,
  with \<open>DID_ERROR\<close> for a status the driver does not know; its status byte is the low seven bits of the
  target's status, shifted by one; its message and driver bytes are 0 (\<open>COMMAND_COMPLETE\<close>); nothing of an
  earlier result survives, and the residual length is 0.
\<close>
lemma response_result_bytes:
  "host_byte (sc_result (set_rsp_result msg sc)) = status_host_byte (rsp_command_status msg) \<and>
   sc_result (set_rsp_result msg sc) AND 0xFF = push_bit 1 (rsp_scsi_status msg AND 0x7F) \<and>
   sc_result (set_rsp_result msg sc) AND 0xFF00FF00 = 0 \<and>
   sc_resid (set_rsp_result msg sc) = 0"
proof -
  define t where "t = rsp_scsi_status msg AND 0x7F"
  define s where "s = status_host_byte (rsp_command_status msg)"
  have t: "t = take_bit 7 (rsp_scsi_status msg)" by (simp add: t_def take_bit_eq_mask mask_eq_exp_minus_1)
  have s: "s \<in> {0, 1, 3, 5, 7, 11, 13}" by (simp add: s_def status_host_byte_def)
  then have s4: "s = take_bit 4 s" by auto
  have m: "(0xFF :: u32) = mask 8" "(0xFF00FF00 :: u32) = push_bit 24 (mask 8) OR push_bit 8 (mask 8)"
    by (simp_all add: mask_eq_exp_minus_1)
  note f = result_fields [of 1 s "rsp_scsi_status msg", folded s4 t m]
  show ?thesis
    using f by (simp only: set_rsp_result_eq s_def [symmetric] t_def [symmetric] host_byte_def) simp
qed

subsection \<open>Completing a command\<close>

text \<open>The buffers a response or a data request may name.\<close>

definition answerable :: "nat \<Rightarrow> u32 \<Rightarrow> vsc_ctrl_info \<Rightarrow> bool" where
  "answerable c sn h \<longleftrightarrow> c \<in> set (rspQ h) \<and> cmd_sn (cmd_of h c) = sn"

definition cdbs_ok :: "vsc_ctrl_info \<Rightarrow> midlayer \<Rightarrow> bool" where
  "cdbs_ok h m \<longleftrightarrow> (\<forall>c\<in>set (allQ h). cmnd (scmds m (the (scsi_cmd (cmd_of h c)))) \<noteq> [])"

lemma linked_read_comp:
  assumes "host_inv H h" "phases_ok h"
  shows "c < nr_cmds h \<and> cstat (cmd_of h c) = CMD_STAT_READ_COMP \<and> cmd_sn (cmd_of h c) = sn \<and> \<not> cmd_unlinked c h
    \<longleftrightarrow> answerable c sn h"
  using assms host_inv_linked [OF assms(1), of c]
  by (auto simp: phases_ok_def answerable_def cmd_unlinked_def allQ_def)

text \<open>What an accepted response leaves behind.\<close>

definition answered :: "nat \<Rightarrow> vsc_ctrl_info \<Rightarrow> vsc_ctrl_info" where
  "answered c h = vsc_cmd_put c (upd_cmd c (\<lambda>x. x\<lparr>cstat := CMD_STAT_RESP\<rparr>) (unlink c h))"

lemma response_eq:
  assumes inv: "host_inv H h" "phases_ok h" and cdb: "cdbs_ok h m"
  shows "vsc_response_scsi_cmd_new msg h m =
    (let c = unat (rsp_tag msg); sc = the (scsi_cmd (cmd_of h c)) in
     if answerable c (rsp_cmd_sn msg) h
     then Some (0, answered c h, scsi_done sc (upd_sc sc (set_rsp_result msg) m))
     else Some (- EIO, h, m))"
proof -
  let ?c = "unat (rsp_tag msg)"
  note iff = linked_read_comp [OF inv, of ?c "rsp_cmd_sn msg"]
  show ?thesis
  proof (cases "answerable ?c (rsp_cmd_sn msg) h")
    case True
    then have c: "?c \<in> set (allQ h)" by (simp add: answerable_def allQ_def)
    obtain sc where sc: "scsi_cmd (cmd_of h ?c) = Some sc" using host_inv_linked [OF inv(1) c] by auto
    have "cmnd (scmds m sc) \<noteq> []" using cdb c sc by (auto simp: cdbs_ok_def)
    moreover have "scsi_cmd (cmd_of (upd_cmd ?c (\<lambda>x. x\<lparr>cstat := CMD_STAT_RESP\<rparr>) (removeQ ?c h)) ?c) = Some sc"
      using sc by (simp add: upd_cstat_fields) (simp add: removeQ_def)
    moreover have "(upd_cmd ?c (\<lambda>x. x\<lparr>cstat := CMD_STAT_RESP\<rparr>) (removeQ ?c h))\<lparr>io_running :=
        io_running (upd_cmd ?c (\<lambda>x. x\<lparr>cstat := CMD_STAT_RESP\<rparr>) (removeQ ?c h)) - 1\<rparr> =
        upd_cmd ?c (\<lambda>x. x\<lparr>cstat := CMD_STAT_RESP\<rparr>) (unlink ?c h)"
      by (simp add: upd_cmd_def unlink_def removeQ_def)
    ultimately show ?thesis
      using True iff sc by (simp add: vsc_response_scsi_cmd_new_def answered_def Let_def not_le)
  next
    case False
    then show ?thesis using iff by (auto simp: vsc_response_scsi_cmd_new_def Let_def not_le)
  qed
qed

lemma host_inv_upd_stat: "host_inv H h \<Longrightarrow> host_inv H (upd_cmd c (cstat_update f) h)"
  by (rule host_inv_move [OF _ same_buffers_upd_stat])
    (simp_all add: upd_cmd_def allQ_def host_inv_def counters_ok_def)

lemma answered_fields [simp]:
  "reqQ (answered c h) = remove1 c (reqQ h)" "cmpQ (answered c h) = remove1 c (cmpQ h)"
  "rspQ (answered c h) = remove1 c (rspQ h)"
  "scsi_cmd (cmd_of (answered c h) j) = scsi_cmd (cmd_of h j)"
  "cmd_sn (cmd_of (answered c h) j) = cmd_sn (cmd_of h j)"
  "same_host h (answered c h)" "same_events h (answered c h)"
proof -
  let ?g = "upd_cmd c (\<lambda>x. x\<lparr>cstat := CMD_STAT_RESP\<rparr>) (unlink c h)"
  show "reqQ (answered c h) = remove1 c (reqQ h)" "cmpQ (answered c h) = remove1 c (cmpQ h)"
    "rspQ (answered c h) = remove1 c (rspQ h)"
    "scsi_cmd (cmd_of (answered c h) j) = scsi_cmd (cmd_of h j)"
    "cmd_sn (cmd_of (answered c h) j) = cmd_sn (cmd_of h j)"
    by (simp_all add: answered_def vsc_frame upd_cstat_fields) (simp_all add: upd_cmd_def)
  have "same_host (unlink c h) ?g" "same_events (unlink c h) ?g"
    by (simp_all add: upd_cmd_def same_host_def same_events_def)
  then show "same_host h (answered c h)" "same_events h (answered c h)"
    unfolding answered_def
    by (meson same_host_trans same_events_trans cmd_put_frame(1,2) unlink_frame(1,2))+
qed

lemma answered_inv:
  assumes inv: "host_inv H h" "phases_ok h" and c: "c \<in> set (rspQ h)" and sc: "scsi_cmd (cmd_of h c) = Some sc"
  shows "host_inv H (answered c h)" "phases_ok (answered c h)" "inflight h = add_mset sc (inflight (answered c h))"
    "allQ (answered c h) = remove1 c (allQ h)" "c \<notin> set (allQ (answered c h))"
proof -
  let ?g = "upd_cmd c (\<lambda>x. x\<lparr>cstat := CMD_STAT_RESP\<rparr>) (unlink c h)"
  have d: "distinct (allQ h)" using inv by (simp add: host_inv_defs)
  have q: "c \<in> set (allQ h)" "c \<notin> set (reqQ h)" using c d by (auto simp: allQ_def)
  from unlink_inv [OF inv(1) q] have "host_inv (add_mset c H) ?g" by (rule host_inv_upd_stat)
  then show "host_inv H (answered c h)" unfolding answered_def by (rule vsc_cmd_put_inv)
  have "allQ (answered c h) = allQ (unlink c h)" by (simp add: allQ_def)
  then show all: "allQ (answered c h) = remove1 c (allQ h)" using d by (simp add: allQ_unlink)
  then show out: "c \<notin> set (allQ (answered c h))" using d by (simp add: set_remove1_eq)
  have "inflight (answered c h) = inflight (unlink c h)"
    by (rule inflight_cong) (use all d in \<open>simp_all add: allQ_unlink\<close>)
  then show "inflight h = add_mset sc (inflight (answered c h))"
    using inflight_unlink [OF d q(1) sc] by simp
  have st: "cstat (cmd_of (answered c h) j) = cstat (cmd_of h j)" if "j \<noteq> c" for j
    using that by (simp add: answered_def vsc_frame) (simp add: upd_cmd_def)
  have out': "j \<noteq> c" if "j \<in> set (reqQ (answered c h)) \<union> set (cmpQ (answered c h)) \<union> set (rspQ (answered c h))" for j
    using out that by (auto simp: allQ_def simp del: answered_fields)
  have sub: "set (reqQ (answered c h)) \<subseteq> set (reqQ h)" "set (cmpQ (answered c h)) \<subseteq> set (cmpQ h)"
    "set (rspQ (answered c h)) \<subseteq> set (rspQ h)"
    by (simp_all add: set_remove1_subset)
  show "phases_ok (answered c h)"
    unfolding phases_ok_def
  proof (intro conjI ballI)
    fix j
    show "cstat (cmd_of (answered c h) j) = CMD_STAT_INIT" if j: "j \<in> set (reqQ (answered c h))"
      using st [OF out', of j] j subsetD [OF sub(1) j] inv(2) by (simp add: phases_ok_def del: answered_fields)
    show "cstat (cmd_of (answered c h) j) = CMD_STAT_REQUEST" if j: "j \<in> set (cmpQ (answered c h))"
      using st [OF out', of j] j subsetD [OF sub(2) j] inv(2) by (simp add: phases_ok_def del: answered_fields)
    show "cstat (cmd_of (answered c h) j) = CMD_STAT_READ_COMP" if j: "j \<in> set (rspQ (answered c h))"
      using st [OF out', of j] j subsetD [OF sub(3) j] inv(2) by (simp add: phases_ok_def del: answered_fields)
  qed
qed

text \<open>
  (C7) A response is matched by tag and sequence number: it is accepted exactly when the tag names a
  buffer that was handed to the target, is still outstanding, and has this sequence number. Then that buffer's
  command, and no other, is completed, once, with the response's result, its buffer is given back,
  and the same response sent again is refused. A response that is refused changes nothing.
\<close>
theorem response_completes_once:
  assumes "host_inv H h" "phases_ok h" "cdbs_ok h m"
  shows "\<exists>r h' m'. vsc_response_scsi_cmd_new msg h m = Some (r, h', m') \<and> host_inv H h' \<and> phases_ok h' \<and>
    (if answerable (unat (rsp_tag msg)) (rsp_cmd_sn msg) h
     then r = 0 \<and>
       (\<exists>sc. scsi_cmd (cmd_of h (unat (rsp_tag msg))) = Some sc \<and> inflight h = add_mset sc (inflight h') \<and>
          done_log m' = done_log m @ [(sc, sc_result (set_rsp_result msg (scmds m sc)))]) \<and>
       allQ h' = remove1 (unat (rsp_tag msg)) (allQ h) \<and>
       vsc_response_scsi_cmd_new msg h' m' = Some (- EIO, h', m')
     else r = - EIO \<and> h' = h \<and> m' = m)"
proof (cases "answerable (unat (rsp_tag msg)) (rsp_cmd_sn msg) h")
  case True
  let ?c = "unat (rsp_tag msg)"
  have c: "?c \<in> set (rspQ h)" "?c \<in> set (allQ h)" using True by (auto simp: answerable_def allQ_def)
  obtain sc where sc: "scsi_cmd (cmd_of h ?c) = Some sc" using host_inv_linked [OF assms(1) c(2)] by auto
  let ?m = "scsi_done sc (upd_sc sc (set_rsp_result msg) m)"
  note a = answered_inv [OF assms(1,2) c(1) sc]
  have "cdbs_ok (answered ?c h) ?m"
    using assms(3) a(4) set_remove1_subset [of ?c "allQ h"]
    by (auto simp: cdbs_ok_def scsi_done_def upd_sc_def set_rsp_result_eq)
  moreover have "\<not> answerable ?c (rsp_cmd_sn msg) (answered ?c h)"
    using a(5) by (simp add: answerable_def allQ_def)
  ultimately have "vsc_response_scsi_cmd_new msg (answered ?c h) ?m = Some (- EIO, answered ?c h, ?m)"
    using response_eq [OF a(1,2)] by (simp add: Let_def)
  moreover have "done_log ?m = done_log m @ [(sc, sc_result (set_rsp_result msg (scmds m sc)))]"
    by (simp add: scsi_done_def upd_sc_def)
  ultimately show ?thesis
    using True sc a response_eq [OF assms, of msg] by (simp add: Let_def)
qed (use assms response_eq [OF assms, of msg] in \<open>simp add: Let_def\<close>)

subsection \<open>A batch of responses\<close>

text \<open>What completing commands leaves alone in the middle layer.\<close>

definition same_requests :: "midlayer \<Rightarrow> midlayer \<Rightarrow> bool" where
  "same_requests m m' \<longleftrightarrow> sdevs m' = sdevs m \<and> shosts m' = shosts m \<and>
     (\<forall>s. cmnd (scmds m' s) = cmnd (scmds m s) \<and> sc_device (scmds m' s) = sc_device (scmds m s) \<and>
          host_scribble (scmds m' s) = host_scribble (scmds m s))"

lemma same_requests_refl [simp]: "same_requests m m"
  by (simp add: same_requests_def)

lemma same_requests_trans: "same_requests m m' \<Longrightarrow> same_requests m' m'' \<Longrightarrow> same_requests m m''"
  by (simp add: same_requests_def)

lemma cdbs_ok_mono:
  "cdbs_ok h m \<Longrightarrow> set (allQ h') \<subseteq> set (allQ h) \<Longrightarrow> (\<And>j. scsi_cmd (cmd_of h' j) = scsi_cmd (cmd_of h j)) \<Longrightarrow>
   same_requests m m' \<Longrightarrow> cdbs_ok h' m'"
  by (auto simp: cdbs_ok_def same_requests_def)

text \<open>The step every handler of a host makes: buffers and commands are conserved.\<close>

definition host_step :: "nat multiset \<Rightarrow> vsc_ctrl_info \<Rightarrow> midlayer \<Rightarrow> vsc_ctrl_info \<Rightarrow> midlayer \<Rightarrow> bool" where
  "host_step H h m h' m' \<longleftrightarrow> host_inv H h' \<and> phases_ok h' \<and> cdbs_ok h' m' \<and> same_host h h' \<and> same_requests m m' \<and>
     set (allQ h') \<subseteq> set (allQ h) \<and> (reqQ h = [] \<longrightarrow> reqQ h' = []) \<and> (\<forall>j. scsi_cmd (cmd_of h' j) = scsi_cmd (cmd_of h j)) \<and>
     inflight h' + completed m' = inflight h + completed m"

lemma host_step_refl: "host_inv H h \<Longrightarrow> phases_ok h \<Longrightarrow> cdbs_ok h m \<Longrightarrow> host_step H h m h m"
  by (simp add: host_step_def)

lemma host_step_trans:
  "host_step H h m h' m' \<Longrightarrow> host_step H h' m' h'' m'' \<Longrightarrow> host_step H h m h'' m''"
  unfolding host_step_def by (auto intro: same_host_trans same_requests_trans)

lemma host_stepD: "host_step H h m h' m' \<Longrightarrow> host_inv H h' \<and> phases_ok h' \<and> cdbs_ok h' m'"
  by (simp add: host_step_def)

lemma response_step:
  assumes inv: "host_inv H h" "phases_ok h" "cdbs_ok h m"
  obtains r h' m' where "vsc_response_scsi_cmd_new msg h m = Some (r, h', m')" "host_step H h m h' m'"
    "same_events h h'" "r = 0 \<or> r = - EIO" "length (done_log m') = length (done_log m) + of_bool (r = 0)"
proof (cases "answerable (unat (rsp_tag msg)) (rsp_cmd_sn msg) h")
  case True
  let ?c = "unat (rsp_tag msg)"
  have c: "?c \<in> set (rspQ h)" "?c \<in> set (allQ h)" using True by (auto simp: answerable_def allQ_def)
  obtain sc where sc: "scsi_cmd (cmd_of h ?c) = Some sc" using host_inv_linked [OF inv(1) c(2)] by auto
  let ?m = "scsi_done sc (upd_sc sc (set_rsp_result msg) m)"
  note a = answered_inv [OF inv(1,2) c(1) sc]
  have req: "same_requests m ?m"
    by (simp add: same_requests_def scsi_done_def upd_sc_def set_rsp_result_eq)
  have sub: "set (allQ (answered ?c h)) \<subseteq> set (allQ h)" unfolding a(4) by (rule set_remove1_subset)
  have "cdbs_ok (answered ?c h) ?m"
    using inv(3) sub answered_fields(4) req by (rule cdbs_ok_mono)
  moreover have "reqQ h = [] \<longrightarrow> reqQ (answered ?c h) = []" by (simp add: answered_fields)
  ultimately have "host_step H h m (answered ?c h) ?m"
    using a(1-3) sub req by (simp add: host_step_def)
  then show thesis
    using that [of 0 "answered ?c h" ?m] True sc response_eq [OF inv, of msg]
    by (simp add: Let_def) (simp add: scsi_done_def upd_sc_def)
next
  case False
  then show thesis
    using that [of "- EIO" h m] response_eq [OF inv, of msg] inv by (simp add: Let_def host_step_refl)
qed

lemma rsp_loop_step:
  assumes "host_inv H h" "phases_ok h" "cdbs_ok h m" "off + 28 * n \<le> length buf"
  shows "\<exists>r h' m'. rsp_loop buf n off t h m = Some (r, h', m') \<and> host_step H h m h' m' \<and> same_events h h' \<and>
    (\<forall>t'. r = Inr t' \<longrightarrow> (t = 0 \<longrightarrow> t' = 0) \<and> length (done_log m') = length (done_log m) + n)"
  using assms
proof (induction n arbitrary: off t h m)
  case 0
  then show ?case by (simp add: host_step_refl)
next
  case (Suc n)
  have "dec_rsp_msg buf off \<noteq> None"
    using Suc.prems(4) by (simp add: dec_rsp_msg_def rd_words_None)
  then obtain msg where msg: "dec_rsp_msg buf off = Some msg" by auto
  obtain r h1 m1 where r: "vsc_response_scsi_cmd_new msg h m = Some (r, h1, m1)" "host_step H h m h1 m1"
    "same_events h h1" "r = 0 \<or> r = - EIO" "length (done_log m1) = length (done_log m) + of_bool (r = 0)"
    using response_step [OF Suc.prems(1-3)] .
  show ?case
  proof (cases "r = 0")
    case False
    then show ?thesis using msg r by simp
  next
    case True
    have "off + 28 + 28 * n \<le> length buf" using Suc.prems(4) by simp
    with Suc.IH [of h1 m1 "off + 28" "c_int (t + r)"] host_stepD [OF r(2)]
    obtain r' h' m' where l: "rsp_loop buf n (off + 28) (c_int (t + r)) h1 m1 = Some (r', h', m')"
      "host_step H h1 m1 h' m'" "same_events h1 h'"
      "\<forall>t'. r' = Inr t' \<longrightarrow> (c_int (t + r) = 0 \<longrightarrow> t' = 0) \<and> length (done_log m') = length (done_log m1) + n"
      by blast
    have "c_int 0 = 0" by (simp add: c_int_def)
    then show ?thesis
      using True msg r l host_step_trans [OF r(2) l(2)] same_events_trans [OF r(3) l(3)] by auto
  qed
qed

lemma host_step_counts:
  assumes "host_step H h m h1 m'" "same_cmds h1 h'" "same_host h1 h'"
  shows "host_step H h m h' m'"
proof -
  have "allQ h' = allQ h1" using assms(2) by (rule allQ_same_cmds)
  then show ?thesis
    using assms host_inv_same_cmds [OF assms(2)] phases_same_cmds [OF assms(2)] inflight_same_cmds [OF assms(2)]
    unfolding host_step_def
    by (auto simp: cmd_of_same_cmds [OF assms(2)] reqQ_same_cmds [OF assms(2)] cdbs_ok_def intro: same_host_trans)
qed

text \<open>
  A batch of responses: whatever the 112 bytes hold, the driver stays within them, keeps its
  invariant, and neither loses nor repeats a command; it returns 0 exactly when each of the
  announced responses completed a command, \<open>-EINVAL\<close> when none or more than four are announced,
  and \<open>-EIO\<close> at the first response that is refused.
\<close>
lemma response_batch_conserves:
  assumes "host_inv H h" "phases_ok h" "cdbs_ok h m" "off + 112 \<le> length buf"
  shows "\<exists>r h' m' msg. vsc_response_multi_scsi_cmd buf off 112 h m = Some (r, h', m') \<and>
     dec_rsp_msg buf off = Some msg \<and> host_step H h m h' m' \<and> r \<in> {0, - EINVAL, - EIO} \<and>
     (r = - EINVAL \<longleftrightarrow> rsp_reserved0 msg = 0 \<or> 4 < sint (rsp_reserved0 msg)) \<and>
     (r = 0 \<longrightarrow> length (done_log m') = length (done_log m) + nat (sint (rsp_reserved0 msg)))"
proof -
  have "dec_rsp_msg buf off \<noteq> None"
    using assms(4) by (simp add: dec_rsp_msg_def rd_words_None)
  then obtain msg where msg: "dec_rsp_msg buf off = Some msg" by auto
  let ?n = "sint (rsp_reserved0 msg)"
  have n0: "?n = 0 \<longleftrightarrow> rsp_reserved0 msg = 0" by (metis signed_0 signed_word_eqI)
  show ?thesis
  proof (cases "?n = 0 \<or> 4 < ?n")
    case True
    then show ?thesis
      using msg assms n0
      by (auto simp: vsc_response_multi_scsi_cmd_def MAX_BATCH_SCSI_RSP_COUNT_def host_step_refl)
  next
    case False
    then have "nat ?n \<le> nat 4" by (intro nat_mono) simp
    then have "off + 28 * nat ?n \<le> length buf" using assms(4) by linarith
    with rsp_loop_step [OF assms(1-3), of off "nat ?n" buf 0] obtain r h' m' where
      l: "rsp_loop buf (nat ?n) off 0 h m = Some (r, h', m')" "host_step H h m h' m'"
      "\<forall>t'. r = Inr t' \<longrightarrow> t' = 0 \<and> length (done_log m') = length (done_log m) + nat ?n"
      by auto
    let ?h = "h'\<lparr>put_rsp_times := put_rsp_times h' + 1, put_rsp_total := put_rsp_total h' + word_of_int ?n\<rparr>"
    have "host_step H h m ?h m'"
      by (rule host_step_counts [OF l(2)]) (simp_all add: same_cmds_def same_host_def)
    then show ?thesis
      using False l msg n0
      by (cases r) (auto simp: vsc_response_multi_scsi_cmd_def MAX_BATCH_SCSI_RSP_COUNT_def)
  qed
qed

subsection \<open>Data requests\<close>

lemma upd_sc_same [simp]: "upd_sc sc (\<lambda>_. scmds m sc) m = m"
  by (simp add: upd_sc_def)

lemma vsc_xfer_data_frame:
  assumes "vsc_xfer_data command_size sd mode h buf user s um = Some (r, h', s', um')"
  shows "h' = h\<lparr>get_cdb_total := get_cdb_total h'\<rparr>"
    "s' = s\<lparr>sc_sglist := sc_sglist s', sense_buffer := sense_buffer s'\<rparr>"
    "mode = VSC_MODE_READ \<Longrightarrow> s' = s" "mode = VSC_MODE_WRITE \<Longrightarrow> um' = um"
proof -
  have ne: "VSC_MODE_READ \<noteq> VSC_MODE_WRITE" by (simp add: data_consts)
  show "h' = h\<lparr>get_cdb_total := get_cdb_total h'\<rparr>"
    "s' = s\<lparr>sc_sglist := sc_sglist s', sense_buffer := sense_buffer s'\<rparr>"
    using assms by (auto simp: vsc_xfer_data_def bind_eq_Some_conv split: if_splits)
  show "mode = VSC_MODE_READ \<Longrightarrow> s' = s" "mode = VSC_MODE_WRITE \<Longrightarrow> um' = um"
    using assms ne by (auto simp: vsc_xfer_data_def bind_eq_Some_conv split: if_splits)
qed

lemma data_request_spec:
  assumes inv: "host_inv H h" "phases_ok h"
    and run: "vsc_scsi_cmd_data command_size mode buf user len dl (h, m, um) = Some (r, dl', h', m', um')"
  shows "\<exists>msg. dec_scsi_data_msg buf user = Some msg \<and> h' = h\<lparr>get_cdb_total := get_cdb_total h'\<rparr> \<and>
    (if answerable (unat (dm_tag msg)) (dm_cmd_sn msg) h
     then \<exists>sc s. scsi_cmd (cmd_of h (unat (dm_tag msg))) = Some sc \<and> m' = upd_sc sc (\<lambda>_. s) m \<and>
            s = (scmds m sc)\<lparr>sc_sglist := sc_sglist s, sense_buffer := sense_buffer s\<rparr>
     else r = - EIO \<and> h' = h \<and> m' = m \<and> um' = um) \<and>
    (mode = VSC_MODE_READ \<longrightarrow> m' = m) \<and> (mode = VSC_MODE_WRITE \<longrightarrow> um' = um)"
proof -
  from run obtain msg where msg: "dec_scsi_data_msg buf user = Some msg"
    by (auto simp: vsc_scsi_cmd_data_def bind_eq_Some_conv)
  let ?c = "unat (dm_tag msg)" and ?ok = "answerable (unat (dm_tag msg)) (dm_cmd_sn msg) h"
  note iff = linked_read_comp [OF inv, of ?c "dm_cmd_sn msg"]
  have sc: "\<exists>sc. scsi_cmd (cmd_of h ?c) = Some sc" if ?ok
    using host_inv_linked [OF inv(1), of ?c] that by (auto simp: answerable_def allQ_def)
  have id: "\<exists>s. m = upd_sc sc (\<lambda>_. s) m \<and> s = (scmds m sc)\<lparr>sc_sglist := sc_sglist s, sense_buffer := sense_buffer s\<rparr>" for sc
    by (rule exI [of _ "scmds m sc"]) simp
  show ?thesis
  proof (cases "dm_type msg \<noteq> VSC_MSG_TYPE_SCSI_DATA \<or> nr_cmds h \<le> ?c \<or>
      word_of_int len < dm_scsi_data_len msg \<or> \<not> ?ok")
    case True
    then have "r = - EIO \<and> h' = h \<and> m' = m \<and> um' = um"
      using run msg iff sc by (auto simp: vsc_scsi_cmd_data_def find_data_cmd_def Let_def not_le split: if_splits)
    then show ?thesis using msg sc id by auto
  next
    case False
    then obtain sc where s: "scsi_cmd (cmd_of h ?c) = Some sc" using sc by auto
    have find: "find_data_cmd msg h = Some (Inr sc)"
      using False iff s by (simp add: find_data_cmd_def Let_def)
    from run False msg find obtain sd r' s1 where
      x: "vsc_xfer_data command_size sd mode h buf (user + 44) (scmds m sc) um = Some (r', h', s1, um')"
      and m': "m' = upd_sc sc (\<lambda>_. s1) m"
      by (auto simp: vsc_scsi_cmd_data_def bind_eq_Some_conv Let_def split: if_splits)
    note f = vsc_xfer_data_frame [OF x]
    then have "mode = VSC_MODE_READ \<Longrightarrow> m' = m" using m' by simp
    then show ?thesis using msg f(1,2,4) False s m' by auto
  qed
qed

text \<open>
  (C23) A data request touches one command: it is refused with \<open>-EIO\<close> and without effect unless its
  tag and sequence number name a buffer that is outstanding at the target. Otherwise only the
  data and sense bytes of that buffer's command can change, a read changes no command at all, a
  write changes no user memory, and the host keeps everything but its CDB counter.
\<close>
theorem data_request_touches_one:
  assumes inv: "host_inv H h" "phases_ok h"
    and run: "vsc_scsi_cmd_data command_size mode buf user len dl (h, m, um) = Some (r, dl', h', m', um')"
  shows "\<exists>msg. dec_scsi_data_msg buf user = Some msg \<and> h' = h\<lparr>get_cdb_total := get_cdb_total h'\<rparr> \<and>
    (if answerable (unat (dm_tag msg)) (dm_cmd_sn msg) h
     then \<exists>sc s. scsi_cmd (cmd_of h (unat (dm_tag msg))) = Some sc \<and> m' = upd_sc sc (\<lambda>_. s) m \<and>
            s = (scmds m sc)\<lparr>sc_sglist := sc_sglist s, sense_buffer := sense_buffer s\<rparr>
     else r = - EIO \<and> h' = h \<and> m' = m \<and> um' = um) \<and>
    (mode = VSC_MODE_READ \<longrightarrow> m' = m) \<and> (mode = VSC_MODE_WRITE \<longrightarrow> um' = um)"
  by (rule data_request_spec [OF inv run])

subsection \<open>The guarded buffer\<close>

lemma le_bytes_word:
  assumes "length bs = 4"
  shows "le_bytes 4 (le_word bs :: u32) = bs"
proof -
  obtain a b c d where bs: "bs = [a, b, c, d]"
    using assms by (auto simp: numeral_eq_Suc length_Suc_conv)
  have beyond: "\<not> bit x (k + n)" if "8 \<le> k" for x :: byte and k n
    using that bit_imp_le_length [of x "k + n"] by auto
  have up: "[0..<4] = [0, 1, 2, 3]" by (simp add: upt_rec)
  show ?thesis
    unfolding bs le_bytes_def up by (auto intro!: bit_eqI simp: bit_simps beyond)
qed


subsection \<open>An outstanding command\<close>

text \<open>The host of the example with its first buffer handed to the target.\<close>

definition example_out_cmd :: vsc_cmnd_list where
  "example_out_cmd = \<lparr>cmd_index = 0, cstat = CMD_STAT_READ_COMP, scsi_cmd = Some 5, cmd_sn = 1, crefcnt = 1\<rparr>"

definition example_out_host :: vsc_ctrl_info where
  "example_out_host = example_host\<lparr>rspQ := [0], io_running := 1, h_cmd_sn := 1,
     cmd_pool_tbl := [example_out_cmd, example_cmd], cmd_pool_bits := [1]\<rparr>"

definition example_rsp :: vsc_scsi_rsp_msg where
  "example_rsp = \<lparr>rsp_type = 3, rsp_reserved0 = 1, rsp_reserved1 = 0, rsp_cmd_sn = 1, rsp_tag = 0,
     rsp_command_status = 1, rsp_scsi_status = 1\<rparr>"

lemma example_out_pool: "pool_wf [1] 2" "pool_used [1] 2 = {0}"
  by (auto simp: pool_wf_def pool_used_def pool_bit_def BITS_PER_LONG_def less_2_cases_iff)

lemma example_out_ok:
  "host_inv {#} example_out_host" "phases_ok example_out_host" "cdbs_ok example_out_host (mid example_world)"
  by (auto simp: host_inv_defs allQ_def cmd_used_def example_out_host_def example_out_cmd_def example_out_pool
      phases_ok_def cdbs_ok_def less_2_cases_iff) (simp_all add: example_host_def example_cmd_def zero_ctrl_def)

theorem response_completes_once_witness:
  "\<exists>h' m'. vsc_response_scsi_cmd_new example_rsp example_out_host (mid example_world) = Some (0, h', m') \<and>
     host_inv {#} h' \<and> done_log m' = [(5, 2)] \<and> allQ h' = [] \<and>
     vsc_response_scsi_cmd_new example_rsp h' m' = Some (- EIO, h', m')"
proof -
  have a: "answerable (unat (rsp_tag example_rsp)) (rsp_cmd_sn example_rsp) example_out_host"
    by (simp add: answerable_def example_rsp_def example_out_host_def example_out_cmd_def)
  have q: "allQ example_out_host = [0]"
    by (simp add: allQ_def example_out_host_def) (simp add: example_host_def zero_ctrl_def)
  have r: "sc_result (set_rsp_result example_rsp s) = 2" for s
    by (simp add: set_rsp_result_eq status_host_byte_def cmd_status_consts example_rsp_def)
  have s: "scsi_cmd (cmd_of example_out_host 0) = Some 5"
    by (simp add: example_out_host_def example_out_cmd_def)
  from response_completes_once [OF example_out_ok, of example_rsp] a show ?thesis
    by (auto simp: q r s) (simp_all add: example_rsp_def q s)
qed

lemma response_batch_conserves_witness:
  "\<exists>r h' m'. vsc_response_multi_scsi_cmd (enc_words (vsc_scsi_rsp_msg_words example_rsp) @ replicate 84 0) 0 112
       example_out_host (mid example_world) = Some (r, h', m') \<and> r \<noteq> - EINVAL \<and>
     host_step {#} example_out_host (mid example_world) h' m'"
proof -
  let ?buf = "enc_words (vsc_scsi_rsp_msg_words example_rsp) @ replicate 84 0"
  have len: "0 + 112 \<le> length ?buf" by (simp add: rmsg.to_words_length)
  have "dec_rsp_msg ?buf 0 = Some example_rsp"
    using rmsg.cd.dec_enc [of "[]" example_rsp "replicate 84 0"] by (simp add: dec_rsp_msg_def)
  with response_batch_conserves [OF example_out_ok len] show ?thesis
    by (auto simp: example_rsp_def)
qed


text \<open>A request for the CDB of the outstanding command.\<close>

definition example_dmsg :: vsc_scsi_data_msg where
  "example_dmsg = \<lparr>dm_type = 2, dm_reserved0 = 1, dm_reserved1 = 0, dm_cmd_sn = 1, dm_tag = 0, dm_scsi_data_len = 60\<rparr>"

definition example_cdb_sd :: vsc_scsi_data where
  "example_cdb_sd = \<lparr>sd_data_type = 1, sd_data_len = 36, sd_nr_iovec = 1, sd_total_iovec_len = 10, sd_offset = 0\<rparr>"

definition example_request :: "byte list" where
  "example_request = enc_words (vsc_scsi_data_msg_words example_dmsg) @ enc_words (vsc_scsi_data_words example_cdb_sd) @
     enc_iovec \<lparr>iov_base = 100, iov_len = 16\<rparr>"

lemma example_request_dec:
  "dec_scsi_data_msg example_request 0 = Some example_dmsg"
  "dec_scsi_data example_request 24 = Some example_cdb_sd"
  "dec_iovec example_request 44 = Some \<lparr>iov_base = 100, iov_len = 16\<rparr>"
  using dmsg.cd.dec_enc [of "[]" example_dmsg
      "enc_words (vsc_scsi_data_words example_cdb_sd) @ enc_iovec \<lparr>iov_base = 100, iov_len = 16\<rparr>"]
    sdata.cd.dec_enc [of "enc_words (vsc_scsi_data_msg_words example_dmsg)" example_cdb_sd
      "enc_iovec \<lparr>iov_base = 100, iov_len = 16\<rparr>"]
    iov.dec_enc [of "enc_words (vsc_scsi_data_msg_words example_dmsg) @ enc_words (vsc_scsi_data_words example_cdb_sd)"
      "\<lparr>iov_base = 100, iov_len = 16\<rparr>" "[]"]
  by (simp_all add: example_request_def dec_scsi_data_msg_def dec_scsi_data_def
      dmsg.to_words_length sdata.to_words_length)

lemma example_request_run:
  "\<exists>um. vsc_scsi_cmd_data length VSC_MODE_READ example_request 0 60 0
      (example_out_host, mid example_world, \<lambda>_. Some 0) =
    Some (10, 36, example_out_host\<lparr>get_cdb_total := 1\<rparr>, mid example_world, um) \<and> um 100 = Some 0x28"
proof -
  let ?h = "example_out_host"
  have f: "nr_cmds ?h = 2" "cmd_of ?h 0 = example_out_cmd" "\<not> cmd_unlinked 0 ?h" "get_cdb_total ?h = 0"
    by (simp_all add: example_out_host_def cmd_unlinked_def allQ_def) (simp_all add: example_host_def zero_ctrl_def)
  have c: "c_int 10 = 10" by (simp add: c_int_def)
  have rep: "replicate 9 (0 :: byte) = [0, 0, 0, 0, 0, 0, 0, 0, 0]" by (simp add: eval_nat_numeral)
  have x: "\<exists>um. vsc_xfer_data length example_cdb_sd VSC_MODE_READ ?h example_request 44 example_scmd (\<lambda>_. Some 0) =
      Some (10, ?h\<lparr>get_cdb_total := 1\<rparr>, example_scmd, um) \<and> um 100 = Some 0x28"
    by (simp add: vsc_xfer_data_def vsc_copy_data_to_iovec_def example_cdb_sd_def data_consts vsc_msg_consts f
        example_request_dec rd_bytes_def Let_def poke_def rep)
  then obtain um where um: "vsc_xfer_data length example_cdb_sd VSC_MODE_READ ?h example_request 44 example_scmd (\<lambda>_. Some 0) =
      Some (10, ?h\<lparr>get_cdb_total := 1\<rparr>, example_scmd, um)" "um 100 = Some 0x28" by blast
  have "upd_sc 5 (\<lambda>_. example_scmd) (mid example_world) = mid example_world"
    using upd_sc_same [of 5 "mid example_world"] by simp
  moreover have "find_data_cmd example_dmsg ?h = Some (Inr 5)"
    by (simp add: find_data_cmd_def example_dmsg_def f) (simp add: example_out_cmd_def)
  ultimately show ?thesis
    using um c f
    by (simp add: vsc_scsi_cmd_data_def example_request_dec) (simp add: example_dmsg_def example_cdb_sd_def vsc_msg_consts)
qed

theorem data_request_touches_one_witness:
  "\<exists>h' m' um'. vsc_scsi_cmd_data length VSC_MODE_READ example_request 0 60 0
      (example_out_host, mid example_world, \<lambda>_. Some 0) = Some (10, 36, h', m', um') \<and> m' = mid example_world \<and>
     h' = example_out_host\<lparr>get_cdb_total := get_cdb_total h'\<rparr>"
  using example_request_run data_request_touches_one [OF example_out_ok(1,2),
      of length VSC_MODE_READ example_request 0 60 0 "mid example_world" "\<lambda>_. Some 0"] by blast

end
