(* ===== verification/Vsc_Entry.thy ===== *)
theory Vsc_Entry
  imports Vsc_Answers
begin

text \<open>
  The two entry points of the open file, \<open>vsc_get_msg\<close> and \<open>vsc_response_msg\<close>, over everything a
  target can send: they keep the invariants of the host's commands and events and conserve the
  commands, and the answer to an event decides what the waiting error handler reports.
\<close>

lemma case_sum_Some: "(case x of Inl a \<Rightarrow> f a | Inr b \<Rightarrow> g b) = Some y \<longleftrightarrow>
    (\<exists>a. x = Inl a \<and> f a = Some y) \<or> (\<exists>b. x = Inr b \<and> g b = Some y)"
  by (cases x) auto

subsection \<open>Commands\<close>

lemma batch_returned_phases:
  assumes inv: "host_inv H h" and ph: "phases_ok h"
  shows "phases_ok (batch_returned h)"
proof -
  have len: "i < length (cmd_pool_tbl h)" if "i \<in> set (allQ h)" for i
    using host_inv_linked [OF inv that] by simp
  have d: "distinct (allQ h)" using inv by (simp add: host_inv_defs)
  have sub: "set (take 4 (cmpQ h)) \<subseteq> set (cmpQ h)" "set (drop 4 (cmpQ h)) \<subseteq> set (cmpQ h)"
    by (rule set_take_subset, rule set_drop_subset)
  then show ?thesis
    using ph len d unfolding phases_ok_def batch_returned_def
    by (auto simp: mark_stat_nth allQ_def disjoint_iff subset_iff)
qed

lemma host_step_batch:
  assumes inv: "host_inv H h" "phases_ok h" "cdbs_ok h m"
  shows "host_step H h m (batch_taken h) m" "host_step H h m (batch_returned h) m"
proof -
  have q: "set (allQ (batch_taken h)) = set (allQ h)" "set (allQ (batch_returned h)) = set (allQ h)"
    using set_append [of "take 4 (cmpQ h)" "drop 4 (cmpQ h)"] by (auto simp: batch_taken_def batch_returned_def allQ_def)
  have sc: "scsi_cmd (cmd_of (batch_taken h) j) = scsi_cmd (cmd_of h j)"
    "scsi_cmd (cmd_of (batch_returned h) j) = scsi_cmd (cmd_of h j)" for j
    by (cases "j < length (cmd_pool_tbl h)"; simp add: batch_taken_def batch_returned_def mark_stat_nth mark_stat_beyond)+
  have "cdbs_ok (batch_taken h) m" "cdbs_ok (batch_returned h) m"
    by (rule cdbs_ok_mono [OF inv(3)]; simp add: q sc)+
  moreover have "same_host h (batch_taken h)" "same_host h (batch_returned h)"
    "reqQ (batch_taken h) = reqQ h" "reqQ (batch_returned h) = reqQ h"
    by (simp_all add: same_host_def batch_taken_def batch_returned_def)
  ultimately show "host_step H h m (batch_taken h) m" "host_step H h m (batch_returned h) m"
    using batch_taken_inv [OF inv(1)] batch_returned_inv [OF inv(1)] inv batch_returned_phases [OF inv(1,2)]
    by (simp_all add: host_step_def q sc)
qed

lemma get_multi_step:
  assumes inv: "host_inv H h" "phases_ok h" "cdbs_ok h m"
    and run: "vsc_get_multi_scsi_cmd_and_cdb command_size stk m user_ptr len h um = Some (r, h', um')"
  shows "host_step H h m h' m" "same_events h h'"
proof -
  have "h' = h \<or> h' = batch_taken h \<or> h' = batch_returned h"
  proof (cases "len = int MAX_SCSI_MSG_AND_CDB_LENGTH \<and> cmpQ h \<noteq> []")
    case False
    then show ?thesis using run by (auto simp: vsc_get_multi_scsi_cmd_and_cdb_def split: if_splits)
  next
    case True
    let ?cs = "take 4 (cmpQ h)"
    let ?h1 = "h\<lparr>cmpQ := drop 4 (cmpQ h), rspQ := rspQ h @ ?cs, get_cmd_times := get_cmd_times h + 1,
        get_cmd_total := get_cmd_total h + of_nat (min (length (cmpQ h)) 4)\<rparr>"
    from True run obtain msgs h2 where fm: "fill_msgs command_size ?cs m ?h1 stk = Some (msgs, h2)"
      and h': "h' = h2 \<or> h' = get_multi_putback ?cs h2"
      by (auto simp: vsc_get_multi_scsi_cmd_and_cdb_def get_multi_take_eq [OF inv(1)] bind_eq_Some_conv split_beta Let_def
          split: if_splits)
    have h2: "h2 = batch_taken h" using fill_msgs_state [OF fm] by (simp add: batch_taken_def)
    have d: "distinct (allQ h)" using inv by (simp add: host_inv_defs)
    have sub: "set ?cs \<subseteq> set (cmpQ h)" by (rule set_take_subset)
    have "distinct (allQ h2)" "set ?cs \<subseteq> set (rspQ h2)"
      using batch_taken_inv(1) [OF inv(1)] by (auto simp: h2 host_inv_defs batch_taken_def)
    then have "get_multi_putback ?cs h2 = h2\<lparr>cmd_pool_tbl := mark_stat CMD_STAT_REQUEST ?cs (cmd_pool_tbl h2),
       cmpQ := rev ?cs @ cmpQ h2, rspQ := fold remove1 ?cs (rspQ h2)\<rparr>"
      using d by (intro get_multi_putback_eq) (auto simp: allQ_def)
    moreover have "fold remove1 ?cs (rspQ h @ ?cs) = rspQ h"
      using d sub by (intro fold_remove1_append) (auto simp: allQ_def)
    ultimately have "get_multi_putback ?cs h2 = batch_returned h"
      by (simp add: h2 batch_taken_def batch_returned_def)
    then show ?thesis using h' h2 by auto
  qed
  then show "host_step H h m h' m" "same_events h h'"
    using host_step_batch [OF inv] host_step_refl [OF inv]
    by (auto simp: same_events_def batch_taken_def batch_returned_def)
qed

lemma data_step:
  assumes inv: "host_inv H h" "phases_ok h" "cdbs_ok h m"
    and run: "vsc_scsi_cmd_data command_size mode buf user len dl (h, m, um) = Some (r, dl', h', m', um')"
  shows "host_step H h m h' m'" "same_events h h'"
proof -
  from data_request_spec [OF inv(1,2) run] obtain msg where
    h': "h' = h\<lparr>get_cdb_total := get_cdb_total h'\<rparr>"
    and m': "(\<exists>sc s. m' = upd_sc sc (\<lambda>_. s) m \<and>
      s = (scmds m sc)\<lparr>sc_sglist := sc_sglist s, sense_buffer := sense_buffer s\<rparr>) \<or> m' = m"
    by (auto split: if_splits)
  have req: "same_requests m m'" "completed m' = completed m"
  proof -
    have "same_requests m (upd_sc sc (\<lambda>_. s) m)"
      if "s = (scmds m sc)\<lparr>sc_sglist := sc_sglist s, sense_buffer := sense_buffer s\<rparr>" for sc s
      by (subst that) (simp add: same_requests_def upd_sc_def)
    then show "same_requests m m'" "completed m' = completed m" using m' by auto
  qed
  have c: "same_cmds h h'" "same_host h h'" "same_events h h'"
    by (subst h', simp add: same_cmds_def same_host_def same_events_def)+
  have "cdbs_ok h m'" by (rule cdbs_ok_mono [OF inv(3) _ _ req(1)]) simp_all
  then have "host_step H h m h m'" using inv req by (simp add: host_step_def)
  then show "host_step H h m h' m'" using c(1,2) by (rule host_step_counts)
  show "same_events h h'" by (rule c)
qed

lemma data_loop_step:
  assumes "host_inv H h" "phases_ok h" "cdbs_ok h m"
    and "cmd_data_loop command_size mode buf n temp len dl t (h, m, um) = Some (r, h', m', um')"
  shows "host_step H h m h' m' \<and> same_events h h'"
  using assms
proof (induction n arbitrary: temp len dl t h m um)
  case 0
  then show ?case by (simp add: host_step_refl)
next
  case (Suc n)
  from Suc.prems(4) obtain ret dl1 h1 m1 um1 where
    d: "vsc_scsi_cmd_data command_size mode buf temp len dl (h, m, um) = Some (ret, dl1, h1, m1, um1)"
    and rest: "(if ret < 0 then Some (Inl (), h1, m1, um1)
      else cmd_data_loop command_size mode buf n (temp + SCSI_MAX_DATA_BUF_SIZE)
             (len - int SCSI_MAX_DATA_BUF_SIZE) dl1 (c_int (t + ret)) (h1, m1, um1)) = Some (r, h', m', um')"
    by (auto simp: bind_eq_Some_conv)
  note s = data_step [OF Suc.prems(1-3) d]
  show ?case
  proof (cases "ret < 0")
    case True
    then show ?thesis using rest s by auto
  next
    case False
    with rest Suc.IH [of h1 m1] host_stepD [OF s(1)] have "host_step H h1 m1 h' m' \<and> same_events h1 h'"
      by auto
    then show ?thesis using host_step_trans [OF s(1)] same_events_trans [OF s(2)] by blast
  qed
qed

lemma multi_data_step:
  assumes inv: "host_inv H h" "phases_ok h" "cdbs_ok h m"
    and run: "vsc_multi_scsi_cmd_data command_size pool mode user_ptr len (h, m, um) = Some (r, h', m', um')"
  shows "host_step H h m h' m' \<and> same_events h h'"
proof -
  from run have "(h' = h \<and> m' = m) \<or>
    (\<exists>buf n x. cmd_data_loop command_size mode buf n 4 len 0 0 (h, m, um) = Some (x, h', m', um'))"
    by (auto simp: vsc_multi_scsi_cmd_data_def bind_eq_Some_conv Let_def split: option.splits if_splits)
  then show ?thesis using data_loop_step [OF inv] host_step_refl [OF inv] by auto
qed

lemma response_multi_step:
  assumes inv: "host_inv H h" "phases_ok h" "cdbs_ok h m"
    and run: "vsc_response_multi_scsi_cmd buf off len h m = Some (r, h', m')"
  shows "host_step H h m h' m' \<and> same_events h h'"
proof -
  have loop: "host_step H h m h' m' \<and> same_events h h'"
    if "host_inv H h" "phases_ok h" "cdbs_ok h m" "rsp_loop buf n off t h m = Some (r, h', m')" for n off t h m r h' m'
    using that
  proof (induction n arbitrary: off t h m)
    case 0
    then show ?case by (simp add: host_step_refl)
  next
    case (Suc n)
    from Suc.prems(4) obtain msg ret h1 m1 where
      one: "vsc_response_scsi_cmd_new msg h m = Some (ret, h1, m1)"
      and rest: "(if ret < 0 then Some (Inl (), h1, m1)
        else rsp_loop buf n (off + 28) (c_int (t + ret)) h1 m1) = Some (r, h', m')"
      by (auto simp: bind_eq_Some_conv)
    obtain ret' h1' m1' where "vsc_response_scsi_cmd_new msg h m = Some (ret', h1', m1')"
      "host_step H h m h1' m1'" "same_events h h1'"
      by (rule response_step [OF Suc.prems(1-3)])
    with one have s: "host_step H h m h1 m1" "same_events h h1" by simp_all
    show ?case
    proof (cases "ret < 0")
      case True
      then show ?thesis using rest s by auto
    next
      case False
      with rest Suc.IH [of h1 m1] host_stepD [OF s(1)] have "host_step H h1 m1 h' m' \<and> same_events h1 h'"
        by auto
      then show ?thesis using host_step_trans [OF s(1)] same_events_trans [OF s(2)] by blast
    qed
  qed
  from run have "(h' = h \<and> m' = m) \<or>
    (\<exists>n x h1 a b. rsp_loop buf n off 0 h m = Some (x, h1, m') \<and>
       (h' = h1 \<or> h' = h1\<lparr>put_rsp_times := a, put_rsp_total := b\<rparr>))"
    by (auto simp: vsc_response_multi_scsi_cmd_def bind_eq_Some_conv case_sum_Some Let_def split: if_splits) blast+
  then show ?thesis
  proof (elim disjE exE conjE)
    fix n x h1 a b
    assume "rsp_loop buf n off 0 h m = Some (x, h1, m')" and h': "h' = h1\<lparr>put_rsp_times := a, put_rsp_total := b\<rparr>"
    with loop [OF inv] have s: "host_step H h m h1 m'" "same_events h h1" by auto
    have "host_step H h m h' m'"
      by (rule host_step_counts [OF s(1)]) (simp_all add: h' same_cmds_def same_host_def)
    then show ?thesis using s(2) by (simp add: h' same_events_def)
  qed (use loop [OF inv] host_step_refl [OF inv] in auto)
qed

lemma response_multi_data_step:
  assumes inv: "host_inv H h" "phases_ok h" "cdbs_ok h m"
    and run: "vsc_response_multi_data_and_rsp command_size pool mode user_ptr len (h, m, um) = Some (r, h', m', um')"
  shows "host_step H h m h' m' \<and> same_events h h'"
proof -
  from run have "(h' = h \<and> m' = m) \<or>
    (\<exists>buf n x h1 m1 um1. cmd_data_loop command_size mode buf n 4 len 0 0 (h, m, um) = Some (x, h1, m1, um1) \<and>
       (h' = h1 \<and> m' = m1 \<or>
        (\<exists>y off len'. vsc_response_multi_scsi_cmd buf off len' h1 m1 = Some (y, h', m'))))"
    by (auto simp: vsc_response_multi_data_and_rsp_def bind_eq_Some_conv case_sum_Some Let_def split: option.splits if_splits) blast+
  then show ?thesis
  proof (elim disjE exE conjE)
    fix buf n x h1 m1 um1 y off len'
    assume l: "cmd_data_loop command_size mode buf n 4 len 0 0 (h, m, um) = Some (x, h1, m1, um1)"
      and y: "vsc_response_multi_scsi_cmd buf off len' h1 m1 = Some (y, h', m')"
    have s: "host_step H h m h1 m1" "same_events h h1" using data_loop_step [OF inv l] by auto
    have "host_step H h1 m1 h' m' \<and> same_events h1 h'"
      using response_multi_step [OF _ _ _ y] host_stepD [OF s(1)] by auto
    then show ?thesis using host_step_trans [OF s(1)] same_events_trans [OF s(2)] by blast
  qed (use data_loop_step [OF inv] host_step_refl [OF inv] in auto)
qed

subsection \<open>Events\<close>

text \<open>What the handlers of events leave alone.\<close>

definition event_step :: "vsc_ctrl_info \<Rightarrow> vsc_ctrl_info \<Rightarrow> bool" where
  "event_step h h' \<longleftrightarrow> same_cmds h h' \<and> same_host h h' \<and> mset (all_eventQ h') = mset (all_eventQ h) \<and>
     (\<forall>HE. event_inv HE h \<longrightarrow> event_inv HE h')"

lemma event_step_refl [simp]: "event_step h h"
  by (simp add: event_step_def)

lemma event_step_trans: "event_step h h' \<Longrightarrow> event_step h' h'' \<Longrightarrow> event_step h h''"
  unfolding event_step_def by (auto intro: same_cmds_trans same_host_trans)

lemma event_step_upd:
  assumes "event_step h h'" "\<And>x. event_index (f x) = event_index x" "\<And>x. erefcnt (f x) = erefcnt x"
  shows "event_step h (upd_event e f h')"
proof (rule event_step_trans [OF assms(1)])
  have "all_eventQ (upd_event e f h') = all_eventQ h'" by (simp add: upd_event_def all_eventQ_def)
  then show "event_step h' (upd_event e f h')"
    using upd_event_inv [OF _ assms(2,3)] same_cmds_event(1) same_host_event(1) by (auto simp: event_step_def)
qed

lemma run_event_callback_step:
  assumes "run_event_callback cb type e dt data dl h = Some (r, h')"
  shows "event_step h h'"
proof -
  obtain p where "h' = h \<or> h' = upd_event e (\<lambda>x. x\<lparr>event_priv := p\<rparr>) h"
    using run_event_callback_frame(2) [OF assms] by blast
  then show ?thesis using event_step_upd [OF event_step_refl, of "\<lambda>x. x\<lparr>event_priv := p\<rparr>"] by auto
qed

lemma response_event_step:
  assumes "vsc_response_event user_ptr len um h = Some (r, h')"
  shows "event_step h h'"
proof -
  define up1 where "up1 e h = upd_event e (\<lambda>x. x\<lparr>estat := EVENT_LIST_STAT_RESP\<rparr>) h" for e h
  define up2 where "up2 e n bs h = upd_event e (\<lambda>x. x\<lparr>event_data_len := n,
      event_data := page_write 0 bs (event_data x)\<rparr>) h" for e n bs h
  define up4 where "up4 e h = upd_event e (\<lambda>x. x\<lparr>shoot := EVENT_SHOOT_SHOOT, e_waiting := False\<rparr>) h" for e h
  note ups = up1_def [symmetric] up2_def [symmetric] up4_def [symmetric]
  have s1: "event_step h (up1 e h)" for e
    unfolding up1_def by (rule event_step_upd) simp_all
  have s2: "event_step h (up2 e n bs (up1 e h))" for e n bs
    unfolding up2_def by (rule event_step_upd [OF s1]) simp_all
  have s4: "event_step h (up4 e h3)" if "run_event_callback cb ty e dt data dl (up2 e n bs (up1 e h)) = Some (x, h3)"
    for e n bs cb ty dt data dl x h3
    unfolding up4_def by (rule event_step_upd [OF event_step_trans [OF s2 run_event_callback_step [OF that]]]) simp_all
  show ?thesis
    using assms unfolding vsc_response_event_def ups
    by (auto simp: bind_eq_Some_conv Let_def split_beta s1 s2 dest!: s4 split: if_splits option.splits)
qed

subsection \<open>The entry points\<close>

text \<open>
  \<open>host_ok\<close> is everything the driver keeps about one host: \<open>H\<close> and \<open>HE\<close> are the command and
  event buffers held by running handlers.
\<close>

definition host_ok :: "nat multiset \<Rightarrow> nat multiset \<Rightarrow> vsc_ctrl_info \<Rightarrow> midlayer \<Rightarrow> bool" where
  "host_ok H HE h m \<longleftrightarrow> host_inv H h \<and> phases_ok h \<and> cdbs_ok h m \<and> event_inv HE h"

definition file_step ::
  "nat multiset \<Rightarrow> nat multiset \<Rightarrow> vsc_ctrl_info \<Rightarrow> midlayer \<Rightarrow> vsc_ctrl_info \<Rightarrow> midlayer \<Rightarrow> bool" where
  "file_step H HE h m h' m' \<longleftrightarrow> host_step H h m h' m' \<and> event_inv HE h' \<and> mset (all_eventQ h') = mset (all_eventQ h)"

lemma file_step_events:
  assumes "host_ok H HE h m" "host_step H h m h' m'" "same_events h h'"
  shows "file_step H HE h m h' m'"
  using assms event_inv_same_events [OF assms(3)]
  by (simp add: file_step_def host_ok_def) (simp add: same_events_def all_eventQ_def)

lemma host_step_same_cmds: "host_ok H HE h m \<Longrightarrow> same_cmds h h' \<Longrightarrow> same_host h h' \<Longrightarrow> host_step H h m h' m"
  by (rule host_step_counts [OF host_step_refl]) (simp_all add: host_ok_def)

lemma file_step_refl: "host_ok H HE h m \<Longrightarrow> file_step H HE h m h m"
  by (simp add: host_ok_def file_step_def host_step_refl)

lemma file_step_upd_stat:
  assumes "file_step H HE h m h' m'"
  shows "file_step H HE h m (upd_stat f h') m'"
  using assms host_step_counts [OF _ upd_stat_frame(1,3)] event_inv_same_events [OF upd_stat_frame(2)]
  by (simp add: file_step_def) (simp add: upd_stat_def all_eventQ_def)

lemma file_step_or_fail:
  "file_step H HE h m g m' \<Longrightarrow> h' = g \<or> h' = upd_stat f g \<Longrightarrow> file_step H HE h m h' m'"
  using file_step_upd_stat by blast

lemma get_scsi_cmd_msg_step:
  assumes ok: "host_ok H HE h m" and sleep: "nonblock \<or> has_work h"
    and run: "vsc_get_scsi_cmd_msg command_size stk pad wait nonblock m user_ptr len h um = Some (r, h', um')"
  shows "file_step H HE h m h' m"
proof -
  define fail where "fail = upd_stat (\<lambda>s. s\<lparr>read_fail_count := read_fail_count s + 1\<rparr>)"
  have w: "wait_for_work wait nonblock h = Some (if has_work h then Inr () else Inl (- EAGAIN, False), h)"
    using sleep by (subst wait_for_work.simps) (auto simp: has_work_def)
  obtain x g u where e: "vsc_get_event pad user_ptr len h um = (x, g, u)" by (cases "vsc_get_event pad user_ptr len h um")
  from run have "h' = h \<or> (h' = g \<or> h' = fail g) \<or>
    (\<exists>x g u. vsc_get_multi_scsi_cmd_and_cdb command_size stk m user_ptr len h um = Some (x, g, u) \<and> (h' = g \<or> h' = fail g))"
    by (auto simp: vsc_get_scsi_cmd_msg_def w e fail_def bind_eq_Some_conv split: if_splits)
  then consider "h' = h" | "h' = g \<or> h' = fail g"
    | x g u where "vsc_get_multi_scsi_cmd_and_cdb command_size stk m user_ptr len h um = Some (x, g, u)" "h' = g \<or> h' = fail g"
    by blast
  then show ?thesis
  proof cases
    case 1
    then show ?thesis using file_step_refl [OF ok] by simp
  next
    case 2
    have "event_inv HE h" using ok by (simp add: host_ok_def)
    from get_event_inv [OF this e] have "file_step H HE h m g m"
      using host_step_same_cmds [OF ok] by (simp add: file_step_def)
    then show ?thesis using 2 unfolding fail_def by (rule file_step_or_fail)
  next
    case 3
    have "host_inv H h" "phases_ok h" "cdbs_ok h m" using ok by (simp_all add: host_ok_def)
    note s = get_multi_step [OF this 3(1)]
    show ?thesis using file_step_events [OF ok s] 3(2) unfolding fail_def by (rule file_step_or_fail)
  qed
qed

lemma get_msg_step:
  assumes ok: "host_ok H HE h m" and sleep: "nonblock \<or> has_work h"
    and run: "vsc_get_msg command_size stk pad pool wait nonblock user_ptr len (Some h) m um = Some (r, h', m', um')"
  shows "file_step H HE h m h' m'"
proof -
  have inv: "host_inv H h" "phases_ok h" "cdbs_ok h m" using ok by (simp_all add: host_ok_def)
  from run have "(h' = h \<or> h' = count_read_fail h) \<and> m' = m \<or>
    (\<exists>x g u. vsc_get_scsi_cmd_msg command_size stk pad wait nonblock m user_ptr len h um = Some (x, g, u) \<and>
       (h' = g \<or> h' = count_read_fail g) \<and> m' = m) \<or>
    (\<exists>x g m1 u. vsc_multi_scsi_cmd_data command_size pool VSC_MODE_READ user_ptr len (h, m, um) = Some (x, g, m1, u) \<and>
       (h' = g \<or> h' = count_read_fail g) \<and> m' = m1)"
    by (auto simp: vsc_get_msg_def bind_eq_Some_conv split: option.splits if_splits)
  then consider "h' = h \<or> h' = count_read_fail h" "m' = m"
    | x g u where "vsc_get_scsi_cmd_msg command_size stk pad wait nonblock m user_ptr len h um = Some (x, g, u)"
      "h' = g \<or> h' = count_read_fail g" "m' = m"
    | x g m1 u where "vsc_multi_scsi_cmd_data command_size pool VSC_MODE_READ user_ptr len (h, m, um) = Some (x, g, m1, u)"
      "h' = g \<or> h' = count_read_fail g" "m' = m1"
    by blast
  then show ?thesis
  proof cases
    case 1
    then show ?thesis using file_step_or_fail [OF file_step_refl [OF ok]] unfolding count_read_fail_def by blast
  next
    case 2
    note s = get_scsi_cmd_msg_step [OF ok sleep 2(1)]
    show ?thesis unfolding 2(3) using s 2(2) unfolding count_read_fail_def by (rule file_step_or_fail)
  next
    case 3
    have "file_step H HE h m g m1" using multi_data_step [OF inv 3(1)] file_step_events [OF ok] by blast
    then show ?thesis using 3(2) unfolding 3(3) count_read_fail_def by (rule file_step_or_fail)
  qed
qed

lemma response_msg_step:
  assumes ok: "host_ok H HE h m"
    and run: "vsc_response_msg command_size pool user_ptr len (Some h) m um = Some (r, Some (h', m', um'))"
  shows "file_step H HE h m h' m'"
proof -
  define fail where "fail = upd_stat (\<lambda>s. s\<lparr>write_fail_count := write_fail_count s + 1\<rparr>)"
  have inv: "host_inv H h" "phases_ok h" "cdbs_ok h m" using ok by (simp_all add: host_ok_def)
  from run have "(h' = h \<or> h' = fail h) \<and> m' = m \<or>
    (\<exists>x g. vsc_response_event user_ptr len um h = Some (x, g) \<and> (h' = g \<or> h' = fail g) \<and> m' = m) \<or>
    (\<exists>x g m1 u. vsc_response_multi_data_and_rsp command_size pool VSC_MODE_WRITE user_ptr len (h, m, um) =
         Some (x, g, m1, u) \<and> (h' = g \<or> h' = fail g) \<and> m' = m1)"
    by (auto simp: vsc_response_msg_def fail_def bind_eq_Some_conv split: option.splits if_splits)
  then consider "h' = h \<or> h' = fail h" "m' = m"
    | x g where "vsc_response_event user_ptr len um h = Some (x, g)" "h' = g \<or> h' = fail g" "m' = m"
    | x g m1 u where "vsc_response_multi_data_and_rsp command_size pool VSC_MODE_WRITE user_ptr len (h, m, um) =
         Some (x, g, m1, u)" "h' = g \<or> h' = fail g" "m' = m1"
    by blast
  then show ?thesis
  proof cases
    case 1
    then show ?thesis using file_step_or_fail [OF file_step_refl [OF ok]] unfolding fail_def by blast
  next
    case 2
    have "event_inv HE h" using ok by (simp add: host_ok_def)
    then have "file_step H HE h m g m"
      using response_event_step [OF 2(1)] host_step_same_cmds [OF ok] by (simp add: file_step_def event_step_def)
    then show ?thesis using 2(2) unfolding 2(3) fail_def by (rule file_step_or_fail)
  next
    case 3
    have "file_step H HE h m g m1" using response_multi_data_step [OF inv 3(1)] file_step_events [OF ok] by blast
    then show ?thesis using 3(2) unfolding 3(3) fail_def by (rule file_step_or_fail)
  qed
qed


subsection \<open>The answer to an event\<close>

fun answer_type :: "event_callback \<Rightarrow> u32" where
  "answer_type Abort_event_callback = VSC_EVENT_TYPE_ABORT"
| "answer_type Reset_dev_event_callback = VSC_EVENT_TYPE_RESET_DEV"

lemma run_event_callback_shoot:
  "run_event_callback cb EVENT_SHOOT e ty dat dl h =
     (if ty \<noteq> answer_type cb \<or> dl \<noteq> 4 then Some (- EINVAL, h)
      else do { result \<leftarrow> rd32 dat 0;
                Some (0, upd_event e (\<lambda>x. x\<lparr>event_priv := if result \<noteq> 0 then FAILED else SUCCESS\<rparr>) h) })"
  by (cases cb) (simp_all add: vsc_abort_event_callback_def vsc_reset_dev_event_callback_def)

text \<open>The bytes of an answer: header, type and length of the data, and the result.\<close>

definition event_answer :: "vsc_scsi_event \<Rightarrow> vsc_scsi_msg_data \<Rightarrow> u32 \<Rightarrow> byte list" where
  "event_answer ev md result =
     enc_words (vsc_scsi_event_words ev) @ enc_words (vsc_scsi_msg_data_words md) @ le_bytes 4 result"

lemma page_bytes_pieces:
  assumes "length as = 4" "length bs = 4" "length cs = 4"
  shows "page_bytes (page_write 0 (as @ bs @ cs) pg) 0 4 = as" "page_bytes (page_write 0 (as @ bs @ cs) pg) 4 4 = bs"
    "4 \<le> n \<Longrightarrow> rd_bytes (page_bytes (page_write 0 (as @ bs @ cs) pg) 8 n) 0 4 = Some cs"
proof -
  let ?pg = "page_write 0 (as @ bs @ cs) pg"
  have "page_bytes ?pg 0 12 = as @ bs @ cs" using assms by (intro page_bytes_write_same) simp
  moreover have "page_bytes ?pg 0 (4 + (4 + 4)) = page_bytes ?pg 0 4 @ page_bytes ?pg 4 4 @ page_bytes ?pg 8 4"
    by (simp only: page_bytes_add) simp
  ultimately have "page_bytes ?pg 0 4 @ page_bytes ?pg 4 4 @ page_bytes ?pg 8 4 = as @ bs @ cs" by simp
  then show "page_bytes ?pg 0 4 = as" "page_bytes ?pg 4 4 = bs"
    and c: "4 \<le> n \<Longrightarrow> rd_bytes (page_bytes ?pg 8 n) 0 4 = Some cs"
    using assms page_bytes_add [of ?pg 8 4 "n - 4"] by (simp_all add: append_eq_append_conv rd_bytes_def)
qed

lemma event_answer_bytes:
  assumes "mapped user_ptr 40 um" "ubytes user_ptr 40 um = event_answer ev md result"
  shows "copy_from_user user_ptr 28 um = (0, enc_words (vsc_scsi_event_words ev))"
    "copy_from_user (user_ptr + 28) 12 um =
       (0, le_bytes 4 (md_data_type md) @ le_bytes 4 (md_data_len md) @ le_bytes 4 result)"
proof -
  have m: "mapped user_ptr 28 um" "mapped (user_ptr + 28) 12 um"
    using assms(1) mapped_append [of user_ptr 28 12 um] by simp_all
  have "ubytes user_ptr 28 um @ ubytes (user_ptr + 28) 12 um = event_answer ev md result"
    using assms(2) ubytes_append [of user_ptr 28 12 um] by simp
  moreover have "length (enc_words (vsc_scsi_event_words ev)) = 28" by (simp add: evmsg.to_words_length)
  ultimately have "ubytes user_ptr 28 um = enc_words (vsc_scsi_event_words ev)"
    "ubytes (user_ptr + 28) 12 um = enc_words (vsc_scsi_msg_data_words md) @ le_bytes 4 result"
    by (simp_all add: event_answer_def append_eq_append_conv)
  then show "copy_from_user user_ptr 28 um = (0, enc_words (vsc_scsi_event_words ev))"
    "copy_from_user (user_ptr + 28) 12 um =
       (0, le_bytes 4 (md_data_type md) @ le_bytes 4 (md_data_len md) @ le_bytes 4 result)"
    using copy_from_user_eq(3) m by (simp_all add: enc_words_def vsc_scsi_msg_data_words_def)
qed

text \<open>
  (C22) The answer decides the verdict: an answer to an event the target has read, with the
  event's sequence number and the data of its type, makes the waiting error handler see
  \<open>SUCCESS\<close> when the result is 0 and \<open>FAILED\<close> otherwise, and wakes it. Data of another type or length leave
  the verdict as it was, which is \<open>FAILED\<close> from the start, and wake the handler as well. In
  both cases a second answer to the same event is refused.
\<close>
theorem event_answer_decides:
  assumes "event_inv HE h" "unat (ev_tag ev) = e" "e \<in># HE" "estat (event_of h e) = EVENT_LIST_STAT_READ_COMP"
    "event_sn (event_of h e) = ev_event_sn ev" "event_callback (event_of h e) = Some cb"
    and len: "ev_data_length ev = 12" "12 \<le> len" "len < 2 ^ 31" "md_data_len md \<le> 12"
    and mem: "user_ptr \<noteq> 0" "mapped user_ptr 40 um" "ubytes user_ptr 40 um = event_answer ev md result"
  shows "\<exists>h' r. vsc_response_event user_ptr len um h = Some (r, h') \<and> event_inv HE h' \<and>
     shoot (event_of h' e) = EVENT_SHOOT_SHOOT \<and> \<not> e_waiting (event_of h' e) \<and>
     (if md_data_type md = answer_type cb \<and> md_data_len md = 4
      then r = 28 \<and> event_priv (event_of h' e) = (if result \<noteq> 0 then FAILED else SUCCESS)
      else r = - EINVAL \<and> event_priv (event_of h' e) = event_priv (event_of h e)) \<and>
     vsc_response_event user_ptr len um h' = Some (- EIO, h')"
proof -
  have e: "e < nr_events h" "e < length (event_pool_tbl h)" using event_inv_held [OF assms(1,3)] by simp_all
  note b = event_answer_bytes [OF mem(2,3)]
  let ?dat = "le_bytes 4 (md_data_type md) @ le_bytes 4 (md_data_len md) @ le_bytes 4 result"
  define h2 where "h2 = upd_event e (\<lambda>x. x\<lparr>event_data_len := 12, event_data := page_write 0 ?dat (event_data x)\<rparr>)
      (upd_event e (\<lambda>x. x\<lparr>estat := EVENT_LIST_STAT_RESP\<rparr>) h)"
  define up4 where "up4 = upd_event e (\<lambda>x. x\<lparr>shoot := EVENT_SHOOT_SHOOT, e_waiting := False\<rparr>)"
  have ev2: "event_of h2 e = (event_of h e)\<lparr>estat := EVENT_LIST_STAT_RESP, event_data_len := 12,
      event_data := page_write 0 ?dat (event_data (event_of h e))\<rparr>"
    using e by (simp add: h2_def upd_event_def)
  have len2: "e < length (event_pool_tbl h2)" "nr_events h2 = nr_events h" using e by (simp_all add: h2_def upd_event_def)
  have ws: "rd_words (enc_words (vsc_scsi_event_words ev)) 0 7 = Some (vsc_scsi_event_words ev)"
    using rd_words_enc [of "[]" "vsc_scsi_event_words ev" "[]"] by (simp add: evmsg.to_words_length)
  note pieces = page_bytes_pieces [of "le_bytes 4 (md_data_type md)" "le_bytes 4 (md_data_len md)" "le_bytes 4 result"]
  have md: "event_data_of (event_data (event_of h2 e)) = md"
    unfolding ev2 by (simp add: event_data_of_def pieces of_vsc_scsi_msg_data_def)
  have res: "rd32 (page_bytes (event_data (event_of h2 e)) 8 (PAGE_SIZE - 8)) 0 = Some result"
    unfolding ev2 by (simp add: rd32_def pieces PAGE_SIZE_def)
  have nlen: "\<not> (word_of_int len :: u32) < 12"
    using len(2,3) by (simp add: word_less_def uint_word_of_int)
  let ?good = "md_data_type md = answer_type cb \<and> md_data_len md = 4"
  define h3 where "h3 = (if ?good then upd_event e (\<lambda>x. x\<lparr>event_priv := if result \<noteq> 0 then FAILED else SUCCESS\<rparr>) h2 else h2)"
  have cb: "run_event_callback cb EVENT_SHOOT e (md_data_type md)
      (page_bytes (event_data (event_of h2 e)) 8 (PAGE_SIZE - 8)) (md_data_len md) h2 =
      Some (if ?good then 0 else - EINVAL, h3)"
    by (simp add: run_event_callback_shoot res h3_def)
  have run: "vsc_response_event user_ptr len um h = Some (if ?good then 28 else - EINVAL, up4 h3)"
    using assms(2-6) e mem(1) len(1,4) nlen b ws cb md
    by (simp add: vsc_response_event_def evmsg.of_to_words Let_def PAGE_SIZE_def up4_def [symmetric] h2_def [symmetric] ev2 not_less)
  have ev4: "event_of (up4 h3) e = (event_of h2 e)\<lparr>shoot := EVENT_SHOOT_SHOOT, e_waiting := False, event_priv :=
      (if ?good then (if result \<noteq> 0 then FAILED else SUCCESS) else event_priv (event_of h e))\<rparr>"
    using len2 by (simp add: up4_def h3_def upd_event_def ev2)
  have "vsc_response_event user_ptr len um (up4 h3) = Some (- EIO, up4 h3)"
    using assms(2) mem(1) b ws len2
    by (simp add: vsc_response_event_def evmsg.of_to_words Let_def ev4) (simp add: ev2)
  then show ?thesis
    using run ev4 response_event_step [OF run] assms(1)
    by (intro exI [of _ "up4 h3"] exI [of _ "if ?good then 28 else - EINVAL"]) (simp add: event_step_def)
qed

subsection \<open>Witnesses\<close>

lemma example_out_event_inv: "event_inv {#} example_out_host"
  by (simp add: event_inv_defs event_used_def all_eventQ_def example_out_host_def)
    (simp add: example_host_def zero_ctrl_def example_event_def)

lemma example_out_host_ok: "host_ok {#} {#} example_out_host (mid example_world)"
  using example_out_ok example_out_event_inv by (simp add: host_ok_def)


definition example_read_event :: vsc_event_list where
  "example_read_event = example_event\<lparr>event_sn := 1, estat := EVENT_LIST_STAT_READ_COMP, event_priv := FAILED,
     event_callback := Some Abort_event_callback, e_waiting := True, erefcnt := 2\<rparr>"

definition example_event_host :: vsc_ctrl_info where
  "example_event_host = example_host\<lparr>event_pool_tbl := [example_read_event, example_event], event_pool_bits := [1],
     event_rspQ := [0]\<rparr>"

definition example_answer :: "byte list" where
  "example_answer = event_answer \<lparr>ev_type = 1, ev_reserved0 = 1, ev_reserved1 = 0, ev_event_sn = 1, ev_tag = 0,
     ev_data_length = 12, ev_pad = 0\<rparr> \<lparr>md_data_type = VSC_EVENT_TYPE_ABORT, md_data_len = 4\<rparr> 0"

lemma example_event_host_inv: "event_inv {#0, 0#} example_event_host"
  by (auto simp: event_inv_defs event_used_def all_eventQ_def example_event_host_def example_out_pool
      example_read_event_def example_event_def less_2_cases_iff) (simp_all add: example_host_def zero_ctrl_def)

theorem event_answer_decides_witness:
  "\<exists>um h'. vsc_response_event 100 40 um example_event_host = Some (28, h') \<and> event_priv (event_of h' 0) = SUCCESS \<and>
     shoot (event_of h' 0) = EVENT_SHOOT_SHOOT"
proof -
  let ?um = "snd (copy_to_user 100 example_answer (\<lambda>_. Some 0))"
  have len: "length example_answer = 40"
    by (simp add: example_answer_def event_answer_def evmsg.to_words_length)
  have m: "mapped 100 40 ?um" unfolding copy_to_user_mapped by (simp add: mapped_def)
  have "mapped 100 (length example_answer) (\<lambda>_. Some 0)" by (simp add: mapped_def)
  from copy_to_user_bytes [OF this] have b: "ubytes 100 40 ?um = example_answer" by (simp add: len)
  have f: "event_of example_event_host 0 = example_read_event" by (simp add: example_event_host_def)
  show ?thesis
    using event_answer_decides [OF example_event_host_inv _ _ _ _ _ _ _ _ _ _ m trans [OF b example_answer_def], of 0 Abort_event_callback 40]
    by (simp add: f) (simp add: example_read_event_def, blast)
qed

end
