(* ===== verification/Vsc_Attach.thy ===== *)
theory Vsc_Attach
  imports Vsc_Entry
begin

text \<open>
  A target taking over and giving up a host: \<open>vsc_suspend_host\<close>, \<open>vsc_resume_host\<close>,
  \<open>vsc_scsi_attach\<close>, \<open>vsc_scsi_detach\<close> and the timer function \<open>vsc_target_abnormal\<close>, which
  fails all commands of a host whose target has been gone for too long. Attach, detach and the
  timer run in different tasks; they are cut where they can overlap, and the relation \<open>owner_step\<close>
  runs the pieces in any order.
\<close>

subsection \<open>The middle layer's functions\<close>

text \<open>
  What the driver calls in \<^verbatim>\<open>drivers/scsi\<close>: taking and dropping a reference to a device,
  adding and removing one, changing its state and its queue depth. An \<open>int\<close> is the return value.
\<close>

record scsi_api =
  scsi_device_get :: "nat \<Rightarrow> midlayer \<Rightarrow> int \<times> midlayer"
  scsi_device_put :: "nat \<Rightarrow> midlayer \<Rightarrow> midlayer"
  scsi_device_set_state :: "nat \<Rightarrow> scsi_device_state \<Rightarrow> midlayer \<Rightarrow> int \<times> midlayer"
  scsi_add_device :: "nat \<Rightarrow> u32 \<Rightarrow> u32 \<Rightarrow> u32 \<Rightarrow> midlayer \<Rightarrow> int \<times> midlayer"
  scsi_remove_device :: "nat \<Rightarrow> midlayer \<Rightarrow> midlayer"
  scsi_adjust_queue_depth :: "nat \<Rightarrow> int \<Rightarrow> midlayer \<Rightarrow> midlayer"

definition upd_sdev :: "nat \<Rightarrow> (scsi_device \<Rightarrow> scsi_device) \<Rightarrow> midlayer \<Rightarrow> midlayer" where
  "upd_sdev d f m = m\<lparr>sdevs := (sdevs m)(d := f (sdevs m d))\<rparr>"

text \<open>
  The documented behaviour of the reference counting and of the state change: a reference taken
  is one more on the device and nothing else, one of several references dropped is one less, a
  refused call changes nothing, and a running device can be referenced and set offline.
\<close>

definition device_laws :: "scsi_api \<Rightarrow> bool" where
  "device_laws api \<longleftrightarrow>
     (\<forall>d m. fst (scsi_device_get api d m) = 0 \<longrightarrow>
        snd (scsi_device_get api d m) = upd_sdev d (\<lambda>s. s\<lparr>sdev_refs := sdev_refs s + 1\<rparr>) m) \<and>
     (\<forall>d m. fst (scsi_device_get api d m) \<noteq> 0 \<longrightarrow> snd (scsi_device_get api d m) = m) \<and>
     (\<forall>d m. 1 < sdev_refs (sdevs m d) \<longrightarrow>
        scsi_device_put api d m = upd_sdev d (\<lambda>s. s\<lparr>sdev_refs := sdev_refs s - 1\<rparr>) m) \<and>
     (\<forall>d st m. fst (scsi_device_set_state api d st m) = 0 \<longrightarrow>
        snd (scsi_device_set_state api d st m) = upd_sdev d (\<lambda>s. s\<lparr>sdev_state := st\<rparr>) m) \<and>
     (\<forall>d st m. fst (scsi_device_set_state api d st m) \<noteq> 0 \<longrightarrow>
        snd (scsi_device_set_state api d st m) = m) \<and>
     (\<forall>d m. sdev_state (sdevs m d) = SDEV_RUNNING \<longrightarrow>
        fst (scsi_device_get api d m) = 0 \<and> fst (scsi_device_set_state api d SDEV_OFFLINE m) = 0)"

subsection \<open>Blocking a host\<close>

text \<open>\<open>scsi_block_requests\<close> and \<open>scsi_unblock_requests\<close> write \<open>host_self_blocked\<close>.\<close>

definition set_self_blocked :: "nat \<Rightarrow> bool \<Rightarrow> vsc_world \<Rightarrow> vsc_world" where
  "set_self_blocked shp b w = w\<lparr>mid := (mid w)\<lparr>shosts :=
     (shosts (mid w))(shp := (shosts (mid w) shp)\<lparr>host_self_blocked := b\<rparr>)\<rparr>\<rparr>"

definition vsc_suspend_host :: "nat option \<Rightarrow> vsc_world \<Rightarrow> (int \<times> vsc_world) option" where
  "vsc_suspend_host hp w =
     (case hp of
        None \<Rightarrow> Some (- EBADF, w)
      | Some a \<Rightarrow>
          do { shp \<leftarrow> scsi_host (hosts w a);
               let w1 = set_self_blocked shp True w;
               Some (0, upd_host a ((hosts w1 a)\<lparr>suspend := 1\<rparr>) w1) })"

definition vsc_resume_host :: "nat option \<Rightarrow> vsc_world \<Rightarrow> (int \<times> vsc_world) option" where
  "vsc_resume_host hp w =
     (case hp of
        None \<Rightarrow> Some (- EBADF, w)
      | Some a \<Rightarrow>
          do { shp \<leftarrow> scsi_host (hosts w a);
               let w1 = set_self_blocked shp False w;
               Some (0, upd_host a ((hosts w1 a)\<lparr>suspend := 0\<rparr>) w1) })"

subsection \<open>Attach\<close>

text \<open>
  \<open>atomic_inc_return(&h->target_abnormal_lock) > 1\<close>, the test attach and the timer function share,
  and the \<open>atomic_dec\<close> that undoes it.
\<close>

definition target_lock_inc :: "vsc_ctrl_info \<Rightarrow> bool \<times> vsc_ctrl_info" where
  "target_lock_inc h =
     (let h1 = h\<lparr>target_abnormal_lock := target_abnormal_lock h + 1\<rparr>
      in (1 < target_abnormal_lock h1, h1))"

definition target_lock_dec :: "vsc_ctrl_info \<Rightarrow> vsc_ctrl_info" where
  "target_lock_dec h = h\<lparr>target_abnormal_lock := target_abnormal_lock h - 1\<rparr>"

text \<open>After \<open>del_timer_sync\<close> has returned: no timer, and the file owns the host.\<close>

definition attach_take :: "nat \<Rightarrow> vsc_ctrl_info \<Rightarrow> vsc_ctrl_info" where
  "attach_take file h = h\<lparr>target_abnormal_timer := None, h_file := Some file\<rparr>"

definition attach_finish :: "nat \<Rightarrow> vsc_world \<Rightarrow> vsc_world option" where
  "attach_finish a w =
     do { w1 \<leftarrow> (if suspend (hosts w a) = 0 then map_option snd (vsc_resume_host (Some a) w) else Some w);
          Some (upd_host a (target_lock_dec (hosts w1 a)) w1) }"

definition vsc_scsi_attach :: "nat option \<Rightarrow> nat option \<Rightarrow> vsc_world \<Rightarrow> (int \<times> vsc_world) option" where
  "vsc_scsi_attach hp fp w =
     (case hp of
        None \<Rightarrow> Some (- EFAULT, w)
      | Some a \<Rightarrow>
          (case fp of
             None \<Rightarrow> Some (- EFAULT, w)
           | Some file \<Rightarrow>
               if h_file (hosts w a) \<noteq> None then Some (- EBUSY, w)
               else
                 (let (busy, h1) = target_lock_inc (hosts w a) in
                  if busy then Some (- EAGAIN, upd_host a (target_lock_dec h1) w)
                  else map_option (Pair 0) (attach_finish a (upd_host a (attach_take file h1) w)))))"

subsection \<open>The timer function\<close>

text \<open>
  \<open>shost_for_each_device\<close>: the next device a reference can be taken to, then the reference to
  the previous one is dropped.
\<close>

fun offline_devices :: "scsi_api \<Rightarrow> nat option \<Rightarrow> nat list \<Rightarrow> midlayer \<Rightarrow> midlayer" where
  "offline_devices api prev [] m = (case prev of None \<Rightarrow> m | Some p \<Rightarrow> scsi_device_put api p m)"
| "offline_devices api prev (d # ds) m =
     (let (r, m1) = scsi_device_get api d m in
      if r \<noteq> 0 then offline_devices api prev ds m1
      else let m2 = (case prev of None \<Rightarrow> m1 | Some p \<Rightarrow> scsi_device_put api p m1);
               (_, m3) = scsi_device_set_state api d SDEV_OFFLINE m2
           in offline_devices api (Some d) ds m3)"

text \<open>The three calls \<open>vsc_target_abnormal\<close> and \<open>vsc_do_remove_host\<close> share.\<close>

definition fail_host :: "nat \<Rightarrow> vsc_world \<Rightarrow> vsc_world option" where
  "fail_host a w =
     do { (_, w1) \<leftarrow> vsc_resume_host (Some a) w;
          let w2 = upd_host a (snd (vsc_abort_all_event (hosts w1 a))) w1;
          (_, w3) \<leftarrow> vsc_abort_all_cmd (Some a) w2;
          Some w3 }"

definition target_abnormal_body :: "scsi_api \<Rightarrow> nat \<Rightarrow> vsc_world \<Rightarrow> vsc_world option" where
  "target_abnormal_body api a w =
     do { w3 \<leftarrow> fail_host a w;
          shp \<leftarrow> scsi_host (hosts w3 a);
          let m = offline_devices api None (shost_devices (shosts (mid w3) shp)) (mid w3);
          Some (w3\<lparr>mid := m\<rparr>) }"

definition vsc_target_abnormal :: "scsi_api \<Rightarrow> nat option \<Rightarrow> vsc_world \<Rightarrow> vsc_world option" where
  "vsc_target_abnormal api arg w =
     (case arg of
        None \<Rightarrow> Some w
      | Some a \<Rightarrow>
          (let (busy, h1) = target_lock_inc (hosts w a) in
           if busy then Some (upd_host a (target_lock_dec h1) w)
           else do { w1 \<leftarrow> target_abnormal_body api a (upd_host a h1 w);
                     Some (upd_host a (target_lock_dec (hosts w1 a)) w1) }))"

subsection \<open>Detach\<close>

text \<open>
  \<open>hz\<close> is the kernel's \<open>HZ\<close>, \<open>jiffies\<close> the time; \<open>target_abnormal_time * HZ\<close> is a product of
  32-bit integers.
\<close>

definition detach_arm :: "u32 \<Rightarrow> u64 \<Rightarrow> bool \<Rightarrow> vsc_ctrl_info \<Rightarrow> vsc_ctrl_info" where
  "detach_arm hz jiffies is_timeout h =
     (if is_timeout then
        (let h1 = h\<lparr>suspend := 1\<rparr> in
         if 0 < target_abnormal_time h1
         then h1\<lparr>target_abnormal_timer := Some (ucast (target_abnormal_time h1 * hz) + jiffies)\<rparr>
         else h1)
      else h)"

text \<open>After the host's file has been cleared.\<close>

definition detach_finish :: "u32 \<Rightarrow> u64 \<Rightarrow> nat \<Rightarrow> bool \<Rightarrow> vsc_world \<Rightarrow> (int \<times> vsc_world) option" where
  "detach_finish hz jiffies a is_timeout w =
     do { shp \<leftarrow> scsi_host (hosts w a);
          let w1 = set_self_blocked shp True w;
          let (r, h2) = vsc_abort_all_event (hosts w1 a);
          let w2 = upd_host a h2 w1;
          if r < 0 then Some (r, w2)
          else do { (r, w3) \<leftarrow> vsc_requeue_all_cmd (Some a) w2;
                    if r < 0 then Some (r, w3)
                    else
                      (let h3 = hosts w3 a;
                           h4 = (if waitqueue_active h3 then wake_up_queue h3 else h3)
                       in Some (0, upd_host a (detach_arm hz jiffies is_timeout h4) w3)) } }"

definition vsc_scsi_detach ::
  "u32 \<Rightarrow> u64 \<Rightarrow> nat option \<Rightarrow> bool \<Rightarrow> vsc_world \<Rightarrow> (int \<times> vsc_world) option" where
  "vsc_scsi_detach hz jiffies hp is_timeout w =
     (case hp of
        None \<Rightarrow> Some (- EFAULT, w)
      | Some a \<Rightarrow>
          if h_file (hosts w a) = None then Some (- EPERM, w)
          else detach_finish hz jiffies a is_timeout (upd_host a ((hosts w a)\<lparr>h_file := None\<rparr>) w))"

subsection \<open>What the pieces leave alone\<close>

lemma set_self_blocked_simps [simp]:
  "hosts (set_self_blocked shp b w) = hosts w" "mgrs (set_self_blocked shp b w) = mgrs w"
  "scmds (mid (set_self_blocked shp b w)) = scmds (mid w)"
  "sdevs (mid (set_self_blocked shp b w)) = sdevs (mid w)"
  "done_log (mid (set_self_blocked shp b w)) = done_log (mid w)"
  "host_self_blocked (shosts (mid (set_self_blocked shp b w)) p) =
     (if p = shp then b else host_self_blocked (shosts (mid w) p))"
  "shost_devices (shosts (mid (set_self_blocked shp b w)) p) = shost_devices (shosts (mid w) p)"
  "world_inv S H (set_self_blocked shp b w) = world_inv S H w"
  "winflight S (set_self_blocked shp b w) = winflight S w"
  by (simp_all add: set_self_blocked_def world_inv_def winflight_def)

lemma upd_host_simps [simp]:
  "hosts (upd_host a h w) b = (if b = a then h else hosts w b)" "mid (upd_host a h w) = mid w"
  "mgrs (upd_host a h w) = mgrs w"
  by (simp_all add: upd_host_def)

text \<open>Writing fields that carry no command leaves the accounting of a world alone.\<close>

lemma world_inv_ctl:
  assumes "world_inv S H w" "a \<in> S" "same_cmds (hosts w a) h" "silbing_hosts h = silbing_hosts (hosts w a)"
  shows "world_inv S H (upd_host a h w)" "winflight S (upd_host a h w) = winflight S w"
proof -
  have "host_inv (H a) h"
    using assms(1,2) host_inv_same_cmds [OF assms(3), of "H a"] by (auto simp: world_inv_def)
  then show "world_inv S H (upd_host a h w)"
    using assms by (intro world_inv_upd_host) simp_all
  show "winflight S (upd_host a h w) = winflight S w"
    using winflight_upd_host [of S a h w] assms inflight_same_cmds [OF assms(3)]
    by (auto simp: world_inv_def)
qed

text \<open>Emptying one host completes what was in flight there.\<close>

lemma drains_one:
  assumes "drains code S {a} w w'" "finite S" "a \<in> S"
  obtains L where "done_log (mid w') = done_log (mid w) @ L" "\<forall>x\<in>set L. snd x = code"
    "image_mset fst (mset L) = inflight (hosts w a)"
proof -
  obtain L where L: "done_log (mid w') = done_log (mid w) @ L" "\<forall>x\<in>set L. snd x = code"
      "image_mset fst (mset L) + winflight S w' = winflight S w"
    using assms(1) by (auto simp: drains_def)
  have "hosts w' = hosts (upd_host a (hosts w' a) w)"
    using assms(1) by (auto simp: drains_def fun_eq_iff)
  then have "winflight S w' = winflight S (upd_host a (hosts w' a) w)"
    by (simp add: winflight_def)
  moreover have "inflight (hosts w' a) = {#}"
    using assms(1) by (simp add: drains_def inflight_def)
  ultimately have "winflight S w' + inflight (hosts w a) = winflight S w"
    using winflight_upd_host [OF assms(2,3), of "hosts w' a" w] by simp
  with L(3) have "winflight S w' + image_mset fst (mset L) = winflight S w' + inflight (hosts w a)"
    by (simp add: add.commute)
  with L(1,2) that show thesis by (metis add_left_cancel)
qed

text \<open>An event that is queued is held, so \<open>vsc_abort_all_event\<close> can take the reference.\<close>

lemma abort_all_event_held:
  assumes "event_inv HE h"
  shows "event_inv (HE - mset (all_eventQ h)) (snd (vsc_abort_all_event h))"
    "all_eventQ (snd (vsc_abort_all_event h)) = []"
proof -
  have d: "distinct (all_eventQ h)" and sub: "set (all_eventQ h) \<subseteq> set_mset HE"
    using assms by (simp_all add: event_inv_def)
  have "mset (all_eventQ h) \<subseteq># HE"
    unfolding subseteq_mset_def
  proof
    fix x
    show "count (mset (all_eventQ h)) x \<le> count HE x"
      using sub distinct_count_atmost_1 [of "all_eventQ h"] d
      by (cases "x \<in> set (all_eventQ h)")
        (auto simp: Suc_le_eq count_greater_zero_iff [symmetric] simp del: count_greater_zero_iff)
  qed
  then have "event_inv (mset (all_eventQ h) + (HE - mset (all_eventQ h))) h"
    using assms by (simp add: subset_mset.add_diff_inverse)
  then show "event_inv (HE - mset (all_eventQ h)) (snd (vsc_abort_all_event h))"
    "all_eventQ (snd (vsc_abort_all_event h)) = []"
    by (rule abort_all_event_inv)+
qed

lemma all_eventQ_same: "same_events h h' \<Longrightarrow> all_eventQ h' = all_eventQ h"
  by (simp add: same_events_def all_eventQ_def)

subsection \<open>Detach gives everything back\<close>

lemma detach_arm_simps [simp]:
  "same_cmds h (detach_arm hz j t h)" "same_events h (detach_arm hz j t h)"
  "h_file (detach_arm hz j t h) = h_file h" "silbing_hosts (detach_arm hz j t h) = silbing_hosts h"
  "queue_waiters (detach_arm hz j t h) = queue_waiters h" "scsi_host (detach_arm hz j t h) = scsi_host h"
  "target_abnormal_lock (detach_arm hz j t h) = target_abnormal_lock h"
  "suspend (detach_arm hz j t h) = (if t then 1 else suspend h)"
  "target_abnormal_timer (detach_arm hz j t h) =
     (if t \<and> 0 < target_abnormal_time h then Some (ucast (target_abnormal_time h * hz) + j)
      else target_abnormal_timer h)"
  by (simp_all add: detach_arm_def same_cmds_def same_events_def Let_def)

lemma detach_finish_spec:
  assumes inv: "world_inv S H w" and a: "a \<in> S" and shp: "scsi_host (hosts w a) = Some shp"
    and ev: "event_inv HE (hosts w a)"
  obtains w' w1 :: vsc_world and L where "detach_finish hz j a t w = Some (0, w')" "world_inv S H w'"
    "allQ (hosts w' a) = []" "all_eventQ (hosts w' a) = []"
    "event_inv (HE - mset (all_eventQ (hosts w a))) (hosts w' a)" "queue_waiters (hosts w' a) = 0"
    "host_self_blocked (shosts (mid w') shp)" "same_host (hosts w a) (hosts w1 a)"
    "hosts w' a = detach_arm hz j t (hosts w1 a)" "\<forall>b. b \<noteq> a \<longrightarrow> hosts w' b = hosts w b"
    "mgrs w' = mgrs w" "sdevs (mid w') = sdevs (mid w)"
    "done_log (mid w') = done_log (mid w) @ L" "\<forall>x\<in>set L. snd x = push_bit 16 DID_REQUEUE"
    "image_mset fst (mset L) = inflight (hosts w a)"
proof -
  let ?w1 = "set_self_blocked shp True w"
  define h2 where "h2 = snd (vsc_abort_all_event (hosts w a))"
  have same2: "same_cmds (hosts w a) h2" "same_host (hosts w a) h2"
    unfolding h2_def by (rule same_cmds_abort_all_event, rule same_host_abort_all_event)
  have ev2: "event_inv (HE - mset (all_eventQ (hosts w a))) h2" "all_eventQ h2 = []"
    unfolding h2_def using abort_all_event_held [OF ev] by auto
  have inv1: "world_inv S H ?w1" using inv by simp
  let ?w2 = "upd_host a h2 ?w1"
  have inv2: "world_inv S H ?w2"
    using world_inv_ctl(1) [OF inv1 a, of h2] same2 by (simp add: silbing_same_host)
  obtain w3 where w3: "vsc_requeue_all_cmd (Some a) ?w2 = Some (0, w3)" "world_inv S H w3"
      "drains (push_bit 16 DID_REQUEUE) S {a} ?w2 w3"
    using requeue_cb.all_cmd_spec [OF inv2 a] by (metis all_cmd_eq(2))
  obtain L where L: "done_log (mid w3) = done_log (mid w) @ L" "\<forall>x\<in>set L. snd x = push_bit 16 DID_REQUEUE"
      "image_mset fst (mset L) = inflight (hosts w a)"
    using drains_one [OF w3(3) _ a] inv inflight_same_cmds [OF same2(1)]
    by (auto simp: world_inv_def)
  have d: "same_host h2 (hosts w3 a)" "same_events h2 (hosts w3 a)" "allQ (hosts w3 a) = []"
    "\<forall>b. b \<noteq> a \<longrightarrow> hosts w3 b = hosts w b" "shosts (mid w3) = shosts (mid ?w1)" "mgrs w3 = mgrs w"
    "sdevs (mid w3) = sdevs (mid w)"
    using w3(3) by (auto simp: drains_def dest: spec [of _ a])
  define h4 where "h4 = (if waitqueue_active (hosts w3 a) then wake_up_queue (hosts w3 a) else hosts w3 a)"
  have h4: "same_cmds (hosts w3 a) h4" "same_events (hosts w3 a) h4" "same_host (hosts w3 a) h4"
    "queue_waiters h4 = 0"
    by (auto simp: h4_def same_cmds_def same_events_def same_host_def wake_up_queue_def waitqueue_active_def)
  let ?h5 = "detach_arm hz j t h4" and ?wr = "upd_host a h4 w3"
  let ?w' = "upd_host a ?h5 w3"
  have c5: "same_cmds (hosts w3 a) ?h5" "same_events h2 ?h5"
    using h4 d(2) same_cmds_trans [of _ h4] same_events_trans [of _ "hosts w3 a"] same_events_trans [of _ h4]
    by (meson detach_arm_simps(1), meson detach_arm_simps(2))
  show ?thesis
  proof (rule that)
    show "detach_finish hz j a t w = Some (0, ?w')"
      using shp w3(1)
      by (simp add: detach_finish_def h2_def vsc_abort_all_event_def h4_def Let_def)
    show "world_inv S H ?w'"
      using h4(3) by (intro world_inv_ctl(1) [OF w3(2) a c5(1)]) (simp add: silbing_same_host)
    show "allQ (hosts ?w' a) = []" using allQ_same_cmds [OF c5(1)] d(3) by simp
    show "all_eventQ (hosts ?w' a) = []" using all_eventQ_same [OF c5(2)] ev2(2) by simp
    show "event_inv (HE - mset (all_eventQ (hosts w a))) (hosts ?w' a)"
      using event_inv_same_events [OF c5(2)] ev2(1) by simp
    show "same_host (hosts w a) (hosts ?wr a)"
      using same2(2) d(1) h4(3) by simp (meson same_host_trans)
  qed (use d h4 L in auto)
qed

text \<open>
  (C10) Detaching a host gives everything back, once: every command the target had is completed
  with \<open>DID_REQUEUE\<close>, the queues of commands and of events are empty, no reader stays asleep,
  the middle layer is blocked from sending more, and nothing changes on other hosts. When the
  file was closed, the host stays suspended and the timer is armed to \<open>target_abnormal_time\<close>
  seconds (in 32-bit ticks); an explicit detach leaves both as they were.
\<close>

theorem detach_hands_back:
  assumes "world_inv S H w" "a \<in> S" "scsi_host (hosts w a) = Some shp" "h_file (hosts w a) = Some f"
    and "event_inv HE (hosts w a)"
  shows "\<exists>w' L. vsc_scsi_detach hz jiffies (Some a) is_timeout w = Some (0, w') \<and> world_inv S H w' \<and>
     h_file (hosts w' a) = None \<and> allQ (hosts w' a) = [] \<and> all_eventQ (hosts w' a) = [] \<and>
     event_inv (HE - mset (all_eventQ (hosts w a))) (hosts w' a) \<and> queue_waiters (hosts w' a) = 0 \<and>
     host_self_blocked (shosts (mid w') shp) \<and> (\<forall>b. b \<noteq> a \<longrightarrow> hosts w' b = hosts w b) \<and>
     done_log (mid w') = done_log (mid w) @ L \<and> (\<forall>x\<in>set L. snd x = push_bit 16 DID_REQUEUE) \<and>
     image_mset fst (mset L) = inflight (hosts w a) \<and>
     suspend (hosts w' a) = (if is_timeout then 1 else suspend (hosts w a)) \<and>
     target_abnormal_timer (hosts w' a) =
       (if is_timeout \<and> 0 < target_abnormal_time (hosts w a)
        then Some (ucast (target_abnormal_time (hosts w a) * hz) + jiffies)
        else target_abnormal_timer (hosts w a))"
proof -
  let ?h0 = "(hosts w a)\<lparr>h_file := None\<rparr>" and ?w0 = "upd_host a ((hosts w a)\<lparr>h_file := None\<rparr>) w"
  have same: "same_cmds (hosts w a) ?h0" "same_events (hosts w a) ?h0"
    by (simp_all add: same_cmds_def same_events_def)
  have inv: "world_inv S H ?w0"
    using assms(1,2) same(1) by (rule world_inv_ctl) simp
  have ev: "event_inv HE (hosts ?w0 a)"
    using event_inv_same_events [OF same(2)] assms(5) by simp
  have sh: "scsi_host (hosts ?w0 a) = Some shp" using assms(3) by simp
  obtain w' w1 :: vsc_world and L where w': "detach_finish hz jiffies a is_timeout ?w0 = Some (0, w')" "world_inv S H w'"
    "allQ (hosts w' a) = []" "all_eventQ (hosts w' a) = []"
    "event_inv (HE - mset (all_eventQ (hosts ?w0 a))) (hosts w' a)" "queue_waiters (hosts w' a) = 0"
    "host_self_blocked (shosts (mid w') shp)" "same_host (hosts ?w0 a) (hosts w1 a)"
    "hosts w' a = detach_arm hz jiffies is_timeout (hosts w1 a)" "\<forall>b. b \<noteq> a \<longrightarrow> hosts w' b = hosts ?w0 b"
    "mgrs w' = mgrs ?w0" "sdevs (mid w') = sdevs (mid ?w0)" "done_log (mid w') = done_log (mid ?w0) @ L" "\<forall>x\<in>set L. snd x = push_bit 16 DID_REQUEUE"
    "image_mset fst (mset L) = inflight (hosts ?w0 a)"
    by (rule detach_finish_spec [OF inv assms(2) sh ev])
  have "all_eventQ ?h0 = all_eventQ (hosts w a)" "inflight ?h0 = inflight (hosts w a)"
    using all_eventQ_same [OF same(2)] inflight_same_cmds [OF same(1)] by simp_all
  with w' assms(4) show ?thesis
    by (intro exI [of _ w'] exI [of _ L]) (simp add: vsc_scsi_detach_def same_host_def)
qed

subsection \<open>The timer function fails everything\<close>

text \<open>What \<open>scsi_device_set_state(sdev, SDEV_OFFLINE)\<close> may do to a device.\<close>

definition offlined :: "scsi_device \<Rightarrow> scsi_device \<Rightarrow> bool" where
  "offlined s s' \<longleftrightarrow> s' = s\<lparr>sdev_state := SDEV_OFFLINE\<rparr> \<or> (s' = s \<and> sdev_state s \<noteq> SDEV_RUNNING)"

lemma upd_sdev_simps [simp]:
  "sdevs (upd_sdev d f m) x = (if x = d then f (sdevs m d) else sdevs m x)"
  "shosts (upd_sdev d f m) = shosts m" "scmds (upd_sdev d f m) = scmds m"
  "done_log (upd_sdev d f m) = done_log m"
  by (simp_all add: upd_sdev_def)

text \<open>All of the middle layer's state but its devices.\<close>

definition same_but_sdevs :: "midlayer \<Rightarrow> midlayer \<Rightarrow> bool" where
  "same_but_sdevs m m' \<longleftrightarrow> scmds m' = scmds m \<and> shosts m' = shosts m \<and> done_log m' = done_log m"

text \<open>Dropping the reference to the previous device, if there is one.\<close>

definition put_prev :: "scsi_api \<Rightarrow> nat option \<Rightarrow> midlayer \<Rightarrow> midlayer" where
  "put_prev api prev m = (case prev of None \<Rightarrow> m | Some p \<Rightarrow> scsi_device_put api p m)"

lemma put_prev_eq:
  assumes "device_laws api" "\<forall>p\<in>set_option prev. 1 < sdev_refs (sdevs m p)"
  shows "same_but_sdevs m (put_prev api prev m)"
    "sdevs (put_prev api prev m) x =
       (if prev = Some x then (sdevs m x)\<lparr>sdev_refs := sdev_refs (sdevs m x) - 1\<rparr> else sdevs m x)"
  using assms by (cases prev; auto simp: put_prev_def device_laws_def same_but_sdevs_def)+

lemma offline_devices_spec:
  assumes "device_laws api" "distinct ds" "\<forall>d\<in>set ds. 1 \<le> sdev_refs (sdevs m d)"
    and "\<forall>p\<in>set_option prev. 1 < sdev_refs (sdevs m p) \<and> p \<notin> set ds"
  shows "same_but_sdevs m (offline_devices api prev ds m) \<and>
    (\<forall>x. if x \<in> set ds then offlined (sdevs m x) (sdevs (offline_devices api prev ds m) x)
         else sdevs (offline_devices api prev ds m) x =
           (if prev = Some x then (sdevs m x)\<lparr>sdev_refs := sdev_refs (sdevs m x) - 1\<rparr> else sdevs m x))"
  using assms
proof (induction ds arbitrary: prev m)
  case Nil
  then show ?case
    using put_prev_eq [of api prev m] by (auto simp: put_prev_def)
next
  case (Cons d ds)
  note laws = Cons.prems(1) [unfolded device_laws_def]
  have d: "d \<notin> set ds" and pd: "prev \<noteq> Some d" using Cons.prems by auto
  let ?m1 = "snd (scsi_device_get api d m)"
  show ?case
  proof (cases "fst (scsi_device_get api d m) = 0")
    case False
    then have m1: "?m1 = m" and nr: "sdev_state (sdevs m d) \<noteq> SDEV_RUNNING"
      using laws by auto
    have step: "offline_devices api prev (d # ds) m = offline_devices api prev ds m"
      using False m1 by (simp add: split_beta)
    have ih: "same_but_sdevs m (offline_devices api prev ds m) \<and>
       (\<forall>x. if x \<in> set ds then offlined (sdevs m x) (sdevs (offline_devices api prev ds m) x)
         else sdevs (offline_devices api prev ds m) x =
           (if prev = Some x then (sdevs m x)\<lparr>sdev_refs := sdev_refs (sdevs m x) - 1\<rparr> else sdevs m x))"
      using Cons.prems by (intro Cons.IH) auto
    have "offlined (sdevs m d) (sdevs (offline_devices api prev ds m) d)"
      using spec [OF conjunct2 [OF ih], of d] d pd nr by (simp add: offlined_def)
    with ih show ?thesis
      unfolding step by (metis list.set_intros set_ConsD)
  next
    case True
    then have m1: "?m1 = upd_sdev d (\<lambda>s. s\<lparr>sdev_refs := sdev_refs s + 1\<rparr>) m"
      using laws by blast
    let ?m2 = "put_prev api prev ?m1" and ?m3 = "snd (scsi_device_set_state api d SDEV_OFFLINE (put_prev api prev ?m1))"
    have step: "offline_devices api prev (d # ds) m = offline_devices api (Some d) ds ?m3"
      using True by (simp add: split_beta put_prev_def)
    have refs1: "\<forall>p\<in>set_option prev. 1 < sdev_refs (sdevs ?m1 p)"
      using Cons.prems(4) pd m1 by auto
    note m2 = put_prev_eq [OF Cons.prems(1) refs1]
    have m2d: "sdevs ?m2 d = (sdevs m d)\<lparr>sdev_refs := sdev_refs (sdevs m d) + 1\<rparr>"
      using pd m2(2) [of d] by (simp add: m1)
    have m3: "same_but_sdevs ?m2 ?m3" "\<forall>x. x \<noteq> d \<longrightarrow> sdevs ?m3 x = sdevs ?m2 x"
      "offlined (sdevs ?m2 d) (sdevs ?m3 d)"
      using laws m2d by (cases "fst (scsi_device_set_state api d SDEV_OFFLINE ?m2) = 0";
          auto simp: same_but_sdevs_def offlined_def)+
    have same: "same_but_sdevs m ?m3"
      using m2(1) m3(1) by (simp add: same_but_sdevs_def m1)
    have refs3: "1 < sdev_refs (sdevs ?m3 d)"
      using m3(3) Cons.prems(3) m2d by (auto simp: offlined_def)
    have other: "sdevs ?m3 x = (if prev = Some x then (sdevs m x)\<lparr>sdev_refs := sdev_refs (sdevs m x) - 1\<rparr>
        else sdevs m x)" if "x \<noteq> d" for x
      using that m3(2) m2(2) [of x] by (simp add: m1)
    have dsame: "sdevs ?m3 x = sdevs m x" if "x \<in> set ds" for x
    proof -
      have "x \<noteq> d" "prev \<noteq> Some x" using that d Cons.prems(4) by auto
      then show ?thesis using other [of x] by simp
    qed
    have ih: "same_but_sdevs ?m3 (offline_devices api (Some d) ds ?m3) \<and>
       (\<forall>x. if x \<in> set ds then offlined (sdevs ?m3 x) (sdevs (offline_devices api (Some d) ds ?m3) x)
         else sdevs (offline_devices api (Some d) ds ?m3) x =
           (if Some d = Some x then (sdevs ?m3 x)\<lparr>sdev_refs := sdev_refs (sdevs ?m3 x) - 1\<rparr> else sdevs ?m3 x))"
      using Cons.prems(1-3) d refs3 dsame by (intro Cons.IH) auto
    show ?thesis
      unfolding step
    proof (intro conjI allI)
      show "same_but_sdevs m (offline_devices api (Some d) ds ?m3)"
        using ih same by (auto simp: same_but_sdevs_def)
      fix x
      let ?m' = "offline_devices api (Some d) ds ?m3"
      have x: "if x \<in> set ds then offlined (sdevs ?m3 x) (sdevs ?m' x)
         else sdevs ?m' x = (if d = x then (sdevs ?m3 x)\<lparr>sdev_refs := sdev_refs (sdevs ?m3 x) - 1\<rparr> else sdevs ?m3 x)"
        using ih by auto
      consider "x \<in> set ds" | "x = d" | "x \<notin> set (d # ds)" by auto
      then show "if x \<in> set (d # ds) then offlined (sdevs m x) (sdevs ?m' x)
         else sdevs ?m' x = (if prev = Some x then (sdevs m x)\<lparr>sdev_refs := sdev_refs (sdevs m x) - 1\<rparr> else sdevs m x)"
      proof cases
        case 1
        then show ?thesis using x dsame [of x] by simp
      next
        case 2
        then show ?thesis using x d m3(3) m2d by (auto simp: offlined_def)
      next
        case 3
        then show ?thesis using x other [of x] by auto
      qed
    qed
  qed
qed

lemma suspend_same [simp]:
  "same_cmds h (h\<lparr>suspend := x\<rparr>)" "same_events h (h\<lparr>suspend := x\<rparr>)"
  "same_cmds h (target_lock_dec h)" "same_events h (target_lock_dec h)"
  "same_cmds h (h\<lparr>target_abnormal_lock := y\<rparr>)" "same_events h (h\<lparr>target_abnormal_lock := y\<rparr>)"
  "silbing_hosts (target_lock_dec h) = silbing_hosts h" "h_file (target_lock_dec h) = h_file h"
  "suspend (target_lock_dec h) = suspend h" "scsi_host (target_lock_dec h) = scsi_host h"
  "target_abnormal_timer (target_lock_dec h) = target_abnormal_timer h"
  "target_abnormal_lock (target_lock_dec h) = target_abnormal_lock h - 1"
  by (simp_all add: same_cmds_def same_events_def target_lock_dec_def)

lemma fail_host_spec:
  assumes inv: "world_inv S H w" and a: "a \<in> S" and shp: "scsi_host (hosts w a) = Some shp"
    and ev: "event_inv HE (hosts w a)"
  obtains w' L where "fail_host a w = Some w'" "world_inv S H w'"
    "allQ (hosts w' a) = []" "all_eventQ (hosts w' a) = []"
    "event_inv (HE - mset (all_eventQ (hosts w a))) (hosts w' a)"
    "same_host ((hosts w a)\<lparr>suspend := 0\<rparr>) (hosts w' a)" "\<forall>b. b \<noteq> a \<longrightarrow> hosts w' b = hosts w b"
    "shosts (mid w') = shosts (mid (set_self_blocked shp False w))" "mgrs w' = mgrs w"
    "sdevs (mid w') = sdevs (mid w)"
    "done_log (mid w') = done_log (mid w) @ L" "\<forall>x\<in>set L. snd x = push_bit 16 DID_SOFT_ERROR"
    "image_mset fst (mset L) = inflight (hosts w a)"
proof -
  define h1 where "h1 = (hosts w a)\<lparr>suspend := 0\<rparr>"
  define w1 where "w1 = upd_host a h1 (set_self_blocked shp False w)"
  define h2 where "h2 = snd (vsc_abort_all_event h1)"
  define w2 where "w2 = upd_host a h2 w1"
  have same1: "same_cmds (hosts w a) h1" "same_events (hosts w a) h1" "silbing_hosts h1 = silbing_hosts (hosts w a)"
    by (simp_all add: h1_def)
  have same2: "same_cmds h1 h2" "same_host h1 h2"
    unfolding h2_def by (rule same_cmds_abort_all_event, rule same_host_abort_all_event)
  have "event_inv HE h1" using event_inv_same_events [OF same1(2)] ev by simp
  then have ev2: "event_inv (HE - mset (all_eventQ (hosts w a))) h2" "all_eventQ h2 = []"
    unfolding h2_def using abort_all_event_held [of HE h1] all_eventQ_same [OF same1(2)] by auto
  have inv1: "world_inv S H w1"
    unfolding w1_def by (rule world_inv_ctl) (use inv a same1 in simp_all)
  have inv2: "world_inv S H w2"
    unfolding w2_def by (rule world_inv_ctl) (use inv1 a same2 in \<open>simp_all add: w1_def silbing_same_host\<close>)
  obtain w3 where w3: "vsc_abort_all_cmd (Some a) w2 = Some (0, w3)" "world_inv S H w3"
      "drains (push_bit 16 DID_SOFT_ERROR) S {a} w2 w3"
    using abort_cb.all_cmd_spec [OF inv2 a] by (metis all_cmd_eq(1))
  have "inflight (hosts w2 a) = inflight (hosts w a)" "done_log (mid w2) = done_log (mid w)"
    using inflight_same_cmds [OF same2(1)] inflight_same_cmds [OF same1(1)] by (simp_all add: w2_def w1_def)
  then obtain L where L: "done_log (mid w3) = done_log (mid w) @ L"
      "\<forall>x\<in>set L. snd x = push_bit 16 DID_SOFT_ERROR" "image_mset fst (mset L) = inflight (hosts w a)"
    using drains_one [OF w3(3) _ a] inv by (auto simp: world_inv_def)
  have d: "same_host h2 (hosts w3 a)" "same_events h2 (hosts w3 a)" "allQ (hosts w3 a) = []"
    "\<forall>b. b \<noteq> a \<longrightarrow> hosts w3 b = hosts w b" "shosts (mid w3) = shosts (mid (set_self_blocked shp False w))"
    "mgrs w3 = mgrs w" "sdevs (mid w3) = sdevs (mid w)"
    using w3(3) by (auto simp: drains_def w2_def w1_def dest: spec [of _ a])
  show ?thesis
  proof (rule that)
    show "fail_host a w = Some w3"
      using shp w3(1)
      by (simp add: fail_host_def vsc_resume_host_def w1_def [symmetric] h1_def [symmetric] Let_def)
        (simp add: w1_def h2_def w2_def)
    show "same_host ((hosts w a)\<lparr>suspend := 0\<rparr>) (hosts w3 a)"
      using same2(2) d(1) unfolding h1_def by (rule same_host_trans)
    show "event_inv (HE - mset (all_eventQ (hosts w a))) (hosts w3 a)"
      using event_inv_same_events [OF d(2)] ev2(1) by simp
    show "all_eventQ (hosts w3 a) = []" using all_eventQ_same [OF d(2)] ev2(2) by simp
  qed (use w3(2) d L in simp_all)
qed

lemma target_abnormal_body_spec:
  assumes inv: "world_inv S H w" and a: "a \<in> S" and shp: "scsi_host (hosts w a) = Some shp"
    and ev: "event_inv HE (hosts w a)" and api: "device_laws api"
    and devs: "distinct (shost_devices (shosts (mid w) shp))"
      "\<forall>d\<in>set (shost_devices (shosts (mid w) shp)). 1 \<le> sdev_refs (sdevs (mid w) d)"
  obtains w' L where "target_abnormal_body api a w = Some w'" "world_inv S H w'"
    "allQ (hosts w' a) = []" "all_eventQ (hosts w' a) = []"
    "event_inv (HE - mset (all_eventQ (hosts w a))) (hosts w' a)"
    "same_host ((hosts w a)\<lparr>suspend := 0\<rparr>) (hosts w' a)" "\<forall>b. b \<noteq> a \<longrightarrow> hosts w' b = hosts w b"
    "\<not> host_self_blocked (shosts (mid w') shp)" "mgrs w' = mgrs w"
    "done_log (mid w') = done_log (mid w) @ L" "\<forall>x\<in>set L. snd x = push_bit 16 DID_SOFT_ERROR"
    "image_mset fst (mset L) = inflight (hosts w a)"
    "\<forall>d\<in>set (shost_devices (shosts (mid w) shp)). offlined (sdevs (mid w) d) (sdevs (mid w') d)"
    "\<forall>d. d \<notin> set (shost_devices (shosts (mid w) shp)) \<longrightarrow> sdevs (mid w') d = sdevs (mid w) d"
proof -
  obtain w3 L where w3: "fail_host a w = Some w3" "world_inv S H w3"
    "allQ (hosts w3 a) = []" "all_eventQ (hosts w3 a) = []"
    "event_inv (HE - mset (all_eventQ (hosts w a))) (hosts w3 a)"
    "same_host ((hosts w a)\<lparr>suspend := 0\<rparr>) (hosts w3 a)" "\<forall>b. b \<noteq> a \<longrightarrow> hosts w3 b = hosts w b"
    "shosts (mid w3) = shosts (mid (set_self_blocked shp False w))" "mgrs w3 = mgrs w"
    "sdevs (mid w3) = sdevs (mid w)"
    "done_log (mid w3) = done_log (mid w) @ L" "\<forall>x\<in>set L. snd x = push_bit 16 DID_SOFT_ERROR"
    "image_mset fst (mset L) = inflight (hosts w a)"
    by (rule fail_host_spec [OF inv a shp ev])
  let ?ds = "shost_devices (shosts (mid w) shp)"
  let ?m = "offline_devices api None ?ds (mid w3)"
  have off: "same_but_sdevs (mid w3) ?m" "\<forall>d\<in>set ?ds. offlined (sdevs (mid w) d) (sdevs ?m d)"
    "\<forall>d. d \<notin> set ?ds \<longrightarrow> sdevs ?m d = sdevs (mid w) d"
    using offline_devices_spec [OF api devs(1), of "mid w3" None] devs(2)
    by (auto simp: w3(10) split: if_splits)
  have shp3: "scsi_host (hosts w3 a) = Some shp" using shp w3(6) by (simp add: same_host_def)
  show ?thesis
  proof (rule that)
    show "target_abnormal_body api a w = Some (w3\<lparr>mid := ?m\<rparr>)"
      using w3(1,8) shp3 by (simp add: target_abnormal_body_def Let_def)
  qed (use w3 off in \<open>auto simp: same_but_sdevs_def\<close>)
qed

text \<open>
  (C33) The timer function of a host without a target: every command is completed once with
  \<open>DID_SOFT_ERROR\<close>, no event is left, the host is unblocked and resumed, each of its devices that
  was running is offline, and every device keeps its reference count; other hosts and devices
  are not touched. While somebody attaches, it does nothing at all.
\<close>

theorem abnormal_fails_host:
  assumes "world_inv S H w" "a \<in> S" "scsi_host (hosts w a) = Some shp" "event_inv HE (hosts w a)"
    and "device_laws api" "distinct (shost_devices (shosts (mid w) shp))"
    and "\<forall>d\<in>set (shost_devices (shosts (mid w) shp)). 1 \<le> sdev_refs (sdevs (mid w) d)"
  shows "if 0 < target_abnormal_lock (hosts w a) then vsc_target_abnormal api (Some a) w = Some w
     else \<exists>w' L. vsc_target_abnormal api (Some a) w = Some w' \<and> world_inv S H w' \<and>
       allQ (hosts w' a) = [] \<and> all_eventQ (hosts w' a) = [] \<and> suspend (hosts w' a) = 0 \<and>
       \<not> host_self_blocked (shosts (mid w') shp) \<and> (\<forall>b. b \<noteq> a \<longrightarrow> hosts w' b = hosts w b) \<and>
       target_abnormal_lock (hosts w' a) = target_abnormal_lock (hosts w a) \<and>
       done_log (mid w') = done_log (mid w) @ L \<and> (\<forall>x\<in>set L. snd x = push_bit 16 DID_SOFT_ERROR) \<and>
       image_mset fst (mset L) = inflight (hosts w a) \<and>
       (\<forall>d. sdev_refs (sdevs (mid w') d) = sdev_refs (sdevs (mid w) d)) \<and>
       (\<forall>d\<in>set (shost_devices (shosts (mid w) shp)).
          sdev_state (sdevs (mid w) d) = SDEV_RUNNING \<longrightarrow> sdev_state (sdevs (mid w') d) = SDEV_OFFLINE) \<and>
       (\<forall>d. d \<notin> set (shost_devices (shosts (mid w) shp)) \<longrightarrow> sdevs (mid w') d = sdevs (mid w) d)"
proof (cases "0 < target_abnormal_lock (hosts w a)")
  case True
  then show ?thesis
    by (simp add: vsc_target_abnormal_def target_lock_inc_def target_lock_dec_def upd_host_def Let_def)
next
  case False
  define h0 where "h0 = (hosts w a)\<lparr>target_abnormal_lock := target_abnormal_lock (hosts w a) + 1\<rparr>"
  have same: "same_cmds (hosts w a) h0" "same_events (hosts w a) h0" "scsi_host h0 = Some shp"
    "silbing_hosts h0 = silbing_hosts (hosts w a)"
    using assms(3) by (simp_all add: h0_def)
  have inv: "world_inv S H (upd_host a h0 w)"
    using assms(1,2) same(1,4) by (rule world_inv_ctl)
  have ev: "event_inv HE (hosts (upd_host a h0 w) a)"
    using event_inv_same_events [OF same(2)] assms(4) by simp
  let ?w0 = "upd_host a h0 w" and ?ds = "shost_devices (shosts (mid w) shp)"
  have pre: "scsi_host (hosts ?w0 a) = Some shp" "distinct (shost_devices (shosts (mid ?w0) shp))"
    "\<forall>d\<in>set (shost_devices (shosts (mid ?w0) shp)). 1 \<le> sdev_refs (sdevs (mid ?w0) d)"
    using assms(6,7) same(3) by simp_all
  obtain w' L where body: "target_abnormal_body api a ?w0 = Some w'" "world_inv S H w'"
    "allQ (hosts w' a) = []" "all_eventQ (hosts w' a) = []"
    "event_inv (HE - mset (all_eventQ (hosts ?w0 a))) (hosts w' a)"
    "same_host ((hosts ?w0 a)\<lparr>suspend := 0\<rparr>) (hosts w' a)" "\<forall>b. b \<noteq> a \<longrightarrow> hosts w' b = hosts ?w0 b"
    "\<not> host_self_blocked (shosts (mid w') shp)" "mgrs w' = mgrs ?w0"
    "done_log (mid w') = done_log (mid ?w0) @ L" "\<forall>x\<in>set L. snd x = push_bit 16 DID_SOFT_ERROR"
    "image_mset fst (mset L) = inflight (hosts ?w0 a)"
    "\<forall>d\<in>set (shost_devices (shosts (mid ?w0) shp)). offlined (sdevs (mid ?w0) d) (sdevs (mid w') d)"
    "\<forall>d. d \<notin> set (shost_devices (shosts (mid ?w0) shp)) \<longrightarrow> sdevs (mid w') d = sdevs (mid ?w0) d"
    by (rule target_abnormal_body_spec [OF inv assms(2) pre(1) ev assms(5) pre(2,3)])
  have w': "target_abnormal_body api a ?w0 = Some w'" "world_inv S H w'"
    "allQ (hosts w' a) = []" "all_eventQ (hosts w' a) = []" "same_host (h0\<lparr>suspend := 0\<rparr>) (hosts w' a)"
    "\<forall>b. b \<noteq> a \<longrightarrow> hosts w' b = hosts w b" "\<not> host_self_blocked (shosts (mid w') shp)"
    "done_log (mid w') = done_log (mid w) @ L" "\<forall>x\<in>set L. snd x = push_bit 16 DID_SOFT_ERROR"
    "image_mset fst (mset L) = inflight h0"
    "\<forall>d\<in>set ?ds. offlined (sdevs (mid w) d) (sdevs (mid w') d)"
    "\<forall>d. d \<notin> set ?ds \<longrightarrow> sdevs (mid w') d = sdevs (mid w) d"
    using body by simp_all
  let ?w = "upd_host a (target_lock_dec (hosts w' a)) w'"
  have run: "vsc_target_abnormal api (Some a) w = Some ?w"
    using False w'(1) by (simp add: vsc_target_abnormal_def target_lock_inc_def Let_def h0_def)
  have inv': "world_inv S H ?w" using w'(2) assms(2) by (rule world_inv_ctl) simp_all
  have q: "allQ (target_lock_dec (hosts w' a)) = []" "all_eventQ (target_lock_dec (hosts w' a)) = []"
    using w'(3,4) by (simp_all add: allQ_def all_eventQ_def target_lock_dec_def)
  have s: "suspend (hosts w' a) = 0" "target_abnormal_lock (hosts w' a) = target_abnormal_lock (hosts w a) + 1"
    using w'(5) by (simp_all add: same_host_def h0_def)
  have dev: "sdev_refs (sdevs (mid w') d) = sdev_refs (sdevs (mid w) d)" for d
    using w'(11,12) by (cases "d \<in> set (shost_devices (shosts (mid w) shp))") (auto simp: offlined_def)
  have off: "\<forall>d\<in>set (shost_devices (shosts (mid w) shp)).
      sdev_state (sdevs (mid w) d) = SDEV_RUNNING \<longrightarrow> sdev_state (sdevs (mid w') d) = SDEV_OFFLINE"
    using w'(11) by (auto simp: offlined_def)
  show ?thesis
    unfolding if_not_P [OF False]
    using run inv' q s dev off w'(6-10,12) inflight_same_cmds [OF same(1)]
    by (intro exI [of _ ?w] exI [of _ L]) simp
qed

subsection \<open>Attach, detach and the timer, interleaved\<close>

text \<open>
  The tasks at work on the ownership of one host: the timer function before its test of
  \<open>target_abnormal_lock\<close>, past it, or about to undo it; an attach waiting in \<open>del_timer_sync\<close>
  (with \<open>h->lock\<close> held), past it, or about to undo its increment; a detach that has cleared
  \<open>h->file\<close>.
\<close>

datatype host_task =
    Timer_fired | Timer_running | Timer_backing
  | Attach_waiting nat | Attach_running | Attach_backing
  | Detaching bool

fun holds_count :: "host_task \<Rightarrow> bool" where
  "holds_count Timer_fired = False"
| "holds_count (Detaching t) = False"
| "holds_count task = True"

fun owns_host :: "host_task \<Rightarrow> bool" where
  "owns_host Timer_running = True"
| "owns_host (Attach_waiting f) = True"
| "owns_host Attach_running = True"
| "owns_host task = False"

fun waits_for_timer :: "host_task \<Rightarrow> bool" where
  "waits_for_timer Timer_fired = True"
| "waits_for_timer Timer_running = True"
| "waits_for_timer Timer_backing = True"
| "waits_for_timer task = False"

fun is_detach :: "host_task \<Rightarrow> bool" where
  "is_detach (Detaching t) = True"
| "is_detach task = False"

text \<open>
  One step of one task. \<open>serial\<close> says whether a detach is completed before the next attach
  begins; the code does not enforce it. Handlers of commands and events are any change of the
  world that leaves the ownership fields of the host alone.
\<close>

inductive owner_step ::
  "bool \<Rightarrow> scsi_api \<Rightarrow> u32 \<Rightarrow> nat \<Rightarrow> vsc_world \<times> host_task multiset \<Rightarrow> vsc_world \<times> host_task multiset \<Rightarrow> bool"
  for serial :: bool and api :: scsi_api and hz :: u32 and a :: nat where
  timer_fires: "target_abnormal_timer (hosts w a) = Some t \<Longrightarrow>
    owner_step serial api hz a (w, T)
      (upd_host a ((hosts w a)\<lparr>target_abnormal_timer := None\<rparr>) w, add_mset Timer_fired T)"
| timer_enters: "target_lock_inc (hosts w a) = (busy, h) \<Longrightarrow>
    owner_step serial api hz a (w, add_mset Timer_fired T)
      (upd_host a h w, add_mset (if busy then Timer_backing else Timer_running) T)"
| timer_backs_off: "owner_step serial api hz a (w, add_mset Timer_backing T)
      (upd_host a (target_lock_dec (hosts w a)) w, T)"
| timer_done: "target_abnormal_body api a w = Some w' \<Longrightarrow>
    owner_step serial api hz a (w, add_mset Timer_running T)
      (upd_host a (target_lock_dec (hosts w' a)) w', T)"
| attach_enters: "h_file (hosts w a) = None \<Longrightarrow> \<forall>f. Attach_waiting f \<notin># T \<Longrightarrow>
    (serial \<Longrightarrow> \<not> (\<exists>t. Detaching t \<in># T)) \<Longrightarrow> target_lock_inc (hosts w a) = (busy, h) \<Longrightarrow>
    owner_step serial api hz a (w, T)
      (upd_host a h w, add_mset (if busy then Attach_backing else Attach_waiting file) T)"
| attach_backs_off: "owner_step serial api hz a (w, add_mset Attach_backing T)
      (upd_host a (target_lock_dec (hosts w a)) w, T)"
| attach_takes: "\<forall>t\<in>#T. \<not> waits_for_timer t \<Longrightarrow>
    owner_step serial api hz a (w, add_mset (Attach_waiting file) T)
      (upd_host a (attach_take file (hosts w a)) w, add_mset Attach_running T)"
| attach_done: "attach_finish a w = Some w' \<Longrightarrow>
    owner_step serial api hz a (w, add_mset Attach_running T) (w', T)"
| detach_begins: "h_file (hosts w a) \<noteq> None \<Longrightarrow> \<forall>f. Attach_waiting f \<notin># T \<Longrightarrow>
    owner_step serial api hz a (w, T)
      (upd_host a ((hosts w a)\<lparr>h_file := None\<rparr>) w, add_mset (Detaching is_timeout) T)"
| detach_done: "detach_finish hz jiffies a is_timeout w = Some (r, w') \<Longrightarrow>
    owner_step serial api hz a (w, add_mset (Detaching is_timeout) T) (w', T)"
| other_handler: "h_file (hosts w' a) = h_file (hosts w a) \<Longrightarrow>
    target_abnormal_lock (hosts w' a) = target_abnormal_lock (hosts w a) \<Longrightarrow>
    target_abnormal_timer (hosts w' a) = target_abnormal_timer (hosts w a) \<Longrightarrow>
    owner_step serial api hz a (w, T) (w', T)"

text \<open>The ownership fields across the pieces that do the work.\<close>

lemma drain_step_same_host:
  assumes "\<And>c h m. same_host h (fst (callback c ty (h, m)))"
  shows "same_host (fst s) (fst (drain_step callback c ty s))"
proof -
  obtain h m where s: "s = (h, m)" by (cases s)
  let ?h1 = "vsc_cmd_get c ((removeQ c h)\<lparr>io_running := io_running (removeQ c h) - 1\<rparr>)"
  have "same_host h ?h1"
    using cmd_get_frame(1) [of "(removeQ c h)\<lparr>io_running := io_running (removeQ c h) - 1\<rparr>" c]
    by (simp add: same_host_def removeQ_def)
  then show ?thesis
    using assms [of ?h1 c m] cmd_put_frame(1) [of "fst (callback c ty (?h1, m))" c]
    by (simp add: s drain_step_def Let_def split_beta) (meson same_host_trans)
qed

lemma drain_queue_same_host:
  assumes "drain_queue q ty callback s = Some s'"
    and "\<And>c h m. same_host h (fst (callback c ty (h, m)))"
  shows "same_host (fst s) (fst s')"
proof -
  have "(\<forall>c h m. same_host h (fst (callback c ty (h, m)))) \<longrightarrow> same_host (fst s) (fst s')"
  proof (rule drain_queue.raw_induct [where P = "\<lambda>q ty callback s s'.
      (\<forall>c h m. same_host h (fst (callback c ty (h, m)))) \<longrightarrow> same_host (fst s) (fst s')", OF _ assms(1)])
    fix f and q :: "vsc_ctrl_info \<Rightarrow> nat list"
      and ty :: queue_type and callback :: "nat \<Rightarrow> queue_type \<Rightarrow> drain_state \<Rightarrow> drain_state"
      and s y :: drain_state
    assume ih: "\<And>q ty callback s y. f q ty callback s = Some y \<Longrightarrow>
        (\<forall>c h m. same_host h (fst (callback c ty (h, m)))) \<longrightarrow> same_host (fst s) (fst y)"
      and run: "(case q (fst s) of [] \<Rightarrow> Some s | c # x \<Rightarrow> f q ty callback (drain_step callback c ty s)) = Some y"
    show "(\<forall>c h m. same_host h (fst (callback c ty (h, m)))) \<longrightarrow> same_host (fst s) (fst y)"
    proof
      assume cb: "\<forall>c h m. same_host h (fst (callback c ty (h, m)))"
      show "same_host (fst s) (fst y)"
      proof (cases "q (fst s)")
        case (Cons c cs)
        then have "same_host (fst (drain_step callback c ty s)) (fst y)" using ih run cb by simp
        then show ?thesis using drain_step_same_host [of callback ty s c] cb by (blast intro: same_host_trans)
      qed (use run in simp)
    qed
  qed
  then show ?thesis using assms(2) by blast
qed

lemma callbacks_same_host:
  "same_host h (fst (vsc_abort_cmd_callback c ty (h, m)))"
  "same_host h (fst (vsc_requeue_cmd_callback c ty (h, m)))"
proof -
  have "same_host h (vsc_cmd_put c (h\<lparr>Qdepth := n\<rparr>))" for n
    using cmd_put_frame(1) [of "h\<lparr>Qdepth := n\<rparr>" c] by (simp add: same_host_def)
  then show "same_host h (fst (vsc_abort_cmd_callback c ty (h, m)))"
    "same_host h (fst (vsc_requeue_cmd_callback c ty (h, m)))"
    by (auto simp: vsc_abort_cmd_callback_def vsc_requeue_cmd_callback_def cmd_put_frame(1) Let_def
        split: queue_type.splits option.splits)
qed

lemma all_cmd_same_host:
  assumes "all_cmd callback (Some a) w = Some (r, w')"
    and "\<And>c ty h m. same_host h (fst (callback c ty (h, m)))"
  shows "same_host (hosts w a) (hosts w' a)"
proof -
  obtain h m where r: "vsc_each_queue_remove callback (hosts w a, mid w) = Some (r, h, m)"
    and w': "w' = (upd_host a h w)\<lparr>mid := m\<rparr>"
    using assms(1) by (auto simp: all_cmd_def bind_eq_Some_conv)
  obtain s1 s2 where "drain_queue reqQ VSC_LIST_REQQ callback (hosts w a, mid w) = Some s1"
    "drain_queue cmpQ VSC_LIST_COMQ callback s1 = Some s2"
    "drain_queue rspQ VSC_LIST_RSPQ callback s2 = Some (h, m)"
    using r by (auto simp: vsc_each_queue_remove_def bind_eq_Some_conv)
  from this [THEN drain_queue_same_host] assms(2) have "same_host (hosts w a) h"
    by (auto intro: same_host_trans)
  then show ?thesis by (simp add: w')
qed

text \<open>\<open>owner_same\<close>: the ownership fields are the same.\<close>

definition owner_same :: "vsc_ctrl_info \<Rightarrow> vsc_ctrl_info \<Rightarrow> bool" where
  "owner_same h h' \<longleftrightarrow> h_file h' = h_file h \<and> target_abnormal_lock h' = target_abnormal_lock h \<and>
     target_abnormal_timer h' = target_abnormal_timer h"

lemma same_host_owner: "same_host h h' \<Longrightarrow> owner_same h h'"
  by (simp add: same_host_def owner_same_def)

lemma target_abnormal_body_owner:
  assumes "target_abnormal_body api a w = Some w'"
  shows "owner_same (hosts w a) (hosts w' a)"
proof -
  from assms obtain w1 r1 r3 w3 where w1: "vsc_resume_host (Some a) w = Some (r1, w1)"
    and w3: "vsc_abort_all_cmd (Some a) (upd_host a (snd (vsc_abort_all_event (hosts w1 a))) w1) = Some (r3, w3)"
    and w': "hosts w' = hosts w3"
    by (auto simp: target_abnormal_body_def fail_host_def bind_eq_Some_conv Let_def)
  have "owner_same (hosts w a) (hosts w1 a)"
    using w1 by (auto simp: vsc_resume_host_def bind_eq_Some_conv Let_def owner_same_def)
  moreover have "same_host (hosts w1 a) (hosts w3 a)"
    using same_host_abort_all_event [of "hosts w1 a"]
      all_cmd_same_host [OF w3 [unfolded all_cmd_eq(1)] callbacks_same_host(1)]
    by (auto intro: same_host_trans)
  ultimately show ?thesis
    using same_host_owner [of "hosts w1 a" "hosts w3 a"] by (simp add: w' owner_same_def)
qed

lemma attach_finish_owner:
  assumes "attach_finish a w = Some w'"
  shows "h_file (hosts w' a) = h_file (hosts w a)"
    "target_abnormal_timer (hosts w' a) = target_abnormal_timer (hosts w a)"
    "target_abnormal_lock (hosts w' a) = target_abnormal_lock (hosts w a) - 1"
  using assms by (auto simp: attach_finish_def vsc_resume_host_def bind_eq_Some_conv Let_def split: if_splits)

lemma detach_finish_owner:
  assumes "detach_finish hz jiffies a t w = Some (r, w')"
  shows "h_file (hosts w' a) = h_file (hosts w a)"
    "target_abnormal_lock (hosts w' a) = target_abnormal_lock (hosts w a)"
proof -
  from assms obtain shp r3 w3 where
    w3: "vsc_requeue_all_cmd (Some a) (upd_host a (snd (vsc_abort_all_event (hosts w a)))
           (set_self_blocked shp True w)) = Some (r3, w3)"
    and w': "w' = w3 \<or> w' = upd_host a (detach_arm hz jiffies t
        (if waitqueue_active (hosts w3 a) then wake_up_queue (hosts w3 a) else hosts w3 a)) w3"
    by (auto simp: detach_finish_def vsc_abort_all_event_def bind_eq_Some_conv Let_def split: if_splits)
  have "same_host (hosts w a) (hosts w3 a)"
    using same_host_abort_all_event [of "hosts w a"]
      all_cmd_same_host [OF w3 [unfolded all_cmd_eq(2)] callbacks_same_host(2)]
    by (auto intro: same_host_trans)
  with w' show "h_file (hosts w' a) = h_file (hosts w a)"
    "target_abnormal_lock (hosts w' a) = target_abnormal_lock (hosts w a)"
    by (auto simp: same_host_def wake_up_queue_def)
qed

text \<open>
  The invariant: \<open>target_abnormal_lock\<close> counts the tasks between their increment and their
  decrement, at most one of them is past the test, and an attached host has no timer, no timer
  function past its test and, with serial detaches, no unfinished detach.
\<close>

definition owner_inv :: "nat \<Rightarrow> vsc_world \<times> host_task multiset \<Rightarrow> bool" where
  "owner_inv a = (\<lambda>(w, T). let h = hosts w a in
     target_abnormal_lock h = int (size (filter_mset holds_count T)) \<and>
     size (filter_mset owns_host T) \<le> 1 \<and>
     (h_file h \<noteq> None \<longrightarrow> target_abnormal_timer h = None \<and>
        (\<forall>t\<in>#T. t \<noteq> Timer_fired \<and> t \<noteq> Timer_running \<and> \<not> is_detach t)) \<and>
     ((\<exists>f. Attach_waiting f \<in># T) \<longrightarrow> h_file h = None \<and> (\<forall>t\<in>#T. \<not> is_detach t)))"

lemma owns_holds: "owns_host t \<Longrightarrow> holds_count t"
  by (cases t) simp_all

lemma no_holder_no_owner: "filter_mset holds_count T = {#} \<Longrightarrow> filter_mset owns_host T = {#}"
  using owns_holds by (auto simp: filter_mset_eq_mempty_iff)

lemma target_lock_inc_fields:
  assumes "target_lock_inc h = (busy, h')"
  shows "busy \<longleftrightarrow> 0 < target_abnormal_lock h" "target_abnormal_lock h' = target_abnormal_lock h + 1"
    "h_file h' = h_file h" "target_abnormal_timer h' = target_abnormal_timer h"
  using assms by (auto simp: target_lock_inc_def Let_def)

lemma no_owner: "size (filter_mset holds_count T) = 0 \<Longrightarrow> size (filter_mset owns_host T) = 0"
  using no_holder_no_owner [of T] by simp

lemma no_owner_size: "\<forall>x. x \<in># T \<longrightarrow> \<not> P x \<Longrightarrow> size (filter_mset P T) \<le> Suc 0"
  by (simp add: filter_mset_eq_mempty_iff [THEN iffD2])

lemma owner_inv_step:
  assumes "owner_step True api hz a s s'" "owner_inv a s"
  shows "owner_inv a s'"
  using assms
proof (cases rule: owner_step.cases)
  case (timer_fires w t T)
  then show ?thesis using assms(2) by (auto simp: owner_inv_def Let_def)
next
  case (timer_enters w busy h T)
  note inc = target_lock_inc_fields [OF timer_enters(3)]
  show ?thesis
    using assms(2) timer_enters(1,2) inc no_owner [of T]
    by (cases busy) (auto simp: owner_inv_def Let_def)
next
  case (timer_backs_off w T)
  then show ?thesis using assms(2) by (auto simp: owner_inv_def Let_def)
next
  case (timer_done w w' T)
  note own = target_abnormal_body_owner [OF timer_done(3)]
  show ?thesis using assms(2) timer_done own by (auto simp: owner_inv_def owner_same_def Let_def intro: no_owner_size)
next
  case (attach_enters w T busy h f)
  note inc = target_lock_inc_fields [OF attach_enters(6)]
  show ?thesis
    using assms(2) attach_enters inc no_owner [of T]
    by (cases busy) (auto simp: owner_inv_def Let_def elim!: is_detach.elims)
next
  case (attach_backs_off w T)
  then show ?thesis using assms(2) by (auto simp: owner_inv_def Let_def)
next
  case (attach_takes T w f)
  then show ?thesis using assms(2) 
    by (auto simp: owner_inv_def Let_def attach_take_def)
next
  case (attach_done w w' T)
  note own = attach_finish_owner [OF attach_done(3)]
  show ?thesis using assms(2) attach_done own by (auto simp: owner_inv_def Let_def intro: no_owner_size)
next
  case (detach_begins w T is_timeout)
  then show ?thesis using assms(2) by (auto simp: owner_inv_def Let_def)
next
  case (detach_done jiffies is_timeout w r w' T)
  note own = detach_finish_owner [OF detach_done(3)]
  show ?thesis using assms(2) detach_done own by (auto simp: owner_inv_def Let_def)
next
  case (other_handler w' w T)
  then show ?thesis using assms(2) by (auto simp: owner_inv_def Let_def)
qed

text \<open>
  (C9) Attach, detach and the timer in any interleaving, with detaches that finish before the next
  attach begins: \<open>target_abnormal_lock\<close> counts the tasks that incremented it, at most one task
  owns the host, and the timer function never runs on a host that a file is attached to, so
  it never fails the commands of a live target.
\<close>

theorem attach_excludes_timer:
  assumes "(owner_step True api hz a)\<^sup>*\<^sup>* (w, {#}) (w', T)"
    and "target_abnormal_lock (hosts w a) = 0"
    and "h_file (hosts w a) \<noteq> None \<longrightarrow> target_abnormal_timer (hosts w a) = None"
  shows "target_abnormal_lock (hosts w' a) = int (size (filter_mset holds_count T)) \<and>
     size (filter_mset owns_host T) \<le> 1 \<and> (Timer_running \<in># T \<longrightarrow> h_file (hosts w' a) = None)"
proof -
  have "owner_inv a (w', T)"
    using assms(1)
  proof (induction rule: rtranclp_induct)
    case base
    then show ?case using assms(2,3) by (simp add: owner_inv_def)
  next
    case (step s s')
    then show ?case by (auto intro: owner_inv_step)
  qed
  then show ?thesis
    by (auto simp: owner_inv_def Let_def)
qed

subsection \<open>At concrete states\<close>

text \<open>A middle layer that grants every reference and every state, and adds no device.\<close>

definition example_api :: scsi_api where
  "example_api = \<lparr>
     scsi_device_get = (\<lambda>d m. (0, upd_sdev d (\<lambda>s. s\<lparr>sdev_refs := sdev_refs s + 1\<rparr>) m)),
     scsi_device_put = (\<lambda>d m. upd_sdev d (\<lambda>s. s\<lparr>sdev_refs := sdev_refs s - 1\<rparr>) m),
     scsi_device_set_state = (\<lambda>d st m. (0, upd_sdev d (\<lambda>s. s\<lparr>sdev_state := st\<rparr>) m)),
     scsi_add_device = (\<lambda>shp c i l m. (- ENODEV, m)),
     scsi_remove_device = (\<lambda>d m. upd_sdev d (\<lambda>s. s\<lparr>sdev_state := SDEV_DEL\<rparr>) m),
     scsi_adjust_queue_depth = (\<lambda>d n m. upd_sdev d (\<lambda>s. s\<lparr>queue_depth := n\<rparr>) m)\<rparr>"

lemma example_api_laws: "device_laws example_api"
  by (simp add: device_laws_def example_api_def)

text \<open>The example host with one command at the target, and a timeout of 30 seconds.\<close>

definition example_busy_world :: vsc_world where
  "example_busy_world = example_world\<lparr>hosts := (\<lambda>_. example_out_host\<lparr>target_abnormal_time := 30\<rparr>)\<rparr>"

lemma example_busy_simps [simp]:
  "hosts example_busy_world a = example_out_host\<lparr>target_abnormal_time := 30\<rparr>"
  "mid example_busy_world = mid example_world" "mgrs example_busy_world mp = example_mgr"
  "scsi_host example_out_host = Some 0" "h_file example_out_host = Some 7"
  "target_abnormal_lock example_out_host = 0" "target_abnormal_timer example_out_host = None"
  "shost_devices example_shost = [0]" "sdev_refs example_sdev = 1" "suspend example_out_host = 0"
  by (simp_all add: example_busy_world_def example_out_host_def example_defs)

lemma example_busy_inv:
  "world_inv {0} (\<lambda>_. {#}) example_busy_world" "event_inv {#} (hosts example_busy_world 0)"
  "inflight (hosts example_busy_world 0) = {#5#}" "all_eventQ (hosts example_busy_world 0) = []"
proof -
  have h: "host_inv {#} (example_out_host\<lparr>target_abnormal_time := 30\<rparr>)"
    using example_out_ok(1) by (simp add: host_inv_defs cmd_used_def allQ_def)
  have s: "silbing_hosts example_out_host = Some 0"
    by (simp add: example_out_host_def)
  have "host_list example_mgr = Some 0 # replicate 7 None" by (simp add: example_defs)
  then show "world_inv {0} (\<lambda>_. {#}) example_busy_world"
    using h s by (simp add: world_inv_def MAX_HOST_NR_PER_VBS_def)
  show "event_inv {#} (hosts example_busy_world 0)" "all_eventQ (hosts example_busy_world 0) = []"
    using example_out_event_inv by (simp_all add: event_inv_defs event_used_def all_eventQ_def)
  have "reqQ example_out_host = []" "cmpQ example_out_host = []" "rspQ example_out_host = [0]"
    by (simp_all add: example_out_host_def example_defs)
  then show "inflight (hosts example_busy_world 0) = {#5#}"
    by (simp add: inflight_def allQ_def) (simp add: example_out_host_def example_out_cmd_def)
qed

theorem detach_hands_back_witness:
  "\<exists>w'. vsc_scsi_detach 250 1000 (Some 0) True example_busy_world = Some (0, w') \<and>
     h_file (hosts w' 0) = None \<and> done_log (mid w') = [(5, push_bit 16 DID_REQUEUE)] \<and>
     target_abnormal_timer (hosts w' 0) = Some 8500"
proof -
  have pre: "scsi_host (hosts example_busy_world 0) = Some 0" "h_file (hosts example_busy_world 0) = Some 7"
    by simp_all
  obtain w' L where w': "vsc_scsi_detach 250 1000 (Some 0) True example_busy_world = Some (0, w')"
    "h_file (hosts w' 0) = None" "done_log (mid w') = L" "\<forall>x\<in>set L. snd x = push_bit 16 DID_REQUEUE"
    "image_mset fst (mset L) = {#5#}" "target_abnormal_timer (hosts w' 0) = Some 8500"
    using detach_hands_back [OF example_busy_inv(1) _ pre example_busy_inv(2), of 250 1000 True]
      example_busy_inv(3) by auto
  have "map fst L = [5]" using w'(5) by (metis mset_map mset_single_iff mset_single_iff_right)
  then have "L = [(5, push_bit 16 DID_REQUEUE)]" using w'(4) by (cases L) auto
  with w' show ?thesis by auto
qed

theorem abnormal_fails_host_witness:
  "\<exists>w'. vsc_target_abnormal example_api (Some 0) example_busy_world = Some w' \<and>
     length (done_log (mid w')) = 1 \<and> sdev_state (sdevs (mid w') 0) = SDEV_OFFLINE"
proof -
  have pre: "scsi_host (hosts example_busy_world 0) = Some 0" by simp
  have s: "sdev_state example_sdev = SDEV_RUNNING" by (simp add: example_defs)
  obtain w' L where w': "vsc_target_abnormal example_api (Some 0) example_busy_world = Some w'"
    "done_log (mid w') = L" "image_mset fst (mset L) = {#5#}" "sdev_state (sdevs (mid w') 0) = SDEV_OFFLINE"
    using abnormal_fails_host [OF example_busy_inv(1) _ pre example_busy_inv(2) example_api_laws]
      example_busy_inv(3) s by auto
  from w'(3) have "size (image_mset fst (mset L)) = 1" by simp
  then have "length L = 1" by simp
  with w'(1,2,4) show ?thesis by blast
qed

lemma example_detach_finish:
  assumes "same_cmds (hosts example_busy_world 0) h" "same_events (hosts example_busy_world 0) h"
    and "scsi_host h = Some 0" "silbing_hosts h = Some 0" "target_abnormal_lock h = 0"
    and "target_abnormal_time h = 30" "hosts w = (hosts example_busy_world)(0 := h)" "mgrs w = mgrs example_busy_world"
  obtains w' where "detach_finish 250 1000 0 True w = Some (0, w')"
    "target_abnormal_timer (hosts w' 0) = Some 8500" "target_abnormal_lock (hosts w' 0) = 0"
    "h_file (hosts w' 0) = h_file h"
proof -
  have s: "silbing_hosts example_out_host = Some 0" by (simp add: example_out_host_def)
  have "world_inv {0} (\<lambda>_. {#}) (upd_host 0 h example_busy_world)"
    by (rule world_inv_ctl) (use example_busy_inv(1) assms s in simp_all)
  then have inv: "world_inv {0} (\<lambda>_. {#}) w"
    using assms(7,8) by (simp add: world_inv_def)
  have h: "hosts w 0 = h" using assms(7) by simp
  have ev: "event_inv {#} (hosts w 0)"
    using event_inv_same_events [OF assms(2)] example_busy_inv(2) h by simp
  have shp: "scsi_host (hosts w 0) = Some 0" using assms(3) h by simp
  obtain w' w1 :: vsc_world and L where r: "detach_finish 250 1000 0 True w = Some (0, w')" "world_inv {0} (\<lambda>_. {#}) w'"
    "allQ (hosts w' 0) = []" "all_eventQ (hosts w' 0) = []"
    "event_inv ({#} - mset (all_eventQ (hosts w 0))) (hosts w' 0)" "queue_waiters (hosts w' 0) = 0"
    "host_self_blocked (shosts (mid w') 0)" "same_host (hosts w 0) (hosts w1 0)"
    "hosts w' 0 = detach_arm 250 1000 True (hosts w1 0)" "\<forall>b. b \<noteq> 0 \<longrightarrow> hosts w' b = hosts w b"
    "mgrs w' = mgrs w" "sdevs (mid w') = sdevs (mid w)"
    "done_log (mid w') = done_log (mid w) @ L" "\<forall>x\<in>set L. snd x = push_bit 16 DID_REQUEUE"
    "image_mset fst (mset L) = inflight (hosts w 0)"
    by (rule detach_finish_spec [OF inv _ shp ev]) simp
  have "target_abnormal_time (hosts w1 0) = 30" "target_abnormal_lock (hosts w1 0) = 0" "h_file (hosts w1 0) = h_file h"
    using r(8) assms h by (simp_all add: same_host_def)
  with r(1,9) that [of w'] show thesis by simp
qed

lemma timer_enters_free:
  assumes "target_abnormal_timer (hosts w a) = Some t" "target_abnormal_lock (hosts w a) = 0"
  obtains w' where "(owner_step serial api hz a)\<^sup>*\<^sup>* (w, T) (w', add_mset Timer_running T)"
    "h_file (hosts w' a) = h_file (hosts w a)"
proof -
  let ?w1 = "upd_host a ((hosts w a)\<lparr>target_abnormal_timer := None\<rparr>) w"
  obtain busy h where inc: "target_lock_inc (hosts ?w1 a) = (busy, h)" by (cases "target_lock_inc (hosts ?w1 a)")
  note f = target_lock_inc_fields [OF inc]
  have "owner_step serial api hz a (w, T) (?w1, add_mset Timer_fired T)"
    using assms(1) by (rule owner_step.timer_fires)
  moreover have "owner_step serial api hz a (?w1, add_mset Timer_fired T) (upd_host a h ?w1, add_mset Timer_running T)"
    using owner_step.timer_enters [OF inc, of serial api hz T] f(1) assms(2) by simp
  ultimately have "(owner_step serial api hz a)\<^sup>*\<^sup>* (w, T) (upd_host a h ?w1, add_mset Timer_running T)"
    by (meson converse_rtranclp_into_rtranclp r_into_rtranclp)
  then show thesis using f(3) by (intro that [of "upd_host a h ?w1"]) auto
qed

theorem attach_excludes_timer_witness:
  "\<exists>w' T. (owner_step True example_api 250 0)\<^sup>*\<^sup>* (example_busy_world, {#}) (w', T) \<and>
     Timer_running \<in># T \<and> h_file (hosts w' 0) = None"
proof -
  let ?h = "(hosts example_busy_world 0)\<lparr>h_file := None\<rparr>"
  let ?w = "upd_host 0 ?h example_busy_world"
  have "same_cmds (hosts example_busy_world 0) ?h" "same_events (hosts example_busy_world 0) ?h"
    by (simp_all add: same_cmds_def same_events_def)
  moreover have "scsi_host ?h = Some 0" by simp
  moreover have "silbing_hosts ?h = Some 0" by (simp add: example_out_host_def)
  ultimately obtain w1 where w1: "detach_finish 250 1000 0 True ?w = Some (0, w1)"
    "target_abnormal_timer (hosts w1 0) = Some 8500" "target_abnormal_lock (hosts w1 0) = 0"
    using example_detach_finish [of ?h ?w] by (auto simp: upd_host_def)
  have "owner_step True example_api 250 0 (example_busy_world, {#}) (?w, {#Detaching True#})"
    by (rule owner_step.detach_begins) simp_all
  moreover have "owner_step True example_api 250 0 (?w, {#Detaching True#}) (w1, {#})"
    using w1(1) by (rule owner_step.detach_done)
  moreover obtain w' where "(owner_step True example_api 250 0)\<^sup>*\<^sup>* (w1, {#}) (w', {#Timer_running#})"
    using timer_enters_free [OF w1(2,3)] by blast
  ultimately have run: "(owner_step True example_api 250 0)\<^sup>*\<^sup>* (example_busy_world, {#}) (w', {#Timer_running#})"
    by (meson converse_rtranclp_into_rtranclp)
  then have "h_file (hosts w' 0) = None"
    using attach_excludes_timer [OF run] by simp
  with run show ?thesis by fastforce
qed

text \<open>
  (C32) The code does not order a detach and the next attach: a detach clears \<open>h->file\<close> first and
  arms the timer last, and an attach that runs in between has already deleted the timer. From
  the example state this reaches the timer function at work on a host attached to file 8.
\<close>

theorem attach_timer_race:
  "\<exists>w' T. (owner_step False example_api 250 0)\<^sup>*\<^sup>* (example_busy_world, {#}) (w', T) \<and>
     Timer_running \<in># T \<and> h_file (hosts w' 0) = Some 8"
proof -
  let ?step = "owner_step False example_api 250 0" and ?D = "Detaching True"
  let ?h1 = "(hosts example_busy_world 0)\<lparr>h_file := None\<rparr>"
  let ?w1 = "upd_host 0 ?h1 example_busy_world"
  let ?h2 = "?h1\<lparr>target_abnormal_lock := 1\<rparr>"
  let ?w2 = "upd_host 0 ?h2 ?w1" and ?w3 = "upd_host 0 (attach_take 8 ?h2) (upd_host 0 ?h2 ?w1)"
  have s1: "?step (example_busy_world, {#}) (?w1, {#?D#})"
    by (rule owner_step.detach_begins) simp_all
  have "target_lock_inc (hosts ?w1 0) = (False, ?h2)" by (simp add: target_lock_inc_def)
  then have s2: "?step (?w1, {#?D#}) (?w2, {#Attach_waiting 8, ?D#})"
    using owner_step.attach_enters [of ?w1 0 "{#?D#}" False False ?h2 example_api 250 8] by simp
  have s3: "?step (?w2, {#Attach_waiting 8, ?D#}) (?w3, {#Attach_running, ?D#})"
    using owner_step.attach_takes [of "{#?D#}" False example_api 250 0 ?w2 8] by simp
  let ?h4 = "(attach_take 8 ?h2)\<lparr>suspend := 0, target_abnormal_lock := 0\<rparr>"
  obtain w4 where w4: "attach_finish 0 ?w3 = Some w4" "hosts w4 = (hosts example_busy_world)(0 := ?h4)"
    "mgrs w4 = mgrs example_busy_world"
    by (simp add: attach_finish_def vsc_resume_host_def attach_take_def target_lock_dec_def upd_host_def Let_def)
  have s4: "?step (?w3, {#Attach_running, ?D#}) (w4, {#?D#})"
    using owner_step.attach_done [OF w4(1), of False example_api 250 "{#?D#}"] by simp
  have "same_cmds (hosts example_busy_world 0) ?h4" "same_events (hosts example_busy_world 0) ?h4"
    "scsi_host ?h4 = Some 0" "silbing_hosts ?h4 = Some 0" "target_abnormal_lock ?h4 = 0" "target_abnormal_time ?h4 = 30"
    by (simp_all add: same_cmds_def same_events_def attach_take_def) (simp add: example_out_host_def)
  then obtain w5 where w5: "detach_finish 250 1000 0 True w4 = Some (0, w5)"
    "target_abnormal_timer (hosts w5 0) = Some 8500" "target_abnormal_lock (hosts w5 0) = 0"
    "h_file (hosts w5 0) = h_file ?h4"
    using example_detach_finish [of ?h4 w4] w4 by auto
  have s5: "?step (w4, {#?D#}) (w5, {#})"
    using w5(1) by (rule owner_step.detach_done)
  obtain w6 where w6: "?step\<^sup>*\<^sup>* (w5, {#}) (w6, {#Timer_running#})" "h_file (hosts w6 0) = Some 8"
    using timer_enters_free [OF w5(2,3), of False example_api 250 "{#}"] w5(4)
    by (auto simp: attach_take_def)
  have "?step\<^sup>*\<^sup>* (example_busy_world, {#}) (w6, {#Timer_running#})"
    using s1 s2 s3 s4 s5 w6(1) by (meson converse_rtranclp_into_rtranclp)
  with w6(2) show ?thesis by fastforce
qed

end
