(* ===== verification/Vsc_Device.thy ===== *)
theory Vsc_Device
  imports Vsc_Attach
begin

text \<open>
  The devices of a host: the callbacks of the middle layer (\<open>vsch_bios_param\<close>,
  \<open>vsc_change_queue_depth\<close>), finding a device by address or by volume name, and the operations the
  ioctls offer on one: add, add with a volume name, remove, mark a volume for deletion, list
  the volumes, read and write the state, set the request timeout. Where the code differs
  between kernels, the branch of kernels other than 2.6.18 is modelled. A handle \<open>h\<close> is a host's block
  or \<open>NULL\<close>; these operations only read it.
\<close>

subsection \<open>Callbacks of the middle layer\<close>

text \<open>\<open>sector_div(n, base)\<close>, with the 32-bit divisor of \<open>do_div\<close>.\<close>

definition sector_div :: "u64 \<Rightarrow> u64 \<Rightarrow> u64 option" where
  "sector_div n base = (if ucast (ucast base :: u32) = (0 :: u64) then None
                        else Some (n div ucast (ucast base :: u32)))"

text \<open>The return value and the three entries of \<open>params\<close>: heads, sectors, cylinders.\<close>

definition vsch_bios_param :: "u64 \<Rightarrow> (int \<times> int \<times> int \<times> int) option" where
  "vsch_bios_param capacity =
     do { cylinders \<leftarrow> sector_div capacity (64 * 32);
          (heads, sectors, cylinders) \<leftarrow>
            (if 0x200000 \<le> capacity
             then do { c \<leftarrow> sector_div capacity (255 * 63); Some (255, 63, c) }
             else Some (64, 32, cylinders));
          Some (0, heads, sectors, c_int (uint cylinders)) }"

abbreviation (input) SCSI_QDEPTH_DEFAULT :: int where "SCSI_QDEPTH_DEFAULT \<equiv> 0"

definition vsc_change_queue_depth :: "scsi_api \<Rightarrow> nat \<Rightarrow> int \<Rightarrow> int \<Rightarrow> vsc_world \<Rightarrow> int \<times> vsc_world" where
  "vsc_change_queue_depth api sdev qdepth reason w =
     (let h = hosts w (hostdata (shosts (mid w) (sdev_host (sdevs (mid w) sdev)))) in
      if reason \<noteq> SCSI_QDEPTH_DEFAULT then (- ENOTSUPP, w)
      else
        let qdepth = (if qdepth < 1 then 1
                      else if int (nr_cmds h) < qdepth then int (nr_cmds h) else qdepth);
            m = scsi_adjust_queue_depth api sdev qdepth (mid w)
        in (queue_depth (sdevs m sdev), w\<lparr>mid := m\<rparr>))"

subsection \<open>Finding a device\<close>

text \<open>\<open>__vsc_scsi_device_lookup\<close>: the first device of the list at the address that is not deleted.\<close>

definition scsi_device_lookup :: "nat \<Rightarrow> u32 \<Rightarrow> u32 \<Rightarrow> u32 \<Rightarrow> midlayer \<Rightarrow> nat option" where
  "scsi_device_lookup shost channel tid lun m =
     find (\<lambda>d. sdev_channel (sdevs m d) = channel \<and> sdev_id (sdevs m d) = tid \<and>
              sdev_lun (sdevs m d) = lun \<and> sdev_state (sdevs m d) \<noteq> SDEV_DEL)
          (shost_devices (shosts m shost))"

text \<open>\<open>!strncmp(a, b, n)\<close>, of arrays of at least \<open>n\<close> bytes.\<close>

fun strn_eq :: "nat \<Rightarrow> byte list \<Rightarrow> byte list \<Rightarrow> bool" where
  "strn_eq (Suc n) (x # xs) (y # ys) = (x = y \<and> (x = 0 \<or> strn_eq n xs ys))"
| "strn_eq _ _ _ = True"

text \<open>\<open>__vsc_scsi_device_lookup_by_vol_name\<close>: the first device of that name, deleted or not.\<close>

definition scsi_device_lookup_by_vol_name :: "nat \<Rightarrow> byte list \<Rightarrow> midlayer \<Rightarrow> nat option" where
  "scsi_device_lookup_by_vol_name shost vol_name m =
     find (\<lambda>d. strn_eq VSC_VOL_NAME_LEN (v_vol_name (sdev_data (sdevs m d))) vol_name)
          (shost_devices (shosts m shost))"

text \<open>The callers' lookups take a reference; a device that grants none is not found.\<close>

definition device_get_found :: "scsi_api \<Rightarrow> nat option \<Rightarrow> midlayer \<Rightarrow> nat option \<times> midlayer" where
  "device_get_found api found m =
     (case found of
        None \<Rightarrow> (None, m)
      | Some sdev \<Rightarrow>
          (let (r, m1) = scsi_device_get api sdev m in if r \<noteq> 0 then (None, m1) else (Some sdev, m1)))"

definition vsc_scsi_device_lookup ::
  "scsi_api \<Rightarrow> nat \<Rightarrow> u32 \<Rightarrow> u32 \<Rightarrow> u32 \<Rightarrow> midlayer \<Rightarrow> nat option \<times> midlayer" where
  "vsc_scsi_device_lookup api shost channel tid lun m =
     device_get_found api (scsi_device_lookup shost channel tid lun m) m"

definition vsc_scsi_device_lookup_by_vol_name ::
  "scsi_api \<Rightarrow> nat \<Rightarrow> byte list \<Rightarrow> midlayer \<Rightarrow> nat option \<times> midlayer" where
  "vsc_scsi_device_lookup_by_vol_name api shost vol_name m =
     device_get_found api (scsi_device_lookup_by_vol_name shost vol_name m) m"

subsection \<open>Adding a device\<close>

text \<open>
  The steps \<open>vsc_add_device\<close> and \<open>vsc_add_device_by_vol_name\<close> share after their checks: refuse an
  address in use, else ask the middle layer to probe it. A host without a \<open>Scsi_Host\<close> would be
  a dereference of \<open>NULL\<close>.
\<close>

definition probe_device ::
  "scsi_api \<Rightarrow> nat \<Rightarrow> u32 \<Rightarrow> u32 \<Rightarrow> u32 \<Rightarrow> midlayer \<Rightarrow> int \<times> midlayer" where
  "probe_device api sh channel tid lun m =
     (case vsc_scsi_device_lookup api sh channel tid lun m of
        (Some sdev, m1) \<Rightarrow> (- EEXIST, scsi_device_put api sdev m1)
      | (None, m1) \<Rightarrow> scsi_add_device api sh channel tid lun m1)"

definition vsc_add_device ::
  "scsi_api \<Rightarrow> vsc_ctrl_info option \<Rightarrow> u32 \<Rightarrow> u32 \<Rightarrow> u32 \<Rightarrow> midlayer \<Rightarrow> (int \<times> midlayer) option" where
  "vsc_add_device api h channel tid lun m =
     (case h of
        None \<Rightarrow> Some (- EINVAL, m)
      | Some h \<Rightarrow>
          if h_file h = None then Some (- EACCES, m)
          else do { sh \<leftarrow> scsi_host h;
                    let (error, m1) = probe_device api sh channel tid lun m;
                    Some (if error \<noteq> 0 then error else 0, m1) })"

text \<open>What is written into the volume of a new device.\<close>

definition init_volume :: "u32 \<Rightarrow> byte list \<Rightarrow> scsi_device \<Rightarrow> scsi_device" where
  "init_volume hno vol_name s = s\<lparr>sdev_data := (sdev_data s)\<lparr>
     v_vol_name := vol_name, v_state := VSC_DISK_RUNNING, v_host := hno,
     v_channel := sdev_channel s, v_id := sdev_id s, v_lun := sdev_lun s, v_extend := 1\<rparr>\<rparr>"

definition vsc_add_device_by_vol_name ::
  "scsi_api \<Rightarrow> vsc_ctrl_info option \<Rightarrow> u32 \<Rightarrow> u32 \<Rightarrow> u32 \<Rightarrow> byte list option \<Rightarrow> midlayer \<Rightarrow>
   (int \<times> midlayer) option" where
  "vsc_add_device_by_vol_name api h channel tid lun vol_name m =
     (case (h, vol_name) of
        (Some h, Some vol_name) \<Rightarrow>
          if h_file h = None then Some (- EACCES, m)
          else do { sh \<leftarrow> scsi_host h;
                    let (error, m1) = probe_device api sh channel tid lun m;
                    if error \<noteq> 0 then Some (error, m1)
                    else (case vsc_scsi_device_lookup api sh channel tid lun m1 of
                            (None, m2) \<Rightarrow> Some (- ENODEV, m2)
                          | (Some sdev, m2) \<Rightarrow>
                              (let m3 = upd_sdev sdev (init_volume (host_no (shosts m2 sh)) vol_name) m2
                               in Some (0, scsi_device_put api sdev m3))) }
      | _ \<Rightarrow> Some (- EINVAL, m))"

subsection \<open>Removing a device\<close>

definition vsc_rmv_device ::
  "scsi_api \<Rightarrow> vsc_ctrl_info option \<Rightarrow> u32 \<Rightarrow> u32 \<Rightarrow> u32 \<Rightarrow> midlayer \<Rightarrow> int \<times> midlayer" where
  "vsc_rmv_device api h channel tid lun m =
     (case Option.bind h scsi_host of
        None \<Rightarrow> (- EINVAL, m)
      | Some sh \<Rightarrow>
          if host_self_blocked (shosts m sh) then (- EBUSY, m)
          else (case vsc_scsi_device_lookup api sh channel tid lun m of
                  (None, m1) \<Rightarrow> (- ENODEV, m1)
                | (Some sdev, m1) \<Rightarrow> (0, scsi_device_put api sdev (scsi_remove_device api sdev m1))))"

definition mark_deleted :: "scsi_device \<Rightarrow> scsi_device" where
  "mark_deleted s = s\<lparr>sdev_data := (sdev_data s)\<lparr>v_state := VSC_DISK_PREPARE_DELETE\<rparr>\<rparr>"

definition vsc_set_delete_by_vol_name ::
  "scsi_api \<Rightarrow> vsc_ctrl_info option \<Rightarrow> byte list option \<Rightarrow> midlayer \<Rightarrow> int \<times> midlayer" where
  "vsc_set_delete_by_vol_name api h vol_name m =
     (case (vol_name, Option.bind h scsi_host) of
        (Some vol_name, Some sh) \<Rightarrow>
          (case vsc_scsi_device_lookup_by_vol_name api sh vol_name m of
             (None, m1) \<Rightarrow> (- ENODEV, m1)
           | (Some sdev, m1) \<Rightarrow> (0, scsi_device_put api sdev (upd_sdev sdev mark_deleted m1)))
      | _ \<Rightarrow> (- EINVAL, m))"

subsection \<open>Listing the volumes\<close>

record vsc_ioctl_query_vol =
  q_host :: u32
  vol_num :: u32
  volumes :: "vsc_ioctl_disk_vol_name list"

fun query_vols :: "midlayer \<Rightarrow> nat list \<Rightarrow> vsc_ioctl_query_vol \<Rightarrow> vsc_ioctl_query_vol" where
  "query_vols m [] q = q"
| "query_vols m (sdev # ds) q =
     (if of_nat VSC_MAX_VOL_PER_HOST \<le> vol_num q then q
      else if sdev_state (sdevs m sdev) = SDEV_DEL then query_vols m ds q
      else query_vols m ds (q\<lparr>volumes := (volumes q)[unat (vol_num q) := sdev_data (sdevs m sdev)],
                              vol_num := vol_num q + 1\<rparr>))"

definition vsc_query_vol ::
  "vsc_ctrl_info \<Rightarrow> vsc_ioctl_query_vol \<Rightarrow> midlayer \<Rightarrow> vsc_ioctl_query_vol option" where
  "vsc_query_vol h q m =
     do { shost \<leftarrow> scsi_host h;
          Some (query_vols m (shost_devices (shosts m shost)) (q\<lparr>vol_num := 0\<rparr>)) }"

subsection \<open>State and timeouts of a device\<close>

text \<open>The transitions \<open>vsc_set_device_stat\<close> lets through.\<close>

fun stat_allowed :: "scsi_device_state \<Rightarrow> scsi_device_state \<Rightarrow> bool" where
  "stat_allowed SDEV_RUNNING oldstate =
     (oldstate \<in> {SDEV_CREATED, SDEV_OFFLINE, SDEV_QUIESCE, SDEV_BLOCK})"
| "stat_allowed SDEV_OFFLINE oldstate =
     (oldstate \<in> {SDEV_CREATED, SDEV_RUNNING, SDEV_QUIESCE, SDEV_BLOCK})"
| "stat_allowed SDEV_BLOCK oldstate = (oldstate \<in> {SDEV_RUNNING, SDEV_CREATED_BLOCK})"
| "stat_allowed _ oldstate = False"

definition vsc_set_device_stat ::
  "scsi_api \<Rightarrow> vsc_ctrl_info option \<Rightarrow> u32 \<Rightarrow> u32 \<Rightarrow> u32 \<Rightarrow> scsi_device_state \<Rightarrow> midlayer \<Rightarrow>
   (int \<times> midlayer) option" where
  "vsc_set_device_stat api h channel tid lun stat m =
     (case h of
        None \<Rightarrow> Some (- EINVAL, m)
      | Some h \<Rightarrow>
          do { sh \<leftarrow> scsi_host h;
               case vsc_scsi_device_lookup api sh channel tid lun m of
                 (None, m1) \<Rightarrow> Some (- ENODEV, m1)
               | (Some sdev, m1) \<Rightarrow>
                   (let oldstate = sdev_state (sdevs m1 sdev);
                        (retval, m2) = (if stat_allowed stat oldstate
                                        then scsi_device_set_state api sdev stat m1
                                        else (- EINVAL, m1))
                    in Some (retval, scsi_device_put api sdev m2)) })"

text \<open>\<open>wanted\<close> says whether the caller passed a place for the state; the second component is what is stored there.\<close>

definition vsc_get_device_stat ::
  "scsi_api \<Rightarrow> vsc_ctrl_info option \<Rightarrow> u32 \<Rightarrow> u32 \<Rightarrow> u32 \<Rightarrow> bool \<Rightarrow> midlayer \<Rightarrow>
   (int \<times> scsi_device_state option \<times> midlayer) option" where
  "vsc_get_device_stat api h channel tid lun wanted m =
     (case h of
        None \<Rightarrow> Some (- EINVAL, None, m)
      | Some h \<Rightarrow>
          if \<not> wanted then Some (- EINVAL, None, m)
          else do { sh \<leftarrow> scsi_host h;
                    case vsc_scsi_device_lookup api sh channel tid lun m of
                      (None, m1) \<Rightarrow> Some (- ENODEV, None, m1)
                    | (Some sdev, m1) \<Rightarrow>
                        Some (0, Some (sdev_state (sdevs m1 sdev)), scsi_device_put api sdev m1) })"

definition vsc_blk_queue_rq_timeout :: "nat \<Rightarrow> u32 \<Rightarrow> midlayer \<Rightarrow> midlayer" where
  "vsc_blk_queue_rq_timeout sdev timeout = upd_sdev sdev (\<lambda>s. s\<lparr>rq_timeout := timeout\<rparr>)"

definition VSC_RQ_MAX_TIMEOUT :: int where "VSC_RQ_MAX_TIMEOUT = 120"

definition vsc_set_device_rq_timeout ::
  "scsi_api \<Rightarrow> u32 \<Rightarrow> vsc_ctrl_info option \<Rightarrow> u32 \<Rightarrow> u32 \<Rightarrow> u32 \<Rightarrow> int \<Rightarrow> midlayer \<Rightarrow> (int \<times> midlayer) option"
  where
  "vsc_set_device_rq_timeout api hz h channel tid lun timeout m =
     (case h of
        None \<Rightarrow> Some (- EINVAL, m)
      | Some h \<Rightarrow>
          if timeout \<le> 0 \<or> VSC_RQ_MAX_TIMEOUT < timeout then Some (- EINVAL, m)
          else do { sh \<leftarrow> scsi_host h;
                    case vsc_scsi_device_lookup api sh channel tid lun m of
                      (None, m1) \<Rightarrow> Some (- ENODEV, m1)
                    | (Some sdev, m1) \<Rightarrow>
                        Some (0, scsi_device_put api sdev
                                   (vsc_blk_queue_rq_timeout sdev (word_of_int timeout * hz) m1)) })"

definition vsc_set_tg_abn_timeout :: "nat option \<Rightarrow> u32 \<Rightarrow> vsc_world \<Rightarrow> int \<times> vsc_world" where
  "vsc_set_tg_abn_timeout hp timeout w =
     (case hp of
        None \<Rightarrow> (- EINVAL, w)
      | Some a \<Rightarrow> (0, upd_host a ((hosts w a)\<lparr>target_abnormal_time := timeout\<rparr>) w))"

subsection \<open>References balance\<close>

text \<open>Every device of the host has its base reference.\<close>

definition refs_held :: "nat \<Rightarrow> midlayer \<Rightarrow> bool" where
  "refs_held sh m \<longleftrightarrow> (\<forall>d\<in>set (shost_devices (shosts m sh)). 1 \<le> sdev_refs (sdevs m d))"

definition take_ref :: "nat \<Rightarrow> midlayer \<Rightarrow> midlayer" where
  "take_ref d = upd_sdev d (\<lambda>s. s\<lparr>sdev_refs := sdev_refs s + 1\<rparr>)"

lemma upd_sdev_id [simp]: "upd_sdev d (\<lambda>s. s) m = m"
  by (simp add: upd_sdev_def)

lemma take_ref_fields [simp]:
  "sdev_state (sdevs (take_ref d m) x) = sdev_state (sdevs m x)"
  "sdev_data (sdevs (take_ref d m) x) = sdev_data (sdevs m x)" "shosts (take_ref d m) = shosts m"
  by (simp_all add: take_ref_def)

lemma device_get_found_eq:
  assumes "device_laws api"
  shows "device_get_found api found m =
     (case found of None \<Rightarrow> (None, m)
      | Some d \<Rightarrow> if fst (scsi_device_get api d m) = 0 then (Some d, take_ref d m) else (None, m))"
  using assms unfolding device_laws_def device_get_found_def take_ref_def
  by (cases found) (auto simp: split_beta)

lemmas lookup_defs = vsc_scsi_device_lookup_def vsc_scsi_device_lookup_by_vol_name_def

text \<open>Work on a device between taking and dropping a reference leaves the count as it was.\<close>

lemma put_take_ref:
  assumes "device_laws api" "1 \<le> sdev_refs (sdevs m d)"
    and "\<And>s n. f (s\<lparr>sdev_refs := n\<rparr>) = (f s)\<lparr>sdev_refs := n\<rparr>"
  shows "scsi_device_put api d (upd_sdev d f (take_ref d m)) = upd_sdev d f m"
proof -
  let ?s = "sdevs m d"
  have f: "f (?s\<lparr>sdev_refs := n\<rparr>) = (f ?s)\<lparr>sdev_refs := n\<rparr>" for n by (rule assms(3))
  have "sdev_refs (sdevs (upd_sdev d f (take_ref d m)) d) = sdev_refs ?s + 1"
    by (simp add: take_ref_def f)
  then have "scsi_device_put api d (upd_sdev d f (take_ref d m)) =
      upd_sdev d (\<lambda>s. s\<lparr>sdev_refs := sdev_refs s - 1\<rparr>) (upd_sdev d f (take_ref d m))"
    using assms(1,2) by (simp add: device_laws_def)
  also have "\<dots> = upd_sdev d f m"
    using f [of "sdev_refs ?s"] by (simp add: upd_sdev_def take_ref_def f)
  finally show ?thesis .
qed

lemma put_take_ref_id:
  "device_laws api \<Longrightarrow> 1 \<le> sdev_refs (sdevs m d) \<Longrightarrow> scsi_device_put api d (take_ref d m) = m"
  using put_take_ref [of api m d "\<lambda>s. s"] by simp

lemma lookup_mem:
  assumes "scsi_device_lookup sh c t l m = Some d"
  shows "d \<in> set (shost_devices (shosts m sh))" "sdev_state (sdevs m d) \<noteq> SDEV_DEL"
    "sdev_channel (sdevs m d) = c" "sdev_id (sdevs m d) = t" "sdev_lun (sdevs m d) = l"
  using assms by (auto simp: scsi_device_lookup_def find_Some_iff)

lemma lookup_name_mem:
  "scsi_device_lookup_by_vol_name sh name m = Some d \<Longrightarrow> d \<in> set (shost_devices (shosts m sh))"
  by (auto simp: scsi_device_lookup_by_vol_name_def find_Some_iff)

lemma find_cong_pred: "(\<And>x. x \<in> set xs \<Longrightarrow> P x = Q x) \<Longrightarrow> find P xs = find Q xs"
  by (induction xs) auto

lemma lookup_upd_sdev:
  assumes "sdev_channel (f (sdevs m d)) = sdev_channel (sdevs m d)" "sdev_id (f (sdevs m d)) = sdev_id (sdevs m d)"
    "sdev_lun (f (sdevs m d)) = sdev_lun (sdevs m d)"
    "(sdev_state (f (sdevs m d)) = SDEV_DEL) = (sdev_state (sdevs m d) = SDEV_DEL)"
  shows "scsi_device_lookup sh c t l (upd_sdev d f m) = scsi_device_lookup sh c t l m"
  unfolding scsi_device_lookup_def upd_sdev_simps
  by (rule find_cong_pred) (use assms in auto)

lemma strn_eq_refl [simp]: "strn_eq n xs xs"
proof (induction n arbitrary: xs)
  case (Suc n)
  then show ?case by (cases xs) simp_all
qed simp

subsection \<open>Properties\<close>

text \<open>
  (C34) Setting the state of a device: the outcome is decided by the table of allowed transitions.
  An unknown address is \<open>-ENODEV\<close>, a forbidden transition \<open>-EINVAL\<close>, and then nothing changes;
  otherwise the middle layer's answer is returned and on success exactly the state has changed,
  every reference count being what it was, and a later query reports the new state or that the device
  grants no reference.
\<close>

theorem set_device_stat_outcome:
  assumes laws: "device_laws api" and sh: "scsi_host h = Some sh" and refs: "refs_held sh m"
  shows "\<exists>r m'. vsc_set_device_stat api (Some h) c t l st m = Some (r, m') \<and>
    (case scsi_device_lookup sh c t l m of
       None \<Rightarrow> r = - ENODEV \<and> m' = m
     | Some d \<Rightarrow>
         if fst (scsi_device_get api d m) \<noteq> 0 then r = - ENODEV \<and> m' = m
         else if \<not> stat_allowed st (sdev_state (sdevs m d)) then r = - EINVAL \<and> m' = m
         else if r \<noteq> 0 then m' = m
         else m' = upd_sdev d (\<lambda>s. s\<lparr>sdev_state := st\<rparr>) m \<and>
           vsc_get_device_stat api (Some h) c t l True m' =
             (if fst (scsi_device_get api d m') = 0 then Some (0, Some st, m') else Some (- ENODEV, None, m')))"
proof (cases "\<exists>d. scsi_device_lookup sh c t l m = Some d \<and> fst (scsi_device_get api d m) = 0 \<and>
    stat_allowed st (sdev_state (sdevs m d))")
  case False
  then show ?thesis
    using refs put_take_ref_id [OF laws]
    by (cases "scsi_device_lookup sh c t l m")
      (auto simp: vsc_set_device_stat_def sh lookup_defs device_get_found_eq [OF laws] refs_held_def dest: lookup_mem(1))
next
  case True
  then obtain d where d: "scsi_device_lookup sh c t l m = Some d" "fst (scsi_device_get api d m) = 0"
    "stat_allowed st (sdev_state (sdevs m d))" by blast
  have ref: "1 \<le> sdev_refs (sdevs m d)" using refs lookup_mem(1) [OF d(1)] by (simp add: refs_held_def)
  obtain r m2 where set: "scsi_device_set_state api d st (take_ref d m) = (r, m2)"
    by (cases "scsi_device_set_state api d st (take_ref d m)")
  have run: "vsc_set_device_stat api (Some h) c t l st m = Some (r, scsi_device_put api d m2)"
    using d by (simp add: vsc_set_device_stat_def sh lookup_defs device_get_found_eq [OF laws] Let_def set)
  show ?thesis
  proof (cases "r = 0")
    case False
    then have "m2 = take_ref d m" using laws set unfolding device_laws_def by (metis fst_conv snd_conv)
    then show ?thesis using run d False put_take_ref_id [OF laws ref] by simp
  next
    case True
    let ?m' = "upd_sdev d (\<lambda>s. s\<lparr>sdev_state := st\<rparr>) m"
    have "m2 = upd_sdev d (\<lambda>s. s\<lparr>sdev_state := st\<rparr>) (take_ref d m)"
      using laws set True unfolding device_laws_def by (metis fst_conv snd_conv)
    then have put: "scsi_device_put api d m2 = ?m'"
      using put_take_ref [OF laws ref, of "\<lambda>s. s\<lparr>sdev_state := st\<rparr>"] by simp
    have "st \<noteq> SDEV_DEL" using d(3) by auto
    then have "scsi_device_lookup sh c t l ?m' = Some d"
      using lookup_upd_sdev [of "\<lambda>s. s\<lparr>sdev_state := st\<rparr>" m d sh c t l] d(1) lookup_mem(2) [OF d(1)] by simp
    then have "vsc_get_device_stat api (Some h) c t l True ?m' =
         (if fst (scsi_device_get api d ?m') = 0 then Some (0, Some st, ?m') else Some (- ENODEV, None, ?m'))"
      using put_take_ref_id [OF laws, of ?m' d] ref by (simp add: vsc_get_device_stat_def sh lookup_defs device_get_found_eq [OF laws])
    then show ?thesis using run d put True by simp
  qed
qed

text \<open>
  The laws of the calls that add, remove and resize. A successful add appends a new, running
  device at the address, with a cleared volume; removing one marks it deleted; dropping a reference
  neither revives nor moves a device, and can only shorten the list.
\<close>

definition add_laws :: "scsi_api \<Rightarrow> bool" where
  "add_laws api \<longleftrightarrow> (\<forall>sh c t l m m'. scsi_add_device api sh c t l m = (0, m') \<longrightarrow>
     (\<exists>d. d \<notin> set (shost_devices (shosts m sh)) \<and>
        shost_devices (shosts m' sh) = shost_devices (shosts m sh) @ [d] \<and>
        host_no (shosts m' sh) = host_no (shosts m sh) \<and>
        (\<forall>x. x \<noteq> d \<longrightarrow> sdevs m' x = sdevs m x) \<and>
        sdev_channel (sdevs m' d) = c \<and> sdev_id (sdevs m' d) = t \<and> sdev_lun (sdevs m' d) = l \<and>
        sdev_state (sdevs m' d) = SDEV_RUNNING \<and> 1 \<le> sdev_refs (sdevs m' d)))"

definition remove_laws :: "scsi_api \<Rightarrow> bool" where
  "remove_laws api \<longleftrightarrow>
     (\<forall>d m. sdev_state (sdevs (scsi_remove_device api d m) d) = SDEV_DEL \<and>
        shosts (scsi_remove_device api d m) = shosts m \<and>
        (\<forall>x. x \<noteq> d \<longrightarrow> sdevs (scsi_remove_device api d m) x = sdevs m x)) \<and>
     (\<forall>d m x. sdev_state (sdevs (scsi_device_put api d m) x) = sdev_state (sdevs m x) \<and>
        (\<forall>sh. set (shost_devices (shosts (scsi_device_put api d m) sh)) \<subseteq> set (shost_devices (shosts m sh))))"

lemma init_volume_refs: "init_volume n v (s\<lparr>sdev_refs := k\<rparr>) = (init_volume n v s)\<lparr>sdev_refs := k\<rparr>"
  by (simp add: init_volume_def)

lemma find_append: "find P (xs @ ys) = (case find P xs of None \<Rightarrow> find P ys | Some x \<Rightarrow> Some x)"
  by (induction xs) auto

text \<open>
  (C35) Adding a volume and finding it again: when \<open>vsc_add_device_by_vol_name\<close> returns 0 for an
  address that was free, there is one new device, found at that address; its volume carries the
  given name, the address, the middle layer's host number, the state running and the command
  counter 1, no other device has changed, and the name finds it unless an older device has the
  same name.
\<close>

theorem added_volume_is_found:
  assumes laws: "device_laws api" "add_laws api" and refs: "refs_held sh m"
    and sh: "scsi_host h = Some sh"
    and run: "vsc_add_device_by_vol_name api (Some h) c t l (Some name) m = Some (0, m')"
    and free: "scsi_device_lookup sh c t l m = None"
  shows "\<exists>d. d \<notin> set (shost_devices (shosts m sh)) \<and> scsi_device_lookup sh c t l m' = Some d \<and>
     sdev_data (sdevs m' d) = \<lparr>v_host = host_no (shosts m sh), v_channel = c, v_id = t, v_lun = l,
        v_state = VSC_DISK_RUNNING, v_vol_name = name, v_extend = 1\<rparr> \<and>
     sdev_refs (sdevs m' d) \<ge> 1 \<and> (\<forall>x. x \<noteq> d \<longrightarrow> sdevs m' x = sdevs m x) \<and>
     (scsi_device_lookup_by_vol_name sh name m = None \<longrightarrow>
        scsi_device_lookup_by_vol_name sh name m' = Some d)"
proof -
  have att: "h_file h \<noteq> None"
    using run by (auto simp: vsc_add_device_by_vol_name_def split: if_splits)
  obtain r m1 where add: "scsi_add_device api sh c t l m = (r, m1)"
    by (cases "scsi_add_device api sh c t l m")
  have probe: "probe_device api sh c t l m = (r, m1)"
    using free by (simp add: probe_device_def lookup_defs device_get_found_eq [OF laws(1)] add)
  have r: "r = 0"
    using run att by (auto simp: vsc_add_device_by_vol_name_def sh probe split: if_splits)
  let ?ds = "shost_devices (shosts m sh)"
  obtain d where d: "d \<notin> set ?ds" "shost_devices (shosts m1 sh) = ?ds @ [d]"
      "host_no (shosts m1 sh) = host_no (shosts m sh)" "\<forall>x. x \<noteq> d \<longrightarrow> sdevs m1 x = sdevs m x"
      "sdev_channel (sdevs m1 d) = c" "sdev_id (sdevs m1 d) = t" "sdev_lun (sdevs m1 d) = l"
      "sdev_state (sdevs m1 d) = SDEV_RUNNING" "1 \<le> sdev_refs (sdevs m1 d)"
    using laws(2) [unfolded add_laws_def, rule_format, of sh c t l m m1] add r by blast
  have old: "find P ?ds = None" if "find Q ?ds = None" "\<And>x. x \<in> set ?ds \<Longrightarrow> P x = Q x" for P Q
    using that by (simp add: find_None_iff)
  have same: "sdevs m1 x = sdevs m x" if "x \<in> set ?ds" for x using d(1,4) that by auto
  have lk1: "scsi_device_lookup sh c t l m1 = Some d"
    unfolding scsi_device_lookup_def d(2) find_append
    by (subst old [OF free [unfolded scsi_device_lookup_def]]) (simp_all add: same d(5-8))
  have "fst (scsi_device_get api d m1) = 0"
    using laws(1) d(8) unfolding device_laws_def by blast
  with lk1 have m': "m' = upd_sdev d (init_volume (host_no (shosts m sh)) name) m1"
    using run att r d(3,9) put_take_ref [OF laws(1), of m1 d "init_volume (host_no (shosts m sh)) name"]
    by (simp add: vsc_add_device_by_vol_name_def sh probe lookup_defs device_get_found_eq [OF laws(1)]
        init_volume_refs Let_def)
  have vol: "v_vol_name (sdev_data (sdevs m' d)) = name" by (simp add: m' init_volume_def)
  have name: "scsi_device_lookup_by_vol_name sh name m' = Some d"
    if "scsi_device_lookup_by_vol_name sh name m = None"
  proof -
    have "find (\<lambda>x. strn_eq VSC_VOL_NAME_LEN (v_vol_name (sdev_data (sdevs m' x))) name) ?ds = None"
      using that unfolding scsi_device_lookup_by_vol_name_def
      by (rule old) (use d(1,4) in \<open>auto simp: m'\<close>)
    then show ?thesis
      using vol by (simp add: scsi_device_lookup_by_vol_name_def find_append m' d(2))
  qed
  have "scsi_device_lookup sh c t l m' = Some d"
    using lk1 unfolding m'
    by (subst lookup_upd_sdev) (simp_all add: init_volume_def)
  then show ?thesis
    using d name by (intro exI [of _ d]) (simp add: m' init_volume_def)
qed

text \<open>
  A volume marked for deletion takes no more commands: after \<open>vsc_set_delete_by_vol_name\<close>
  has returned 0, the first device of that name is marked, nothing else in the middle layer has
  changed, and every command queued for it is completed at once with \<open>DID_NO_CONNECT\<close>, without
  reaching a host.
\<close>

lemma deleted_volume_refuses:
  assumes laws: "device_laws api" and refs: "refs_held sh (mid w)" and sh: "scsi_host h = Some sh"
    and run: "vsc_set_delete_by_vol_name api (Some h) (Some name) (mid w) = (0, m')"
  shows "\<exists>d. scsi_device_lookup_by_vol_name sh name (mid w) = Some d \<and> m' = upd_sdev d mark_deleted (mid w) \<and>
     (\<forall>sc. sc_device (scmds (mid w) sc) = d \<longrightarrow>
        vsc_scsi_queue_command sc (w\<lparr>mid := m'\<rparr>) =
          Some (0, w\<lparr>mid := complete (push_bit 16 DID_NO_CONNECT) sc m'\<rparr>))"
proof -
  obtain d where d: "scsi_device_lookup_by_vol_name sh name (mid w) = Some d"
    "fst (scsi_device_get api d (mid w)) = 0"
    using run
    by (auto simp: vsc_set_delete_by_vol_name_def sh lookup_defs device_get_found_eq [OF laws]
        split: option.splits if_splits)
  have "1 \<le> sdev_refs (sdevs (mid w) d)"
    using refs lookup_name_mem [OF d(1)] by (simp add: refs_held_def)
  then have m': "m' = upd_sdev d mark_deleted (mid w)"
    using run d put_take_ref [OF laws, of "mid w" d mark_deleted]
    by (simp add: vsc_set_delete_by_vol_name_def sh lookup_defs device_get_found_eq [OF laws] mark_deleted_def)
  have "vsc_scsi_queue_command sc (w\<lparr>mid := m'\<rparr>) =
      Some (0, w\<lparr>mid := complete (push_bit 16 DID_NO_CONNECT) sc m'\<rparr>)" if "sc_device (scmds (mid w) sc) = d" for sc
    using that by (simp add: vsc_scsi_queue_command_def m' mark_deleted_def complete_def Let_def)
  with d(1) m' show ?thesis by blast
qed

text \<open>
  Removing a device: while the host is blocked the call is refused with \<open>-EBUSY\<close> and nothing
  changes. Otherwise it returns 0 exactly when the address was found with a reference, and the
  address does not lead to that device again.
\<close>

lemma removed_device_is_gone:
  assumes laws: "device_laws api" "remove_laws api" and sh: "scsi_host h = Some sh"
    and run: "vsc_rmv_device api (Some h) c t l m = (r, m')"
  shows "if host_self_blocked (shosts m sh) then r = - EBUSY \<and> m' = m
     else case scsi_device_lookup sh c t l m of
        None \<Rightarrow> r = - ENODEV \<and> m' = m
      | Some d \<Rightarrow>
          if fst (scsi_device_get api d m) \<noteq> 0 then r = - ENODEV \<and> m' = m
          else r = 0 \<and> sdev_state (sdevs m' d) = SDEV_DEL \<and> scsi_device_lookup sh c t l m' \<noteq> Some d \<and>
            (\<forall>x. x \<noteq> d \<longrightarrow> sdev_state (sdevs m' x) = sdev_state (sdevs m x))"
proof (cases "\<not> host_self_blocked (shosts m sh) \<and>
    (\<exists>d. scsi_device_lookup sh c t l m = Some d \<and> fst (scsi_device_get api d m) = 0)")
  case False
  then show ?thesis
    using run by (auto simp: vsc_rmv_device_def sh lookup_defs device_get_found_eq [OF laws(1)]
        split: option.splits if_splits)
next
  case True
  then obtain d where d: "scsi_device_lookup sh c t l m = Some d" "fst (scsi_device_get api d m) = 0"
    "\<not> host_self_blocked (shosts m sh)" by blast
  have m': "r = 0" "m' = scsi_device_put api d (scsi_remove_device api d (take_ref d m))"
    using run d by (simp_all add: vsc_rmv_device_def sh lookup_defs device_get_found_eq [OF laws(1)])
  have "sdev_state (sdevs m' d) = SDEV_DEL" "\<forall>x. x \<noteq> d \<longrightarrow> sdev_state (sdevs m' x) = sdev_state (sdevs m x)"
    using laws(2) by (simp_all add: remove_laws_def m')
  then show ?thesis
    using d m'(1) lookup_mem(2) [of sh c t l m' d] by auto
qed

text \<open>
  Listing the volumes of a host: the reply holds the volumes of the devices that are not
  deleted, in the order of the list and at most 128, their number, and beyond them what the
  caller's buffer held.
\<close>

lemma query_lists_volumes:
  fixes m :: midlayer
  assumes "scsi_host h = Some sh" "length (volumes q) = VSC_MAX_VOL_PER_HOST"
  defines "vs \<equiv> take VSC_MAX_VOL_PER_HOST (map (\<lambda>d. sdev_data (sdevs m d))
      (filter (\<lambda>d. sdev_state (sdevs m d) \<noteq> SDEV_DEL) (shost_devices (shosts m sh))))"
  shows "vsc_query_vol h q m =
     Some (q\<lparr>volumes := vs @ drop (length vs) (volumes q), vol_num := of_nat (length vs)\<rparr>)"
proof -
  have gen: "query_vols m ds (q\<lparr>volumes := ws @ drop (length ws) (volumes q), vol_num := of_nat (length ws)\<rparr>) =
     (let vs = ws @ take (VSC_MAX_VOL_PER_HOST - length ws)
        (map (\<lambda>d. sdev_data (sdevs m d)) (filter (\<lambda>d. sdev_state (sdevs m d) \<noteq> SDEV_DEL) ds))
      in q\<lparr>volumes := vs @ drop (length vs) (volumes q), vol_num := of_nat (length vs)\<rparr>)"
    if "length ws \<le> VSC_MAX_VOL_PER_HOST" for ds ws
    using that
  proof (induction ds arbitrary: ws)
    case Nil
    then show ?case by simp
  next
    case (Cons d ds)
    let ?n = "length ws" and ?v = "sdev_data (sdevs m d)"
    have n: "unat (of_nat ?n :: u32) = ?n" "(of_nat VSC_MAX_VOL_PER_HOST \<le> (of_nat ?n :: u32)) = (?n = VSC_MAX_VOL_PER_HOST)"
      using Cons.prems unat_of_nat_u32 [of ?n] by (auto simp: word_le_nat_alt VSC_MAX_VOL_PER_HOST_def)
    have upd: "(ws @ drop ?n (volumes q))[?n := ?v] = (ws @ [?v]) @ drop (length (ws @ [?v])) (volumes q)"
      if "?n < VSC_MAX_VOL_PER_HOST"
      using that assms(2) by (simp add: list_update_append Cons_nth_drop_Suc [symmetric])
    show ?case
    proof (cases "?n < VSC_MAX_VOL_PER_HOST \<and> sdev_state (sdevs m d) \<noteq> SDEV_DEL")
      case True
      then have k: "VSC_MAX_VOL_PER_HOST - ?n = Suc (VSC_MAX_VOL_PER_HOST - Suc ?n)"
        by (simp add: Suc_diff_Suc)
      show ?thesis
        using True Cons.IH [of "ws @ [?v]"] n upd by (simp add: k algebra_simps)
    next
      case False
      then show ?thesis using Cons n by auto
    qed
  qed
  from gen [of "[]" "shost_devices (shosts m sh)"] show ?thesis
    by (simp add: vsc_query_vol_def assms(1) vs_def Let_def)
qed

text \<open>
  The geometry reported for a disk: at most 255 heads and 63 sectors, and, for capacities below
  2 ^ 31 cylinders of the large geometry, the largest whole number of cylinders that fits.
  Beyond that the 32-bit \<open>params[2]\<close> wraps.
\<close>

lemma bios_geometry_fits:
  "\<exists>h s c. vsch_bios_param capacity = Some (0, h, s, c) \<and> 0 < h \<and> h \<le> 255 \<and> 0 < s \<and> s \<le> 63 \<and>
     (uint capacity < 2 ^ 31 * 16065 \<longrightarrow>
        0 \<le> c \<and> h * s * c \<le> uint capacity \<and> uint capacity < h * s * (c + 1)) \<and>
     c = c_int (uint capacity div (h * s))"
proof -
  let ?c = "uint capacity"
  have div: "sector_div capacity 2048 = Some (capacity div 2048)"
    "sector_div capacity 16065 = Some (capacity div 16065)"
    by (simp_all add: sector_div_def)
  have u: "uint (capacity div 2048) = ?c div 2048" "uint (capacity div 16065) = ?c div 16065"
    by (simp_all add: uint_div)
  have small: "c_int (?c div n) = ?c div n" if "?c < 2 ^ 31 * n" "0 < n" for n
  proof (rule c_int_small)
    have "0 \<le> ?c div n" using that(2) by (simp add: pos_imp_zdiv_nonneg_iff)
    then show "- (2 ^ 31) \<le> ?c div n" by simp
    have "n * (?c div n) \<le> ?c" using that(2) by (simp add: minus_mod_eq_mult_div [symmetric])
    then have "n * (?c div n) < n * 2 ^ 31" using that(1) by simp
    then show "?c div n < 2 ^ 31" using that(2) by simp
  qed
  have fit: "0 \<le> ?c div n \<and> n * (?c div n) \<le> ?c \<and> ?c < n * (?c div n + 1)" if "0 < n" for n
  proof -
    have "n * (?c div n) + ?c mod n = ?c" "0 \<le> ?c mod n" "?c mod n < n" "0 \<le> ?c div n"
      using that by (simp_all add: pos_imp_zdiv_nonneg_iff)
    moreover have "n * (?c div n + 1) = n * (?c div n) + n" by (simp add: algebra_simps)
    ultimately show ?thesis by linarith
  qed
  show ?thesis
  proof (cases "0x200000 \<le> capacity")
    case True
    then have "vsch_bios_param capacity = Some (0, 255, 63, c_int (?c div 16065))"
      by (simp add: vsch_bios_param_def div u)
    then show ?thesis
      using small [of 16065] fit [of 16065] by (intro exI [of _ 255] exI [of _ 63] exI [of _ "c_int (?c div 16065)"]) auto
  next
    case False
    then have lt: "?c < 0x200000" by (simp add: word_le_def not_le)
    from False have "vsch_bios_param capacity = Some (0, 64, 32, c_int (?c div 2048))"
      by (simp add: vsch_bios_param_def div u)
    then show ?thesis
      using small [of 2048] fit [of 2048] lt by (intro exI [of _ 64] exI [of _ 32] exI [of _ "c_int (?c div 2048)"]) auto
  qed
qed

lemma bios_geometry_fits_witness:
  "\<exists>h s c. vsch_bios_param 0x400000 = Some (0, h, s, c) \<and> h * s * c \<le> 0x400000 \<and> 0x400000 < h * s * (c + 1)"
proof -
  have "(0x400000 :: int) < 2 ^ 31 * 16065" by simp
  with bios_geometry_fits [of "0x400000"] show ?thesis by (elim exE conjE) (intro exI conjI, auto)
qed

text \<open>
  The queue depth: with the default reason the middle layer is asked for the wanted depth, limited
  to the number of command buffers of the host and to at least 1.
\<close>

lemma queue_depth_limited:
  assumes "\<And>d n m. queue_depth (sdevs (scsi_adjust_queue_depth api d n m) d) = n"
    and "vsc_change_queue_depth api d n 0 w = (r, w')"
    and "nr = int (nr_cmds (hosts w (hostdata (shosts (mid w) (sdev_host (sdevs (mid w) d))))))" "1 \<le> nr"
  shows "1 \<le> r \<and> r \<le> nr \<and> (1 \<le> n \<and> n \<le> nr \<longrightarrow> r = n)"
  using assms by (auto simp: vsc_change_queue_depth_def Let_def)

subsection \<open>At concrete states\<close>

text \<open>The example middle layer, which now probes every address successfully.\<close>

definition example_new_dev :: "u32 \<Rightarrow> u32 \<Rightarrow> u32 \<Rightarrow> scsi_device" where
  "example_new_dev c t l = example_sdev\<lparr>sdev_channel := c, sdev_id := t, sdev_lun := l\<rparr>"

definition example_dev_api :: scsi_api where
  "example_dev_api = example_api\<lparr>scsi_add_device := (\<lambda>sh c t l m.
     let d = Suc (Max (set (0 # shost_devices (shosts m sh)))) in
     (0, m\<lparr>shosts := (shosts m)(sh := (shosts m sh)\<lparr>shost_devices := shost_devices (shosts m sh) @ [d]\<rparr>),
          sdevs := (sdevs m)(d := example_new_dev c t l)\<rparr>))\<rparr>"

lemma fresh_device: "Suc (Max (set (0 # xs))) \<notin> set xs"
proof
  assume "Suc (Max (set (0 # xs))) \<in> set xs"
  then have "Suc (Max (set (0 # xs))) \<le> Max (set (0 # xs))" by (intro Max_ge) auto
  then show False by simp
qed

lemma example_dev_api_laws:
  "device_laws example_dev_api" "add_laws example_dev_api" "remove_laws example_dev_api"
proof -
  show "device_laws example_dev_api"
    using example_api_laws by (simp add: device_laws_def example_dev_api_def)
  show "remove_laws example_dev_api"
    by (auto simp: remove_laws_def example_dev_api_def example_api_def)
  show "add_laws example_dev_api"
    unfolding add_laws_def
  proof (intro allI impI)
    fix sh c t l m m'
    assume "scsi_add_device example_dev_api sh c t l m = (0, m')"
    then have m': "m' = m\<lparr>shosts := (shosts m)(sh := (shosts m sh)\<lparr>shost_devices := shost_devices (shosts m sh) @
        [Suc (Max (set (0 # shost_devices (shosts m sh))))]\<rparr>),
      sdevs := (sdevs m)(Suc (Max (set (0 # shost_devices (shosts m sh)))) := example_new_dev c t l)\<rparr>"
      by (simp add: example_dev_api_def Let_def del: list.set)
    show "\<exists>d. d \<notin> set (shost_devices (shosts m sh)) \<and>
        shost_devices (shosts m' sh) = shost_devices (shosts m sh) @ [d] \<and>
        host_no (shosts m' sh) = host_no (shosts m sh) \<and> (\<forall>x. x \<noteq> d \<longrightarrow> sdevs m' x = sdevs m x) \<and>
        sdev_channel (sdevs m' d) = c \<and> sdev_id (sdevs m' d) = t \<and> sdev_lun (sdevs m' d) = l \<and>
        sdev_state (sdevs m' d) = SDEV_RUNNING \<and> 1 \<le> sdev_refs (sdevs m' d)"
      using fresh_device [of "shost_devices (shosts m sh)"]
      by (intro exI [of _ "Suc (Max (set (0 # shost_devices (shosts m sh))))"])
        (simp add: m' example_new_dev_def example_defs del: list.set)
  qed
qed

lemma example_device_facts [simp]:
  "refs_held 0 (mid example_world)" "h_file example_host = Some 7"
  "sdev_state example_sdev = SDEV_RUNNING" "sdev_channel example_sdev = 0"
  "sdev_id example_sdev = 3" "sdev_lun example_sdev = 1" "\<not> host_self_blocked example_shost"
  "v_vol_name (sdev_data example_sdev) = replicate 96 0"
  by (simp_all add: refs_held_def) (simp_all add: example_defs)

lemma example_lookup:
  "scsi_device_lookup 0 0 3 1 (mid example_world) = Some 0"
  "scsi_device_lookup 0 0 4 1 (mid example_world) = None"
  "scsi_device_lookup_by_vol_name 0 (replicate 96 0) (mid example_world) = Some 0"
  by (simp_all add: scsi_device_lookup_def scsi_device_lookup_by_vol_name_def)

lemma example_get [simp]: "fst (scsi_device_get example_dev_api d m) = 0"
  by (simp add: example_dev_api_def example_api_def)

theorem set_device_stat_outcome_witness:
  "\<exists>m'. vsc_set_device_stat example_dev_api (Some example_host) 0 3 1 SDEV_OFFLINE (mid example_world) = Some (0, m') \<and>
     vsc_get_device_stat example_dev_api (Some example_host) 0 3 1 True m' = Some (0, Some SDEV_OFFLINE, m')"
proof -
  let ?run = "vsc_set_device_stat example_dev_api (Some example_host) 0 3 1 SDEV_OFFLINE (mid example_world)"
  obtain r m' where r: "?run = Some (r, m')" "if r \<noteq> 0 then m' = mid example_world
      else vsc_get_device_stat example_dev_api (Some example_host) 0 3 1 True m' = Some (0, Some SDEV_OFFLINE, m')"
    using set_device_stat_outcome [OF example_dev_api_laws(1), of example_host 0 "mid example_world" 0 3 1 SDEV_OFFLINE]
      example_lookup(1) by (auto split: if_splits)
  have "map_option fst ?run = Some 0"
    by (simp add: vsc_set_device_stat_def vsc_scsi_device_lookup_def device_get_found_def example_lookup(1) Let_def)
      (simp add: example_dev_api_def example_api_def)
  with r show ?thesis by auto
qed

theorem added_volume_is_found_witness:
  "\<exists>m' d. vsc_add_device_by_vol_name example_dev_api (Some example_host) 0 4 1 (Some (replicate 96 65))
       (mid example_world) = Some (0, m') \<and> scsi_device_lookup 0 0 4 1 m' = Some d \<and>
     v_extend (sdev_data (sdevs m' d)) = 1"
proof -
  let ?run = "vsc_add_device_by_vol_name example_dev_api (Some example_host) 0 4 1 (Some (replicate 96 65)) (mid example_world)"
  have "\<exists>m'. ?run = Some (0, m')"
    by (simp add: vsc_add_device_by_vol_name_def probe_device_def vsc_scsi_device_lookup_def device_get_found_def
        example_lookup(2) Let_def)
      (simp add: example_dev_api_def example_api_def vsc_scsi_device_lookup_def device_get_found_def
        scsi_device_lookup_def example_new_dev_def)
  then obtain m' where m': "?run = Some (0, m')" by blast
  from added_volume_is_found [OF example_dev_api_laws(1,2) example_device_facts(1) _ m'] example_lookup(2)
  show ?thesis using m' by auto
qed

lemma deleted_volume_refuses_witness:
  "\<exists>m'. vsc_set_delete_by_vol_name example_dev_api (Some example_host) (Some (replicate 96 0)) (mid example_world) =
       (0, m') \<and> vsc_scsi_queue_command 5 (example_world\<lparr>mid := m'\<rparr>) =
         Some (0, example_world\<lparr>mid := complete (push_bit 16 DID_NO_CONNECT) 5 m'\<rparr>)"
proof -
  have "fst (vsc_set_delete_by_vol_name example_dev_api (Some example_host) (Some (replicate 96 0)) (mid example_world)) = 0"
    by (simp add: vsc_set_delete_by_vol_name_def vsc_scsi_device_lookup_by_vol_name_def device_get_found_def
        example_lookup(3) split_beta)
  then obtain m' where m': "vsc_set_delete_by_vol_name example_dev_api (Some example_host)
      (Some (replicate 96 0)) (mid example_world) = (0, m')" by (metis prod.collapse)
  from deleted_volume_refuses [OF example_dev_api_laws(1) _ _ m', of 0] example_lookup(3) m'
  show ?thesis by auto
qed

lemma removed_device_is_gone_witness:
  "\<exists>m'. vsc_rmv_device example_dev_api (Some example_host) 0 3 1 (mid example_world) = (0, m') \<and>
     sdev_state (sdevs m' 0) = SDEV_DEL"
proof -
  obtain r m' where r: "vsc_rmv_device example_dev_api (Some example_host) 0 3 1 (mid example_world) = (r, m')"
    by (cases "vsc_rmv_device example_dev_api (Some example_host) 0 3 1 (mid example_world)")
  from removed_device_is_gone [OF example_dev_api_laws(1,3) _ r, of 0] r show ?thesis
    by (auto simp: example_lookup(1))
qed

lemma query_lists_volumes_witness:
  "\<exists>q'. vsc_query_vol example_host \<lparr>q_host = 0, vol_num = 9, volumes = replicate VSC_MAX_VOL_PER_HOST (sdev_data example_sdev)\<rparr>
       (mid example_world) = Some q' \<and> vol_num q' = 1 \<and> volumes q' ! 0 = sdev_data example_sdev"
  using query_lists_volumes [of example_host 0 "\<lparr>q_host = 0, vol_num = 9, volumes = replicate VSC_MAX_VOL_PER_HOST (sdev_data example_sdev)\<rparr>"
      "mid example_world"] by (simp add: VSC_MAX_VOL_PER_HOST_def)

end
