(* ===== verification/Vsc_Registry.thy ===== *)
theory Vsc_Registry
  imports Vsc_Device
begin

text \<open>
  The hosts of the driver: the checks of a registration, the block of a host and its pools
  (\<open>vsc_ctrl_init\<close>, \<open>vsc_ctlr_info_destroy\<close>), the list of the vbs and their hosts
  (\<open>vsc_add_host_to_mgr\<close>, \<open>vsc_get_ctlr_by_host\<close>), registering a host and removing one or all.
  The block of a host lives in the memory of its \<open>Scsi_Host\<close>: \<open>live\<close> lists the blocks that
  exist, and reading through a pointer to another one is undefined behaviour, hence \<open>None\<close>.
  Everything the kernel decides is in the record \<open>reg_env\<close>, an argument of the operations.
\<close>

subsection \<open>Host numbers\<close>

definition vsc_get_vbs_id_by_host_id :: "u32 \<Rightarrow> u32" where
  "vsc_get_vbs_id_by_host_id host_id = drop_bit 8 host_id AND 0xFFFF"

definition vsc_get_host_index_in_vbs :: "u32 \<Rightarrow> u32" where
  "vsc_get_host_index_in_vbs host_id = host_id AND 0xFF"

subsection \<open>The checks of a registration\<close>

record vsc_ioctl_cmd_add_host =
  ah_host :: u32
  ah_sys_host_id :: u32
  ah_max_channel :: u32
  ah_max_lun :: u32
  ah_max_id :: u32
  ah_max_cmd_len :: u32
  ah_max_nr_cmds :: u32
  ah_cmd_per_lun :: u32
  ah_sg_count :: u32

definition VSC_DEFAULT_MAX_CMD_NUMBER :: u32 where "VSC_DEFAULT_MAX_CMD_NUMBER = 2048 * 2048"
definition VSC_MAX_SG_COUNT :: u32 where "VSC_MAX_SG_COUNT = 8192"
definition VSC_MAX_CMD_NUM :: int where "VSC_MAX_CMD_NUM = 256 * 32"
definition VSC_DEFAULT_EVENT_NUMBER :: nat where "VSC_DEFAULT_EVENT_NUMBER = 8"

definition check_host_info :: "vsc_ioctl_cmd_add_host option \<Rightarrow> int" where
  "check_host_info info =
     (case info of
        None \<Rightarrow> - EFAULT
      | Some i \<Rightarrow>
          if VSC_MAX_CDB_LEN < ah_max_cmd_len i \<or> ah_max_cmd_len i \<le> 0
             \<or> VSC_MAX_SG_COUNT < ah_sg_count i \<or> ah_sg_count i \<le> 0
             \<or> VSC_DEFAULT_MAX_CMD_NUMBER < ah_max_nr_cmds i \<or> ah_max_nr_cmds i \<le> 0
             \<or> VSC_DEFAULT_LUN_CMD_NUMBER < ah_cmd_per_lun i \<or> ah_cmd_per_lun i \<le> 0
             \<or> ah_max_nr_cmds i < ah_cmd_per_lun i
             \<or> ah_max_channel i \<le> 0 \<or> ah_max_id i \<le> 0 \<or> ah_max_lun i \<le> 0
          then - EINVAL else 0)"

subsection \<open>The pools of a host\<close>

text \<open>
  The objects a host's block points to. \<open>held\<close> are the pointers that are not \<open>NULL\<close>; the block
  starts with none.
\<close>

datatype kobj = Cmd_bits | Cmd_tbl | Cmd_buf nat | Event_bits | Event_tbl | Event_buf nat

text \<open>Allocate the objects in order; stop at the first failure.\<close>

fun alloc_objs :: "(kobj \<Rightarrow> bool) \<Rightarrow> kobj list \<Rightarrow> kobj list \<Rightarrow> bool \<times> kobj list" where
  "alloc_objs ok [] held = (True, held)"
| "alloc_objs ok (x # xs) held = (if ok x then alloc_objs ok xs (held @ [x]) else (False, held))"

text \<open>The calls of \<open>kfree\<close>, in order.\<close>

definition vsc_ctlr_info_destroy :: "nat \<Rightarrow> nat \<Rightarrow> kobj list \<Rightarrow> kobj list" where
  "vsc_ctlr_info_destroy nev ncm held =
     (if Event_tbl \<in> set held
      then filter (\<lambda>x. x \<in> set held) (map Event_buf [0..<nev]) @ [Event_tbl] else []) @
     (if Event_bits \<in> set held then [Event_bits] else []) @
     (if Cmd_tbl \<in> set held
      then filter (\<lambda>x. x \<in> set held) (map Cmd_buf [0..<ncm]) @ [Cmd_tbl] else []) @
     (if Cmd_bits \<in> set held then [Cmd_bits] else [])"

definition pool_objs :: "nat \<Rightarrow> nat \<Rightarrow> kobj list" where
  "pool_objs nev ncm = [Cmd_bits, Cmd_tbl] @ map Cmd_buf [0..<ncm] @ [Event_bits, Event_tbl] @
     map Event_buf [0..<nev]"

text \<open>
  \<open>kmalloc_ok\<close> says which allocations succeed, \<open>cmd_mem\<close> and \<open>event_mem\<close> what the fresh buffers
  hold (they are not cleared). The result is the return value, the block, the objects it holds
  and what has been freed.
\<close>

definition vsc_ctrl_init ::
  "(kobj \<Rightarrow> bool) \<Rightarrow> (nat \<Rightarrow> vsc_cmnd_list) \<Rightarrow> (nat \<Rightarrow> vsc_event_list) \<Rightarrow> nat option \<Rightarrow> int \<Rightarrow> u32 \<Rightarrow>
   int \<times> vsc_ctrl_info \<times> kobj list \<times> kobj list" where
  "vsc_ctrl_init kmalloc_ok cmd_mem event_mem sh n vbs_hid =
     (case sh of
        None \<Rightarrow> (- EINVAL, zero_ctrl, [], [])
      | Some shp \<Rightarrow>
          (let ncm = nat (if n \<noteq> 0 then n else VSC_MAX_CMD_NUM);
               nev = VSC_DEFAULT_EVENT_NUMBER;
               h = zero_ctrl\<lparr>scsi_host := Some shp, vbs_host_id := vbs_hid,
                             nr_cmds := ncm, nr_events := nev\<rparr>;
               (ok, held) = alloc_objs kmalloc_ok (pool_objs nev ncm) []
           in if ok then
                (0, h\<lparr>cmd_pool_bits := replicate ((ncm + BITS_PER_LONG - 1) div BITS_PER_LONG) 0,
                      cmd_pool_tbl := map cmd_mem [0..<ncm],
                      event_pool_bits := replicate ((nev + BITS_PER_LONG - 1) div BITS_PER_LONG) 0,
                      event_pool_tbl := map event_mem [0..<nev]\<rparr>, held, [])
              else (- ENOMEM, h, held, vsc_ctlr_info_destroy nev ncm held)))"

subsection \<open>The hosts of the vbs\<close>

definition find_mgr :: "u32 \<Rightarrow> vsc_world \<Rightarrow> nat option" where
  "find_mgr vid w = find (\<lambda>mp. vbs_id (mgrs w mp) = vid) (g_host_mgr_list w)"

definition vsc_get_ctlr_by_host :: "u32 \<Rightarrow> vsc_world \<Rightarrow> nat option" where
  "vsc_get_ctlr_by_host hno w =
     (let vid = vsc_get_vbs_id_by_host_id hno; host_index = vsc_get_host_index_in_vbs hno in
      if of_nat MAX_HOST_NR_PER_VBS \<le> host_index then None
      else case find_mgr vid w of
             None \<Rightarrow> None
           | Some mp \<Rightarrow> host_list (mgrs w mp) ! unat host_index)"

definition zero_mgr :: vsc_host_mgr where
  "zero_mgr = \<lparr>vbs_id = 0, host_count = 0, host_list = replicate MAX_HOST_NR_PER_VBS None\<rparr>"

definition enter_host :: "nat \<Rightarrow> nat \<Rightarrow> vsc_host_mgr \<Rightarrow> vsc_host_mgr" where
  "enter_host a i mgr = mgr\<lparr>host_list := (host_list mgr)[i := Some a], host_count := host_count mgr + 1\<rparr>"

text \<open>\<open>new_mgr\<close> is what \<open>kmalloc\<close> returns for a new \<open>vsc_host_mgr\<close>.\<close>

definition vsc_add_host_to_mgr :: "nat option \<Rightarrow> nat \<Rightarrow> u32 \<Rightarrow> vsc_world \<Rightarrow> int \<times> vsc_world" where
  "vsc_add_host_to_mgr new_mgr a host_id w =
     (let vid = vsc_get_vbs_id_by_host_id host_id; host_index = vsc_get_host_index_in_vbs host_id in
      if of_nat MAX_HOST_NR_PER_VBS \<le> host_index then (FAILED, w)
      else case find_mgr vid w of
        Some mp \<Rightarrow>
          if of_nat MAX_HOST_NR_PER_VBS \<le> host_count (mgrs w mp) then (FAILED, w)
          else (0, (upd_host a ((hosts w a)\<lparr>silbing_hosts := Some mp\<rparr>) w)
                     \<lparr>mgrs := (mgrs w)(mp := enter_host a (unat host_index) (mgrs w mp))\<rparr>)
      | None \<Rightarrow>
          (case new_mgr of
             None \<Rightarrow> (FAILED, w)
           | Some mp \<Rightarrow>
               (0, (upd_host a ((hosts w a)\<lparr>silbing_hosts := Some mp\<rparr>) w)
                     \<lparr>mgrs := (mgrs w)(mp := enter_host a (unat host_index) (zero_mgr\<lparr>vbs_id := vid\<rparr>)),
                      g_host_mgr_list := g_host_mgr_list w @ [mp]\<rparr>)))"

subsection \<open>Registering a host\<close>

text \<open>\<open>live\<close>: the host blocks that exist; \<open>ml_hosts\<close>: the hosts the middle layer knows; \<open>procs\<close>: the proc files, by number.\<close>

record vsc_sys =
  sys :: vsc_world
  live :: "nat list"
  ml_hosts :: "nat list"
  procs :: "u32 list"

text \<open>
  What the kernel answers: whether \<open>scsi_host_get\<close> grants a reference, the addresses of a new
  \<open>Scsi_Host\<close> and of the block in it with its number, the outcome of the allocations and the contents of
  the buffers, the result of \<open>scsi_add_host\<close>, whether the proc file is created, and the address of a
  new \<open>vsc_host_mgr\<close>.
\<close>

record reg_env =
  re_host_get :: "nat \<Rightarrow> bool"
  re_alloc :: "(nat \<times> nat \<times> u32) option"
  re_kmalloc :: "kobj \<Rightarrow> bool"
  re_cmd_mem :: "nat \<Rightarrow> vsc_cmnd_list"
  re_event_mem :: "nat \<Rightarrow> vsc_event_list"
  re_add_host :: int
  re_proc :: bool
  re_mgr :: "nat option"

text \<open>The \<open>Scsi_Host\<close> with a reference, or \<open>NULL\<close>; the block the list names must exist.\<close>

definition vsc_scsi_host_lookup :: "reg_env \<Rightarrow> u32 \<Rightarrow> vsc_sys \<Rightarrow> nat option option" where
  "vsc_scsi_host_lookup env hno s =
     (case vsc_get_ctlr_by_host hno (sys s) of
        None \<Rightarrow> Some None
      | Some a \<Rightarrow>
          if a \<notin> set (live s) then None
          else Some (case scsi_host (hosts (sys s) a) of
                       None \<Rightarrow> None
                     | Some shp \<Rightarrow> if re_host_get env shp then Some shp else None))"

definition new_shost :: "vsc_ioctl_cmd_add_host \<Rightarrow> nat \<Rightarrow> u32 \<Rightarrow> nat \<Rightarrow> Scsi_Host" where
  "new_shost i a hno ncm = \<lparr>host_no = hno, host_self_blocked = False, host_lock_held = False,
     shost_devices = [], hostdata = a, max_channel = ah_max_channel i, max_id = ah_max_id i,
     max_lun = ah_max_lun i, max_cmd_len = ah_max_cmd_len i, can_queue = int ncm,
     cmd_per_lun = ah_cmd_per_lun i, sg_tablesize = ah_sg_count i\<rparr>"

definition put_shost :: "nat \<Rightarrow> Scsi_Host \<Rightarrow> vsc_world \<Rightarrow> vsc_world" where
  "put_shost shp sh w = w\<lparr>mid := (mid w)\<lparr>shosts := (shosts (mid w))(shp := sh)\<rparr>\<rparr>"

text \<open>
  The result is an error or the new host's block, the request as it is copied back, and the
  system. On an error everything that was allocated is released, so that only the writes to memory that
  nobody refers to remain; they are left out.
\<close>

definition vsc_register_host ::
  "reg_env \<Rightarrow> vsc_ioctl_cmd_add_host option \<Rightarrow> vsc_sys \<Rightarrow>
   ((int + nat) \<times> vsc_ioctl_cmd_add_host option \<times> vsc_sys) option" where
  "vsc_register_host env info s =
     (case info of
        None \<Rightarrow> Some (Inl (- EINVAL), info, s)
      | Some i \<Rightarrow>
          if check_host_info info \<noteq> 0 then Some (Inl (- EINVAL), info, s)
          else
            do { found \<leftarrow> vsc_scsi_host_lookup env (ah_host i) s;
                 case found of
                   Some shp \<Rightarrow>
                     (case vsc_get_ctlr_by_host (ah_host i) (sys s) of
                        None \<Rightarrow> Some (Inl (- ENODEV), info, s)
                      | Some h \<Rightarrow>
                          Some (Inl (- EEXIST),
                            Some (i\<lparr>ah_sys_host_id := host_no (shosts (mid (sys s)) shp)\<rparr>), s))
                 | None \<Rightarrow>
                     if vsc_get_ctlr_by_host (ah_host i) (sys s) \<noteq> None
                     then Some (Inl (- ENODEV), info, s)
                     else case re_alloc env of
                       None \<Rightarrow> Some (Inl (- ENOMEM), info, s)
                     | Some (shp, a, hno) \<Rightarrow>
                         (let (r, h, held, freed) = vsc_ctrl_init (re_kmalloc env) (re_cmd_mem env)
                                (re_event_mem env) (Some shp) (sint (ah_max_nr_cmds i)) (ah_host i)
                          in if r \<noteq> 0 then Some (Inl (- EFAULT), info, s)
                             else if re_add_host env \<noteq> 0 then Some (Inl (re_add_host env), info, s)
                             else if \<not> re_proc env then Some (Inl (- ENOMEM), info, s)
                             else
                               let w1 = put_shost shp (new_shost i a hno (nr_cmds h)) (upd_host a h (sys s));
                                   (_, w2) = vsc_add_host_to_mgr (re_mgr env) a (ah_host i) w1
                               in Some (Inr a, Some (i\<lparr>ah_sys_host_id := hno\<rparr>),
                                    s\<lparr>sys := w2, live := live s @ [a], ml_hosts := ml_hosts s @ [shp],
                                      procs := procs s @ [hno]\<rparr>)) })"

subsection \<open>Removing hosts\<close>

definition vsc_do_remove_host :: "nat option \<Rightarrow> vsc_sys \<Rightarrow> (int \<times> vsc_sys) option" where
  "vsc_do_remove_host hp s =
     (case hp of
        None \<Rightarrow> Some (- EINVAL, s)
      | Some a \<Rightarrow>
          if a \<notin> set (live s) then None
          else case scsi_host (hosts (sys s) a) of
            None \<Rightarrow> Some (- EFAULT, s)
          | Some sh \<Rightarrow>
              (let w = sys s;
                   w1 = upd_host a ((hosts w a)\<lparr>target_abnormal_timer := None, h_file := None\<rparr>) w
               in do { w4 \<leftarrow> fail_host a w1;
                       Some (0, s\<lparr>sys := w4, live := remove1 a (live s), ml_hosts := remove1 sh (ml_hosts s),
                                  procs := remove1 (host_no (shosts (mid w) sh)) (procs s)\<rparr>) }))"

definition vsc_remove_host :: "nat option \<Rightarrow> vsc_sys \<Rightarrow> (int \<times> vsc_sys) option" where
  "vsc_remove_host hp s = vsc_do_remove_host hp s"

fun remove_slots :: "nat \<Rightarrow> nat list \<Rightarrow> vsc_sys \<Rightarrow> vsc_sys option" where
  "remove_slots mp [] s = Some s"
| "remove_slots mp (i # is) s =
     do { (_, s1) \<leftarrow> vsc_do_remove_host (host_list (mgrs (sys s) mp) ! i) s;
          let m = mgrs (sys s1) mp;
          remove_slots mp is (s1\<lparr>sys := (sys s1)\<lparr>mgrs := (mgrs (sys s1))(mp := m\<lparr>host_list := (host_list m)[i := None]\<rparr>)\<rparr>\<rparr>) }"

text \<open>The loop over the vbs; one with an impossible count is skipped.\<close>

fun remove_mgrs :: "nat list \<Rightarrow> vsc_sys \<Rightarrow> vsc_sys option" where
  "remove_mgrs [] s = Some s"
| "remove_mgrs (mp # mps) s =
     (if of_nat MAX_HOST_NR_PER_VBS < host_count (mgrs (sys s) mp) then remove_mgrs mps s
      else do { s1 \<leftarrow> remove_slots mp [0..<unat (host_count (mgrs (sys s) mp))] s;
                remove_mgrs mps (s1\<lparr>sys := (sys s1)\<lparr>g_host_mgr_list := remove1 mp (g_host_mgr_list (sys s1))\<rparr>\<rparr>) })"

definition vsc_remove_all_host :: "vsc_sys \<Rightarrow> vsc_sys option" where
  "vsc_remove_all_host s = remove_mgrs (g_host_mgr_list (sys s)) s"

subsection \<open>A new host starts well-formed\<close>

lemma alloc_objs_eq: "alloc_objs ok xs held = (list_all ok xs, held @ takeWhile ok xs)"
  by (induction xs arbitrary: held) auto

lemma pool_objs_order:
  "Event_buf j \<in> set (takeWhile ok (pool_objs nev ncm)) \<Longrightarrow> Event_tbl \<in> set (takeWhile ok (pool_objs nev ncm))"
  "Cmd_buf k \<in> set (takeWhile ok (pool_objs nev ncm)) \<Longrightarrow> Cmd_tbl \<in> set (takeWhile ok (pool_objs nev ncm))"
  by (auto simp: pool_objs_def takeWhile_append split: if_splits dest: set_takeWhileD)

lemma destroy_frees:
  assumes held: "held = takeWhile ok (pool_objs nev ncm)"
  shows "distinct (vsc_ctlr_info_destroy nev ncm held)" "set (vsc_ctlr_info_destroy nev ncm held) = set held"
proof -
  have inj: "distinct (map Cmd_buf [0..<ncm])" "distinct (map Event_buf [0..<nev])"
    by (simp_all add: distinct_map inj_on_def)
  then show "distinct (vsc_ctlr_info_destroy nev ncm held)"
    by (auto simp: vsc_ctlr_info_destroy_def)
  have sub: "x \<in> set (pool_objs nev ncm)" if "x \<in> set held" for x
    using that held by (auto dest: set_takeWhileD)
  show "set (vsc_ctlr_info_destroy nev ncm held) = set held"
  proof (intro set_eqI iffI)
    fix x
    assume x: "x \<in> set held"
    have "Event_tbl \<in> set held" if "x = Event_buf j" for j
      using that x pool_objs_order(1) unfolding held by blast
    moreover have "Cmd_tbl \<in> set held" if "x = Cmd_buf k" for k
      using that x pool_objs_order(2) unfolding held by blast
    ultimately show "x \<in> set (vsc_ctlr_info_destroy nev ncm held)"
      using x sub [OF x] by (cases x) (auto simp: vsc_ctlr_info_destroy_def pool_objs_def)
  qed (auto simp: vsc_ctlr_info_destroy_def split: if_splits)
qed

lemma zero_bits:
  "pool_wf (replicate ((n + BITS_PER_LONG - 1) div BITS_PER_LONG) 0) n"
  "pool_used (replicate ((n + BITS_PER_LONG - 1) div BITS_PER_LONG) 0) n = {}"
proof -
  show wf: "pool_wf (replicate ((n + BITS_PER_LONG - 1) div BITS_PER_LONG) 0) n"
    by (simp add: pool_wf_def)
  show "pool_used (replicate ((n + BITS_PER_LONG - 1) div BITS_PER_LONG) 0) n = {}"
    using pool_word_in_range [OF wf] by (auto simp: pool_used_def pool_bit_def)
qed

lemma ctrl_init_ok:
  assumes n: "0 < n" "n \<le> 2048 * 2048" and all: "list_all ok (pool_objs VSC_DEFAULT_EVENT_NUMBER (nat n))"
    and run: "vsc_ctrl_init ok cmd_mem event_mem (Some shp) n hid = (r, h, held, freed)"
  shows "r = 0" "freed = []" "host_inv {#} h" "event_inv {#} h" "phases_ok h" "inflight h = {#}"
    "cmd_used h = {}" "event_used h = {}" "nr_cmds h = nat n" "scsi_host h = Some shp" "vbs_host_id h = hid"
    "h_file h = None" "target_abnormal_lock h = 0"
proof -
  have h: "r = 0" "freed = []" "h = zero_ctrl\<lparr>scsi_host := Some shp, vbs_host_id := hid,
      nr_cmds := nat n, nr_events := VSC_DEFAULT_EVENT_NUMBER,
      cmd_pool_bits := replicate ((nat n + BITS_PER_LONG - 1) div BITS_PER_LONG) 0,
      cmd_pool_tbl := map cmd_mem [0..<nat n],
      event_pool_bits := replicate ((VSC_DEFAULT_EVENT_NUMBER + BITS_PER_LONG - 1) div BITS_PER_LONG) 0,
      event_pool_tbl := map event_mem [0..<VSC_DEFAULT_EVENT_NUMBER]\<rparr>"
    using n all run by (auto simp: vsc_ctrl_init_def alloc_objs_eq Let_def)
  have z: "reqQ h = []" "cmpQ h = []" "rspQ h = []" "event_reqQ h = []" "event_rspQ h = []"
    "io_running h = 0" "Qdepth h = 0"
    by (simp_all add: h(3) zero_ctrl_def)
  show u: "cmd_used h = {}" "event_used h = {}"
    using zero_bits [of "nat n"] zero_bits [of VSC_DEFAULT_EVENT_NUMBER]
    by (simp_all add: cmd_used_def event_used_def h(3))
  have wf: "nr_cmds h = nat n" "nat n < 2 ^ 31" "nr_events h = VSC_DEFAULT_EVENT_NUMBER"
    "length (cmd_pool_tbl h) = nat n" "length (event_pool_tbl h) = VSC_DEFAULT_EVENT_NUMBER"
    "pool_wf (cmd_pool_bits h) (nat n)" "pool_wf (event_pool_bits h) VSC_DEFAULT_EVENT_NUMBER"
    using n(2) zero_bits [of "nat n"] zero_bits [of VSC_DEFAULT_EVENT_NUMBER] by (simp_all add: h(3))
  show "host_inv {#} h" "event_inv {#} h" "phases_ok h" "inflight h = {#}"
    using z u wf
    by (simp_all add: host_inv_defs event_inv_defs phases_ok_def inflight_def allQ_def all_eventQ_def
        VSC_DEFAULT_EVENT_NUMBER_def)
qed (use assms in \<open>auto simp: vsc_ctrl_init_def alloc_objs_eq Let_def zero_ctrl_def\<close>)

lemma ctrl_init_fail:
  assumes "\<not> list_all ok (pool_objs VSC_DEFAULT_EVENT_NUMBER (nat n))" "n \<noteq> 0"
    and "vsc_ctrl_init ok cmd_mem event_mem (Some shp) n hid = (r, h, held, freed)"
  shows "r = - ENOMEM" "distinct freed" "set freed = set held" "\<forall>x\<in>set held. ok x"
proof -
  have r: "r = - ENOMEM" "held = takeWhile ok (pool_objs VSC_DEFAULT_EVENT_NUMBER (nat n))"
    "freed = vsc_ctlr_info_destroy VSC_DEFAULT_EVENT_NUMBER (nat n) held"
    using assms by (auto simp: vsc_ctrl_init_def alloc_objs_eq Let_def)
  then show "r = - ENOMEM" "distinct freed" "set freed = set held" "\<forall>x\<in>set held. ok x"
    using destroy_frees [OF r(2)] by (auto dest: set_takeWhileD)
qed

text \<open>
  (C36) Initialising a host's block: with a valid number of commands it returns 0 exactly when every
  allocation succeeds, and the host then satisfies all invariants, with empty queues and no
  command or event buffer in use. Otherwise it returns \<open>-ENOMEM\<close> and frees every object it had
  allocated, each once.
\<close>

theorem ctrl_init_all_or_nothing:
  assumes "0 < n" "n \<le> 2048 * 2048"
    and "vsc_ctrl_init ok cmd_mem event_mem (Some shp) n hid = (r, h, held, freed)"
  shows "if list_all ok (pool_objs VSC_DEFAULT_EVENT_NUMBER (nat n))
     then r = 0 \<and> freed = [] \<and> host_inv {#} h \<and> event_inv {#} h \<and> phases_ok h \<and> inflight h = {#} \<and>
       cmd_used h = {} \<and> event_used h = {} \<and> nr_cmds h = nat n \<and> scsi_host h = Some shp \<and>
       vbs_host_id h = hid \<and> h_file h = None \<and> target_abnormal_lock h = 0
     else r = - ENOMEM \<and> distinct freed \<and> set freed = set held \<and> (\<forall>x\<in>set held. ok x)"
  using ctrl_init_ok [OF assms(1,2) _ assms(3)] ctrl_init_fail [OF _ _ assms(3)] assms(1) by simp

subsection \<open>The registry is a map\<close>

text \<open>
  What the lists of vbs and hosts stand for: a map from the pair of a vbs number and a slot to
  a host's block.
\<close>

definition host_key :: "u32 \<Rightarrow> u32 \<times> u32" where
  "host_key hno = (vsc_get_vbs_id_by_host_id hno, vsc_get_host_index_in_vbs hno)"

definition registry :: "vsc_world \<Rightarrow> u32 \<times> u32 \<Rightarrow> nat option" where
  "registry w = (\<lambda>(vid, idx).
     if of_nat MAX_HOST_NR_PER_VBS \<le> idx then None
     else case find_mgr vid w of None \<Rightarrow> None | Some mp \<Rightarrow> host_list (mgrs w mp) ! unat idx)"

definition mgrs_ok :: "vsc_world \<Rightarrow> bool" where
  "mgrs_ok w \<longleftrightarrow> (\<forall>mp\<in>set (g_host_mgr_list w). length (host_list (mgrs w mp)) = MAX_HOST_NR_PER_VBS)"

definition registry_room :: "nat option \<Rightarrow> u32 \<Rightarrow> vsc_world \<Rightarrow> bool" where
  "registry_room new_mgr hno w \<longleftrightarrow> snd (host_key hno) < of_nat MAX_HOST_NR_PER_VBS \<and>
     (case find_mgr (fst (host_key hno)) w of
        None \<Rightarrow> new_mgr \<noteq> None
      | Some mp \<Rightarrow> host_count (mgrs w mp) < of_nat MAX_HOST_NR_PER_VBS)"

lemma get_ctlr_registry: "vsc_get_ctlr_by_host hno w = registry w (host_key hno)"
  by (simp add: vsc_get_ctlr_by_host_def registry_def host_key_def Let_def)

lemma find_mgr_Some: "find_mgr vid w = Some mp \<Longrightarrow> mp \<in> set (g_host_mgr_list w) \<and> vbs_id (mgrs w mp) = vid"
  by (auto simp: find_mgr_def find_Some_iff)

lemma registry_frame:
  "g_host_mgr_list w' = g_host_mgr_list w \<Longrightarrow> mgrs w' = mgrs w \<Longrightarrow> registry w' = registry w \<and> mgrs_ok w' = mgrs_ok w"
  by (auto simp: registry_def find_mgr_def mgrs_ok_def fun_eq_iff split: option.splits)

lemma upd_host_mgr_list [simp]: "g_host_mgr_list (upd_host a h w) = g_host_mgr_list w"
  by (simp add: upd_host_def)

lemma slot_index: "x < of_nat MAX_HOST_NR_PER_VBS \<Longrightarrow> unat (x :: u32) < MAX_HOST_NR_PER_VBS"
  by (simp add: MAX_HOST_NR_PER_VBS_def word_less_nat_alt)

lemma add_host_cases:
  assumes "vsc_add_host_to_mgr new_mgr a hid w = (r, w')"
  obtains (refused) "\<not> registry_room new_mgr hid w" "r = FAILED" "w' = w"
  | (slot) mp where "registry_room new_mgr hid w" "find_mgr (fst (host_key hid)) w = Some mp" "r = 0"
      "w' = (upd_host a ((hosts w a)\<lparr>silbing_hosts := Some mp\<rparr>) w)
         \<lparr>mgrs := (mgrs w)(mp := enter_host a (unat (snd (host_key hid))) (mgrs w mp))\<rparr>"
  | (new) mp where "registry_room new_mgr hid w" "find_mgr (fst (host_key hid)) w = None"
      "new_mgr = Some mp" "r = 0"
      "w' = (upd_host a ((hosts w a)\<lparr>silbing_hosts := Some mp\<rparr>) w)
         \<lparr>mgrs := (mgrs w)(mp := enter_host a (unat (snd (host_key hid))) (zero_mgr\<lparr>vbs_id := fst (host_key hid)\<rparr>)),
          g_host_mgr_list := g_host_mgr_list w @ [mp]\<rparr>"
proof (cases "registry_room new_mgr hid w")
  case False
  with assms have "r = FAILED" "w' = w"
    by (auto simp: vsc_add_host_to_mgr_def registry_room_def host_key_def Let_def not_le
        split: option.splits if_splits)
  with False show thesis by (rule refused)
next
  case True
  then have idx: "\<not> of_nat MAX_HOST_NR_PER_VBS \<le> snd (host_key hid)"
    by (simp add: registry_room_def not_le)
  show thesis
  proof (cases "find_mgr (fst (host_key hid)) w")
    case None
    with True obtain mp where "new_mgr = Some mp" by (auto simp: registry_room_def)
    with assms None idx True show thesis
      by (intro new [of mp]) (simp_all add: vsc_add_host_to_mgr_def host_key_def)
  next
    case (Some mp)
    with True have "\<not> of_nat MAX_HOST_NR_PER_VBS \<le> host_count (mgrs w mp)"
      by (simp add: registry_room_def not_le)
    with assms Some idx True show thesis
      by (intro slot [of mp]) (simp_all add: vsc_add_host_to_mgr_def host_key_def)
  qed
qed

lemma add_host_slot:
  assumes "mgrs_ok w" "find_mgr (fst k) w = Some mp" "snd k < of_nat MAX_HOST_NR_PER_VBS"
    and "mgrs w' = (mgrs w)(mp := enter_host a (unat (snd k)) (mgrs w mp))" "g_host_mgr_list w' = g_host_mgr_list w"
  shows "registry w' = (registry w)(k := Some a)" "mgrs_ok w'"
proof -
  obtain vid idx where k: "k = (vid, idx)" by (cases k)
  have mp: "vbs_id (mgrs w mp) = vid" "length (host_list (mgrs w mp)) = MAX_HOST_NR_PER_VBS"
    using find_mgr_Some [OF assms(2)] assms(1) k by (auto simp: mgrs_ok_def)
  have fm: "find_mgr v w' = find_mgr v w" for v
    using assms(4,5) by (auto simp: find_mgr_def enter_host_def intro!: find_cong_pred)
  have inj: "(unat idx = unat x) = (x = idx)" for x by (auto simp: word_unat_eq_iff)
  show "registry w' = (registry w)(k := Some a)"
  proof (rule ext, clarify)
    fix v x
    have "mp' \<noteq> mp" if "find_mgr v w = Some mp'" "v \<noteq> vid" for mp'
      using find_mgr_Some [OF that(1)] mp(1) that(2) by auto
    then show "registry w' (v, x) = ((registry w)(k := Some a)) (v, x)"
      using assms(2-4) mp k slot_index [of idx] slot_index [of x]
      by (auto simp: registry_def fm enter_host_def nth_list_update inj not_le split: option.splits)
  qed
  show "mgrs_ok w'" using assms(1,4,5) by (auto simp: mgrs_ok_def enter_host_def)
qed

lemma add_host_new:
  assumes "mgrs_ok w" "find_mgr (fst k) w = None" "snd k < of_nat MAX_HOST_NR_PER_VBS" "mp \<notin> set (g_host_mgr_list w)"
    and "mgrs w' = (mgrs w)(mp := enter_host a (unat (snd k)) (zero_mgr\<lparr>vbs_id := fst k\<rparr>))"
    and "g_host_mgr_list w' = g_host_mgr_list w @ [mp]"
  shows "registry w' = (registry w)(k := Some a)" "mgrs_ok w'"
proof -
  obtain vid idx where k: "k = (vid, idx)" by (cases k)
  have inj: "(unat idx = unat x) = (x = idx)" for x by (auto simp: word_unat_eq_iff)
  have fm: "find_mgr v w' = (case find_mgr v w of None \<Rightarrow> if v = vid then Some mp else None | Some q \<Rightarrow> Some q)" for v
  proof -
    have "find (\<lambda>q. vbs_id (mgrs w' q) = v) (g_host_mgr_list w) = find_mgr v w"
      unfolding find_mgr_def using assms(4,5) by (intro find_cong_pred) auto
    then show ?thesis
      using assms(5,6) k by (simp add: find_mgr_def find_append enter_host_def split: option.splits)
  qed
  show "registry w' = (registry w)(k := Some a)"
  proof (rule ext, clarify)
    fix v x
    have "mp' \<noteq> mp" if "find_mgr v w = Some mp'" for mp'
      using find_mgr_Some [OF that] assms(4) by auto
    then show "registry w' (v, x) = ((registry w)(k := Some a)) (v, x)"
      using assms(2,3,5) k slot_index [of idx] slot_index [of x]
      by (auto simp: registry_def fm enter_host_def zero_mgr_def nth_list_update inj not_le split: option.splits)
  qed
  show "mgrs_ok w'" using assms(1,5,6) by (auto simp: mgrs_ok_def enter_host_def zero_mgr_def)
qed

lemma add_host_registry:
  assumes ok: "mgrs_ok w" and fresh: "\<And>mp. new_mgr = Some mp \<Longrightarrow> mp \<notin> set (g_host_mgr_list w)"
    and run: "vsc_add_host_to_mgr new_mgr a hid w = (r, w')"
  shows "(r = 0) = registry_room new_mgr hid w"
    "registry w' = (if registry_room new_mgr hid w then (registry w)(host_key hid := Some a) else registry w)"
    "mgrs_ok w'" "mid w' = mid w" "\<forall>b. b \<noteq> a \<longrightarrow> hosts w' b = hosts w b"
    "\<exists>mp. hosts w' a = (hosts w a)\<lparr>silbing_hosts := mp\<rparr>"
proof -
  have room: "snd (host_key hid) < of_nat MAX_HOST_NR_PER_VBS" if "registry_room new_mgr hid w"
    using that by (simp add: registry_room_def)
  show "(r = 0) = registry_room new_mgr hid w"
    using run by (cases rule: add_host_cases) auto
  show "mid w' = mid w" "\<forall>b. b \<noteq> a \<longrightarrow> hosts w' b = hosts w b"
    using run by (cases rule: add_host_cases; simp add: upd_host_def)+
  show "\<exists>mp. hosts w' a = (hosts w a)\<lparr>silbing_hosts := mp\<rparr>"
    using run
  proof (cases rule: add_host_cases)
    case refused
    then show ?thesis by (intro exI [of _ "silbing_hosts (hosts w a)"]) simp
  qed (auto simp: upd_host_def)
  have "registry w' = (if registry_room new_mgr hid w then (registry w)(host_key hid := Some a) else registry w) \<and> mgrs_ok w'"
    using run
  proof (cases rule: add_host_cases)
    case refused
    then show ?thesis using ok by simp
  next
    case (slot mp)
    then show ?thesis using add_host_slot [OF ok slot(2) room [OF slot(1)], of w' a] by simp
  next
    case (new mp)
    then show ?thesis using add_host_new [OF ok new(2) room [OF new(1)] fresh [OF new(3)], of w' a] by simp
  qed
  then show "registry w' = (if registry_room new_mgr hid w then (registry w)(host_key hid := Some a) else registry w)"
    "mgrs_ok w'" by auto
qed

subsection \<open>Registering\<close>

lemma check_host_info_bounds:
  assumes "check_host_info (Some i) = 0"
  shows "0 < sint (ah_max_nr_cmds i)" "sint (ah_max_nr_cmds i) \<le> 2048 * 2048"
    "sint (ah_max_nr_cmds i) = int (unat (ah_max_nr_cmds i))" "ah_max_cmd_len i \<le> 256"
proof -
  have c: "ah_max_nr_cmds i \<noteq> 0" "ah_max_nr_cmds i \<le> 2048 * 2048" "ah_max_cmd_len i \<le> 256"
    using assms
    by (simp_all add: check_host_info_def VSC_DEFAULT_MAX_CMD_NUMBER_def VSC_MAX_CDB_LEN_def not_less
        split: if_splits)
  then have n: "0 < unat (ah_max_nr_cmds i)" "unat (ah_max_nr_cmds i) \<le> 2048 * 2048"
    by (simp_all add: word_le_nat_alt unat_gt_0)
  have "signed_take_bit 31 (int k) = int k" if "k \<le> 2048 * 2048" for k
    using that by (intro signed_take_bit_int_eq_self) simp_all
  from this [OF n(2)] show e: "sint (ah_max_nr_cmds i) = int (unat (ah_max_nr_cmds i))"
    by (simp add: sint_uint)
  have "0 < int k \<and> int k \<le> 2048 * 2048" if "0 < k" "k \<le> 2048 * 2048" for k
    using that by simp
  from this [OF n] show "0 < sint (ah_max_nr_cmds i)" "sint (ah_max_nr_cmds i) \<le> 2048 * 2048"
    unfolding e by blast+
  show "ah_max_cmd_len i \<le> 256" by (rule c(3))
qed

lemma register_success:
  assumes "vsc_register_host env (Some i) s = Some (Inr a, info', s')"
  obtains shp hno h held freed r w2 where "check_host_info (Some i) = 0"
    "vsc_get_ctlr_by_host (ah_host i) (sys s) = None"
    "vsc_ctrl_init (re_kmalloc env) (re_cmd_mem env) (re_event_mem env) (Some shp)
       (sint (ah_max_nr_cmds i)) (ah_host i) = (0, h, held, freed)"
    "vsc_add_host_to_mgr (re_mgr env) a (ah_host i)
       (put_shost shp (new_shost i a hno (nr_cmds h)) (upd_host a h (sys s))) = (r, w2)"
    "sys s' = w2" "live s' = live s @ [a]"
proof -
  from assms have chk: "check_host_info (Some i) = 0"
    and free: "vsc_get_ctlr_by_host (ah_host i) (sys s) = None"
    by (auto simp: vsc_register_host_def bind_eq_Some_conv split: if_splits option.splits)
  from assms chk free obtain shp a0 hno where "re_alloc env = Some (shp, a0, hno)"
    by (auto simp: vsc_register_host_def vsc_scsi_host_lookup_def split: option.splits)
  moreover obtain r0 h held freed where "vsc_ctrl_init (re_kmalloc env) (re_cmd_mem env) (re_event_mem env)
      (Some shp) (sint (ah_max_nr_cmds i)) (ah_host i) = (r0, h, held, freed)"
    by (metis prod_cases4)
  moreover obtain r w2 where "vsc_add_host_to_mgr (re_mgr env) a0 (ah_host i)
      (put_shost shp (new_shost i a0 hno (nr_cmds h)) (upd_host a0 h (sys s))) = (r, w2)"
    by fastforce
  ultimately show thesis
    using assms chk free
    by (intro that [of shp h held freed hno r w2])
      (auto simp: vsc_register_host_def vsc_scsi_host_lookup_def Let_def split: if_splits)
qed

lemma put_shost_simps [simp]:
  "hosts (put_shost shp x w) = hosts w" "mgrs (put_shost shp x w) = mgrs w"
  "g_host_mgr_list (put_shost shp x w) = g_host_mgr_list w" "scmds (mid (put_shost shp x w)) = scmds (mid w)"
  "sdevs (mid (put_shost shp x w)) = sdevs (mid w)" "done_log (mid (put_shost shp x w)) = done_log (mid w)"
  by (simp_all add: put_shost_def)

text \<open>
  (C11) Registering a host is an insertion into a map from vbs and slot to hosts: on success the key
  was free, all other keys keep their host, and the key leads to the new host, which satisfies all
  invariants and has the requested number of buffers. The code ignores the result of
  \<open>vsc_add_host_to_mgr\<close>: when there is no room (a slot beyond 8, a full vbs, no memory), the host is
  registered and alive but no key leads to it.
\<close>

theorem register_refines_map:
  assumes ok: "mgrs_ok (sys s)" and fresh: "\<And>mp. re_mgr env = Some mp \<Longrightarrow> mp \<notin> set (g_host_mgr_list (sys s))"
    and run: "vsc_register_host env (Some i) s = Some (Inr a, info', s')"
  shows "registry (sys s) (host_key (ah_host i)) = None \<and> mgrs_ok (sys s') \<and> live s' = live s @ [a] \<and>
     registry (sys s') = (if registry_room (re_mgr env) (ah_host i) (sys s)
        then (registry (sys s))(host_key (ah_host i) := Some a) else registry (sys s)) \<and>
     host_inv {#} (hosts (sys s') a) \<and> event_inv {#} (hosts (sys s') a) \<and> phases_ok (hosts (sys s') a) \<and>
     inflight (hosts (sys s') a) = {#} \<and> nr_cmds (hosts (sys s') a) = unat (ah_max_nr_cmds i) \<and>
     (\<forall>b. b \<noteq> a \<longrightarrow> hosts (sys s') b = hosts (sys s) b)"
proof -
  obtain shp hno h held freed r w2 where reg: "check_host_info (Some i) = 0"
    "vsc_get_ctlr_by_host (ah_host i) (sys s) = None"
    "vsc_ctrl_init (re_kmalloc env) (re_cmd_mem env) (re_event_mem env) (Some shp)
       (sint (ah_max_nr_cmds i)) (ah_host i) = (0, h, held, freed)"
    "vsc_add_host_to_mgr (re_mgr env) a (ah_host i)
       (put_shost shp (new_shost i a hno (nr_cmds h)) (upd_host a h (sys s))) = (r, w2)"
    "sys s' = w2" "live s' = live s @ [a]"
    using run by (rule register_success)
  let ?w1 = "put_shost shp (new_shost i a hno (nr_cmds h)) (upd_host a h (sys s))"
  note n = check_host_info_bounds [OF reg(1)]
  have all: "list_all (re_kmalloc env) (pool_objs VSC_DEFAULT_EVENT_NUMBER (nat (sint (ah_max_nr_cmds i))))"
    using ctrl_init_fail(1) [OF _ _ reg(3)] n(1) by fastforce
  have h: "host_inv {#} h" "event_inv {#} h" "phases_ok h" "inflight h = {#}" "nr_cmds h = unat (ah_max_nr_cmds i)"
    using ctrl_init_ok [OF n(1,2) all reg(3)] n(3) by simp_all
  have fr: "registry ?w1 = registry (sys s)" "mgrs_ok ?w1 = mgrs_ok (sys s)"
    using registry_frame [of ?w1 "sys s"] by simp_all
  have room: "registry_room (re_mgr env) (ah_host i) ?w1 = registry_room (re_mgr env) (ah_host i) (sys s)"
    by (simp add: registry_room_def find_mgr_def split: option.splits)
  have "mgrs_ok ?w1" "\<And>mp. re_mgr env = Some mp \<Longrightarrow> mp \<notin> set (g_host_mgr_list ?w1)"
    using ok fr fresh by simp_all
  note add = add_host_registry [OF this reg(4)]
  obtain mp where a: "hosts w2 a = h\<lparr>silbing_hosts := mp\<rparr>" using add(6) by auto
  have same: "same_cmds h (hosts w2 a)" "same_events h (hosts w2 a)"
    by (simp_all add: a same_cmds_def same_events_def)
  have inv: "host_inv {#} (hosts w2 a)" "event_inv {#} (hosts w2 a)" "phases_ok (hosts w2 a)"
    "inflight (hosts w2 a) = {#}" "nr_cmds (hosts w2 a) = unat (ah_max_nr_cmds i)"
    using h host_inv_same_cmds [OF same(1)] event_inv_same_events [OF same(2)] phases_same_cmds [OF same(1)]
      inflight_same_cmds [OF same(1)] by (auto simp: a)
  have "registry w2 = (if registry_room (re_mgr env) (ah_host i) (sys s)
        then (registry (sys s))(host_key (ah_host i) := Some a) else registry (sys s))"
    using add(2) unfolding room fr(1) .
  then show ?thesis
    using reg(2,5,6) add(3,5) inv by (simp add: get_ctlr_registry)
qed

subsection \<open>Removing\<close>

lemma fail_host_lists:
  assumes "fail_host a w = Some w'"
  shows "mgrs w' = mgrs w" "g_host_mgr_list w' = g_host_mgr_list w"
proof -
  have "mgrs w2 = mgrs w1 \<and> g_host_mgr_list w2 = g_host_mgr_list w1" if "vsc_abort_all_cmd (Some a) w1 = Some (r, w2)" for w1 w2 r
    using that by (auto simp: vsc_abort_all_cmd_def bind_eq_Some_conv)
  with assms show "mgrs w' = mgrs w" "g_host_mgr_list w' = g_host_mgr_list w"
    by (auto simp: fail_host_def vsc_resume_host_def bind_eq_Some_conv Let_def set_self_blocked_def)
qed

text \<open>
  (C37) Removing a host: every command it had in flight is completed once with \<open>DID_SOFT_ERROR\<close>, its
  queues are empty, it has no file and no timer, the middle layer and the proc directory forget it
  and its block is released; nothing happens to other hosts.
\<close>

theorem remove_host_completes:
  assumes "world_inv S H (sys s)" "a \<in> S" "a \<in> set (live s)" "scsi_host (hosts (sys s) a) = Some shp"
    and "event_inv HE (hosts (sys s) a)"
  shows "\<exists>s' L. vsc_remove_host (Some a) s = Some (0, s') \<and> live s' = remove1 a (live s) \<and>
     ml_hosts s' = remove1 shp (ml_hosts s) \<and>
     procs s' = remove1 (host_no (shosts (mid (sys s)) shp)) (procs s) \<and>
     allQ (hosts (sys s') a) = [] \<and> all_eventQ (hosts (sys s') a) = [] \<and>
     h_file (hosts (sys s') a) = None \<and> target_abnormal_timer (hosts (sys s') a) = None \<and>
     (\<forall>b. b \<noteq> a \<longrightarrow> hosts (sys s') b = hosts (sys s) b) \<and>
     done_log (mid (sys s')) = done_log (mid (sys s)) @ L \<and>
     (\<forall>x\<in>set L. snd x = push_bit 16 DID_SOFT_ERROR) \<and>
     image_mset fst (mset L) = inflight (hosts (sys s) a)"
proof -
  define h where "h = (hosts (sys s) a)\<lparr>target_abnormal_timer := None, h_file := None\<rparr>"
  let ?w = "upd_host a h (sys s)"
  have same: "same_cmds (hosts (sys s) a) h" "same_events (hosts (sys s) a) h"
    by (simp_all add: h_def same_cmds_def same_events_def)
  have inv: "world_inv S H ?w"
    using assms(1,2) same(1) by (rule world_inv_ctl) (simp add: h_def)
  have sh: "scsi_host (hosts ?w a) = Some shp" and ev: "event_inv HE (hosts ?w a)"
    using assms(4,5) event_inv_same_events [OF same(2)] by (simp_all add: h_def)
  obtain w' L where w': "fail_host a ?w = Some w'" "world_inv S H w'"
    "allQ (hosts w' a) = []" "all_eventQ (hosts w' a) = []"
    "event_inv (HE - mset (all_eventQ (hosts ?w a))) (hosts w' a)"
    "same_host ((hosts ?w a)\<lparr>suspend := 0\<rparr>) (hosts w' a)" "\<forall>b. b \<noteq> a \<longrightarrow> hosts w' b = hosts ?w b"
    "shosts (mid w') = shosts (mid (set_self_blocked shp False ?w))" "mgrs w' = mgrs ?w"
    "sdevs (mid w') = sdevs (mid ?w)"
    "done_log (mid w') = done_log (mid ?w) @ L" "\<forall>x\<in>set L. snd x = push_bit 16 DID_SOFT_ERROR"
    "image_mset fst (mset L) = inflight (hosts ?w a)"
    by (rule fail_host_spec [OF inv assms(2) sh ev])
  have "h_file (hosts w' a) = None" "target_abnormal_timer (hosts w' a) = None"
    using w'(6) by (simp_all add: same_host_def h_def)
  moreover have "vsc_remove_host (Some a) s = Some (0, s\<lparr>sys := w', live := remove1 a (live s),
      ml_hosts := remove1 shp (ml_hosts s), procs := remove1 (host_no (shosts (mid (sys s)) shp)) (procs s)\<rparr>)"
    using assms(3,4) w'(1) by (simp add: vsc_remove_host_def vsc_do_remove_host_def h_def Let_def)
  moreover have "inflight h = inflight (hosts (sys s) a)" by (rule inflight_same_cmds [OF same(1)])
  ultimately show ?thesis
    using w'(3,4,7,11-13) by (intro exI conjI) (assumption, simp_all)
qed

text \<open>
  The removal does not take the host out of its vbs: the number still leads to the released block.
  Removing it again, or registering the same number again, reads freed memory.
\<close>

lemma removed_host_dangles:
  assumes "vsc_remove_host (Some a) s = Some (0, s')" "distinct (live s)"
    and "vsc_get_ctlr_by_host hno (sys s) = Some a"
  shows "vsc_get_ctlr_by_host hno (sys s') = Some a \<and> a \<notin> set (live s') \<and>
     vsc_remove_host (Some a) s' = None \<and>
     (\<forall>env i. check_host_info (Some i) = 0 \<and> ah_host i = hno \<longrightarrow> vsc_register_host env (Some i) s' = None)"
proof -
  from assms(1) obtain w1 sh where w1: "fail_host a (upd_host a ((hosts (sys s) a)\<lparr>target_abnormal_timer := None,
      h_file := None\<rparr>) (sys s)) = Some w1" "sys s' = w1" "live s' = remove1 a (live s)" "a \<in> set (live s)"
    by (auto simp: vsc_remove_host_def vsc_do_remove_host_def Let_def bind_eq_Some_conv
        split: if_splits option.splits)
  have "registry (sys s') = registry (sys s)"
    using fail_host_lists [OF w1(1)] w1(2) registry_frame [of "sys s'" "sys s"] by simp
  then have get: "vsc_get_ctlr_by_host hno (sys s') = Some a"
    using assms(3) by (simp add: get_ctlr_registry)
  have dead: "a \<notin> set (live s')" using w1(3) assms(2) by simp
  then have "vsc_remove_host (Some a) s' = None"
    by (simp add: vsc_remove_host_def vsc_do_remove_host_def)
  moreover have "vsc_register_host env (Some i) s' = None"
    if "check_host_info (Some i) = 0" "ah_host i = hno" for env i
    using that get dead by (simp add: vsc_register_host_def vsc_scsi_host_lookup_def)
  ultimately show ?thesis using get dead by blast
qed

subsection \<open>At concrete states\<close>

text \<open>A system without hosts, and a kernel that grants everything.\<close>

definition empty_sys :: vsc_sys where
  "empty_sys = \<lparr>sys = example_world\<lparr>g_host_mgr_list := []\<rparr>, live = [], ml_hosts = [], procs = []\<rparr>"

definition example_env :: reg_env where
  "example_env = \<lparr>re_host_get = (\<lambda>_. True), re_alloc = Some (6, 9, 11), re_kmalloc = (\<lambda>_. True),
     re_cmd_mem = (\<lambda>_. example_cmd), re_event_mem = (\<lambda>_. example_event), re_add_host = 0,
     re_proc = True, re_mgr = Some 5\<rparr>"

definition example_info :: "u32 \<Rightarrow> vsc_ioctl_cmd_add_host" where
  "example_info hno = \<lparr>ah_host = hno, ah_sys_host_id = 0, ah_max_channel = 1, ah_max_lun = 8, ah_max_id = 8,
     ah_max_cmd_len = 16, ah_max_nr_cmds = 2, ah_cmd_per_lun = 2, ah_sg_count = 16\<rparr>"

lemma example_key: "host_key 0x101 = (1, 1)"
  by (simp add: host_key_def vsc_get_vbs_id_by_host_id_def vsc_get_host_index_in_vbs_def)

lemma example_registered:
  obtains s where "vsc_register_host example_env (Some (example_info 0x101)) empty_sys =
      Some (Inr 9, Some (example_info 0x101\<lparr>ah_sys_host_id := 11\<rparr>), s)"
    "live s = [9]" "g_host_mgr_list (sys s) = [5]" "host_count (mgrs (sys s) 5) = 1"
    "host_list (mgrs (sys s) 5) = None # Some 9 # replicate 6 None"
proof -
  have chk: "check_host_info (Some (example_info 0x101)) = 0"
    by (simp add: check_host_info_def example_info_def VSC_MAX_CDB_LEN_def VSC_MAX_SG_COUNT_def
        VSC_DEFAULT_MAX_CMD_NUMBER_def VSC_DEFAULT_LUN_CMD_NUMBER_def)
  have none: "vsc_get_ctlr_by_host 0x101 (sys empty_sys) = None"
    by (simp add: get_ctlr_registry registry_def example_key find_mgr_def empty_sys_def)
  obtain r h held freed where init: "vsc_ctrl_init (\<lambda>_. True) (\<lambda>_. example_cmd) (\<lambda>_. example_event) (Some 6) 2 0x101 =
      (r, h, held, freed)" by (metis prod_cases4)
  have "r = 0" by (rule ctrl_init_ok(1) [OF _ _ _ init]) (simp_all add: list_all_iff)
  obtain r2 w2 where add: "vsc_add_host_to_mgr (Some 5) 9 0x101
      (put_shost 6 (new_shost (example_info 0x101) 9 11 (nr_cmds h)) (upd_host 9 h (sys empty_sys))) = (r2, w2)"
    by fastforce
  have w2: "g_host_mgr_list w2 = [5]" "mgrs w2 5 = enter_host 9 1 (zero_mgr\<lparr>vbs_id := 1\<rparr>)"
    using add [symmetric] example_key word_le_nat_alt [of "8 :: u32" 1]
    by (auto simp: vsc_add_host_to_mgr_def host_key_def find_mgr_def empty_sys_def MAX_HOST_NR_PER_VBS_def)
  show thesis
  proof (rule that)
    show "vsc_register_host example_env (Some (example_info 0x101)) empty_sys =
      Some (Inr 9, Some (example_info 0x101\<lparr>ah_sys_host_id := 11\<rparr>),
        empty_sys\<lparr>sys := w2, live := [9], ml_hosts := [6], procs := [11]\<rparr>)"
      using chk none init \<open>r = 0\<close> add
      by (simp add: vsc_register_host_def vsc_scsi_host_lookup_def example_env_def)
        (simp add: example_info_def empty_sys_def)
  qed (use w2 in \<open>simp_all add: enter_host_def zero_mgr_def MAX_HOST_NR_PER_VBS_def numeral_eq_Suc\<close>)
qed


theorem ctrl_init_all_or_nothing_witness:
  "\<exists>r h held freed. vsc_ctrl_init (\<lambda>x. x \<noteq> Event_buf 3) (\<lambda>_. example_cmd) (\<lambda>_. example_event) (Some 6) 2 0x101 =
     (r, h, held, freed) \<and> r = - ENOMEM \<and> set freed = set held"
proof -
  obtain r h held freed where init: "vsc_ctrl_init (\<lambda>x. x \<noteq> Event_buf 3) (\<lambda>_. example_cmd) (\<lambda>_. example_event)
      (Some 6) 2 0x101 = (r, h, held, freed)" by (metis prod_cases4)
  have n: "\<not> list_all (\<lambda>x. x \<noteq> Event_buf 3) (pool_objs VSC_DEFAULT_EVENT_NUMBER (nat 2))"
    by (auto simp: list_all_iff pool_objs_def VSC_DEFAULT_EVENT_NUMBER_def)
  show ?thesis
    using ctrl_init_all_or_nothing [OF _ _ init] n init by auto
qed

theorem register_refines_map_witness:
  "\<exists>i s. vsc_register_host example_env (Some (example_info 0x101)) empty_sys = Some (Inr 9, i, s) \<and>
     vsc_get_ctlr_by_host 0x101 (sys s) = Some 9"
proof -
  obtain s where s: "vsc_register_host example_env (Some (example_info 0x101)) empty_sys =
      Some (Inr 9, Some (example_info 0x101\<lparr>ah_sys_host_id := 11\<rparr>), s)"
    by (rule example_registered)
  have e: "ah_host (example_info 0x101) = 0x101" "g_host_mgr_list (sys empty_sys) = []" "re_mgr example_env = Some 5"
    by (simp_all add: example_info_def empty_sys_def example_env_def)
  have room: "registry_room (Some 5) 0x101 (sys empty_sys)"
    using e(2) word_less_nat_alt [of 1 "8 :: u32"]
    by (simp add: registry_room_def example_key find_mgr_def MAX_HOST_NR_PER_VBS_def)
  have "registry (sys s) (host_key 0x101) = Some 9"
    using register_refines_map [OF _ _ s] room e by (simp add: mgrs_ok_def)
  with s show ?thesis by (auto simp: get_ctlr_registry)
qed

definition busy_sys :: vsc_sys where
  "busy_sys = \<lparr>sys = example_busy_world, live = [0], ml_hosts = [0], procs = [4]\<rparr>"

theorem remove_host_completes_witness:
  "\<exists>s'. vsc_remove_host (Some 0) busy_sys = Some (0, s') \<and> live s' = [] \<and>
     length (done_log (mid (sys s'))) = 1"
proof -
  have b: "sys busy_sys = example_busy_world" "live busy_sys = [0]" by (simp_all add: busy_sys_def)
  have pre: "0 \<in> set (live busy_sys)" "scsi_host (hosts (sys busy_sys) 0) = Some 0"
    "world_inv {0} (\<lambda>_. {#}) (sys busy_sys)" "event_inv {#} (hosts (sys busy_sys) 0)"
    using example_busy_inv(1,2) b by simp_all
  obtain s' L where s': "vsc_remove_host (Some 0) busy_sys = Some (0, s')" "live s' = []"
    "done_log (mid (sys s')) = L" "image_mset fst (mset L) = {#5#}"
    using remove_host_completes [OF pre(3) _ pre(1,2,4)] b example_busy_inv(3) by auto
  then have "size (image_mset fst (mset L)) = 1" by simp
  then have "length L = 1" by simp
  with s' show ?thesis by blast
qed

text \<open>The busy host is number 0x100, and removing it succeeds.\<close>

lemma busy_registered:
  "vsc_get_ctlr_by_host 0x100 (sys busy_sys) = Some 0" "scsi_host (hosts (sys busy_sys) 0) = Some 0"
  "live busy_sys = [0]" "\<exists>s'. vsc_remove_host (Some 0) busy_sys = Some (0, s')"
proof -
  have "mgrs example_busy_world 0 = example_mgr" "g_host_mgr_list example_busy_world = [0]" "vbs_id example_mgr = 1"
    "host_key 0x100 = (1, 0)"
    by (simp_all add: example_busy_world_def example_world_def example_mgr_def host_key_def
        vsc_get_vbs_id_by_host_id_def vsc_get_host_index_in_vbs_def)
  then show "vsc_get_ctlr_by_host 0x100 (sys busy_sys) = Some 0"
    by (simp add: get_ctlr_registry registry_def find_mgr_def busy_sys_def MAX_HOST_NR_PER_VBS_def)
  show "scsi_host (hosts (sys busy_sys) 0) = Some 0" "live busy_sys = [0]" by (simp_all add: busy_sys_def)
  have pre: "world_inv {0} (\<lambda>_. {#}) example_busy_world" "event_inv {#} (hosts example_busy_world 0)"
    using example_busy_inv(1,2) by simp_all
  let ?w = "upd_host 0 ((hosts example_busy_world 0)\<lparr>target_abnormal_timer := None, h_file := None\<rparr>) example_busy_world"
  have inv: "world_inv {0} (\<lambda>_. {#}) ?w"
    using pre(1) by (rule world_inv_ctl) (simp_all add: same_cmds_def)
  have ev: "event_inv {#} (hosts ?w 0)" using pre(2) by (simp add: event_inv_defs event_used_def all_eventQ_def)
  have sh: "scsi_host (hosts ?w 0) = Some 0" by simp
  obtain w' where "fail_host 0 ?w = Some w'"
    by (rule fail_host_spec [OF inv _ sh ev]) simp_all
  then show "\<exists>s'. vsc_remove_host (Some 0) busy_sys = Some (0, s')"
    by (simp add: vsc_remove_host_def vsc_do_remove_host_def busy_sys_def Let_def)
qed

lemma removed_host_dangles_witness:
  "\<exists>s'. vsc_remove_host (Some 0) busy_sys = Some (0, s') \<and> vsc_get_ctlr_by_host 0x100 (sys s') = Some 0 \<and>
     vsc_register_host example_env (Some (example_info 0x100)) s' = None"
proof -
  obtain s' where s': "vsc_remove_host (Some 0) busy_sys = Some (0, s')" using busy_registered(4) by blast
  have chk: "check_host_info (Some (example_info 0x100)) = 0" "ah_host (example_info 0x100) = 0x100"
    by (simp_all add: check_host_info_def example_info_def VSC_MAX_CDB_LEN_def VSC_MAX_SG_COUNT_def
        VSC_DEFAULT_MAX_CMD_NUMBER_def VSC_DEFAULT_LUN_CMD_NUMBER_def)
  have "distinct (live busy_sys)" by (simp add: busy_sys_def)
  from removed_host_dangles [OF s' this busy_registered(1)] s' chk show ?thesis by blast
qed

end
