(* ===== verification/Vsc_Ioctl.thy ===== *)
theory Vsc_Ioctl
  imports Vsc_Registry
begin

text \<open>
  The device file of the driver (\<open>vsc_ioctl.c\<close>): the operations of \<open>vsc_ioctl_fops\<close>, the handlers of
  the ioctl commands with the structures they copy from and to user memory, and the
  registration of the character device. A file's \<open>private_data\<close> is the host it is attached to; a
  call through a pointer to a block that no longer exists is undefined behaviour, hence \<open>None\<close>.
  The kernel never calls these functions without a file, so the test \<open>!file\<close> is left out.
\<close>

subsection \<open>The arguments of the ioctls\<close>

record vsc_ioctl_disk =
  disk_host :: u32
  disk_channel :: u32
  disk_id :: u32
  disk_lun :: u32

record vsc_ioctl_disk_stat =
  ds_host :: u32
  ds_channel :: u32
  ds_id :: u32
  ds_lun :: u32
  ds_stat :: u32

record vsc_ioctl_rq_timeout =
  rq_host :: u32
  rq_channel :: u32
  rq_id :: u32
  rq_lun :: u32
  rq_time :: u32

record vsc_ioctl_set_tg_abn_timeout =
  tg_host :: u32
  tg_timeout :: u32

definition disk_words :: "vsc_ioctl_disk \<Rightarrow> u32 list" where
  "disk_words x = [disk_host x, disk_channel x, disk_id x, disk_lun x]"

definition of_disk_words :: "u32 list \<Rightarrow> vsc_ioctl_disk" where
  "of_disk_words w = \<lparr>disk_host = w ! 0, disk_channel = w ! 1, disk_id = w ! 2, disk_lun = w ! 3\<rparr>"

definition disk_stat_words :: "vsc_ioctl_disk_stat \<Rightarrow> u32 list" where
  "disk_stat_words x = [ds_host x, ds_channel x, ds_id x, ds_lun x, ds_stat x]"

definition of_disk_stat_words :: "u32 list \<Rightarrow> vsc_ioctl_disk_stat" where
  "of_disk_stat_words w =
     \<lparr>ds_host = w ! 0, ds_channel = w ! 1, ds_id = w ! 2, ds_lun = w ! 3, ds_stat = w ! 4\<rparr>"

definition rq_timeout_words :: "vsc_ioctl_rq_timeout \<Rightarrow> u32 list" where
  "rq_timeout_words x = [rq_host x, rq_channel x, rq_id x, rq_lun x, rq_time x]"

definition of_rq_timeout_words :: "u32 list \<Rightarrow> vsc_ioctl_rq_timeout" where
  "of_rq_timeout_words w =
     \<lparr>rq_host = w ! 0, rq_channel = w ! 1, rq_id = w ! 2, rq_lun = w ! 3, rq_time = w ! 4\<rparr>"

definition tg_timeout_words :: "vsc_ioctl_set_tg_abn_timeout \<Rightarrow> u32 list" where
  "tg_timeout_words x = [tg_host x, tg_timeout x]"

definition of_tg_timeout_words :: "u32 list \<Rightarrow> vsc_ioctl_set_tg_abn_timeout" where
  "of_tg_timeout_words w = \<lparr>tg_host = w ! 0, tg_timeout = w ! 1\<rparr>"

definition add_host_words :: "vsc_ioctl_cmd_add_host \<Rightarrow> u32 list" where
  "add_host_words x = [ah_host x, ah_sys_host_id x, ah_max_channel x, ah_max_lun x, ah_max_id x,
     ah_max_cmd_len x, ah_max_nr_cmds x, ah_cmd_per_lun x, ah_sg_count x]"

definition of_add_host_words :: "u32 list \<Rightarrow> vsc_ioctl_cmd_add_host" where
  "of_add_host_words w = \<lparr>ah_host = w ! 0, ah_sys_host_id = w ! 1, ah_max_channel = w ! 2,
     ah_max_lun = w ! 3, ah_max_id = w ! 4, ah_max_cmd_len = w ! 5, ah_max_nr_cmds = w ! 6,
     ah_cmd_per_lun = w ! 7, ah_sg_count = w ! 8\<rparr>"

interpretation disk_arg: word_struct disk_words of_disk_words 4
  by unfold_locales (simp_all add: disk_words_def of_disk_words_def)

interpretation disk_stat_arg: word_struct disk_stat_words of_disk_stat_words 5
  by unfold_locales (simp_all add: disk_stat_words_def of_disk_stat_words_def)

interpretation rq_timeout_arg: word_struct rq_timeout_words of_rq_timeout_words 5
  by unfold_locales (simp_all add: rq_timeout_words_def of_rq_timeout_words_def)

interpretation tg_timeout_arg: word_struct tg_timeout_words of_tg_timeout_words 2
  by unfold_locales (simp_all add: tg_timeout_words_def of_tg_timeout_words_def)

interpretation add_host_arg: word_struct add_host_words of_add_host_words 9
  by unfold_locales (simp_all add: add_host_words_def of_add_host_words_def)

text \<open>
  A volume: five integers and the name, 116 bytes; the member \<open>extend\<close> has no bytes in it. The list
  of volumes: the host, the number and 128 volumes.
\<close>

definition enc_vol :: "vsc_ioctl_disk_vol_name \<Rightarrow> byte list" where
  "enc_vol v = enc_words [v_host v, v_channel v, v_id v, v_lun v, v_state v] @ v_vol_name v"

definition dec_vol :: "byte list \<Rightarrow> nat \<Rightarrow> vsc_ioctl_disk_vol_name option" where
  "dec_vol buf off =
     do { w \<leftarrow> rd_words buf off 5; name \<leftarrow> rd_bytes buf (off + 20) VSC_VOL_NAME_LEN;
          Some \<lparr>v_host = w ! 0, v_channel = w ! 1, v_id = w ! 2, v_lun = w ! 3, v_state = w ! 4,
                v_vol_name = name, v_extend = 0\<rparr> }"

definition VOL_SIZE :: nat where "VOL_SIZE = 20 + VSC_VOL_NAME_LEN"

fun dec_vols :: "byte list \<Rightarrow> nat \<Rightarrow> nat \<Rightarrow> vsc_ioctl_disk_vol_name list option" where
  "dec_vols buf off 0 = Some []"
| "dec_vols buf off (Suc n) =
     do { v \<leftarrow> dec_vol buf off; vs \<leftarrow> dec_vols buf (off + VOL_SIZE) n; Some (v # vs) }"

definition enc_query_vol :: "vsc_ioctl_query_vol \<Rightarrow> byte list" where
  "enc_query_vol q = enc_words [q_host q, vol_num q] @ concat (map enc_vol (volumes q))"

definition dec_query_vol :: "byte list \<Rightarrow> vsc_ioctl_query_vol option" where
  "dec_query_vol buf =
     do { w \<leftarrow> rd_words buf 0 2; vs \<leftarrow> dec_vols buf 8 VSC_MAX_VOL_PER_HOST;
          Some \<lparr>q_host = w ! 0, vol_num = w ! 1, volumes = vs\<rparr> }"

definition QUERY_SIZE :: nat where "QUERY_SIZE = 8 + VSC_MAX_VOL_PER_HOST * VOL_SIZE"

subsection \<open>The state behind the device file\<close>

record vsc_dev =
  dsys :: vsc_sys
  private_data :: "nat \<Rightarrow> nat option"
  f_nonblock :: "nat \<Rightarrow> bool"
  user_mem :: umem

text \<open>
  What the kernel and the caller decide: \<open>capable(CAP_SYS_ADMIN)\<close>, the outcome of \<open>kzalloc\<close>, the middle layer,
  the time, the answers of a registration, the numbering of \<open>enum scsi_device_state\<close>, and what
  \<open>vsc_get_msg\<close> and \<open>vsc_response_msg\<close> take besides their arguments.
\<close>

record dev_env =
  capable :: bool
  kzalloc_ok :: bool
  de_api :: scsi_api
  de_hz :: u32
  de_jiffies :: u64
  de_reg :: reg_env
  sdev_of_u32 :: "u32 \<Rightarrow> scsi_device_state"
  u32_of_sdev :: "scsi_device_state \<Rightarrow> u32"
  de_command_size :: "byte list \<Rightarrow> nat"
  de_stk :: "vsc_msg_cdb list"
  de_pad :: u32
  de_pool :: "byte list option"
  de_wait :: "vsc_ctrl_info \<Rightarrow> int \<times> vsc_ctrl_info"

abbreviation dworld :: "vsc_dev \<Rightarrow> vsc_world" where
  "dworld d \<equiv> sys (dsys d)"

definition set_world :: "vsc_world \<Rightarrow> vsc_dev \<Rightarrow> vsc_dev" where
  "set_world w d = d\<lparr>dsys := (dsys d)\<lparr>sys := w\<rparr>\<rparr>"

definition set_mid :: "midlayer \<Rightarrow> vsc_dev \<Rightarrow> vsc_dev" where
  "set_mid m d = set_world (dworld d\<lparr>mid := m\<rparr>) d"

text \<open>
  The steps the handlers share: the checks and the copy of the argument; the host a number names, or
  \<open>-ENODEV\<close>; the copy back.
\<close>

definition take_arg :: "dev_env \<Rightarrow> nat \<Rightarrow> u64 \<Rightarrow> vsc_dev \<Rightarrow> int + byte list" where
  "take_arg E n p d =
     (if p = 0 then Inl (- EINVAL)
      else if \<not> capable E then Inl (- EPERM)
      else let (left, bs) = copy_from_user p n (user_mem d) in
           if left \<noteq> 0 then Inl (- EFAULT) else Inr bs)"

definition on_host :: "u32 \<Rightarrow> vsc_dev \<Rightarrow> (nat \<Rightarrow> (int \<times> vsc_dev) option) \<Rightarrow> (int \<times> vsc_dev) option" where
  "on_host hno d f =
     (case vsc_get_ctlr_by_host hno (dworld d) of
        None \<Rightarrow> Some (- ENODEV, d)
      | Some a \<Rightarrow> if a \<notin> set (live (dsys d)) then None else f a)"

definition copy_out :: "u64 \<Rightarrow> byte list \<Rightarrow> vsc_dev \<Rightarrow> int \<times> vsc_dev" where
  "copy_out p bs d =
     (let (left, um1) = copy_to_user p bs (user_mem d)
      in (if left \<noteq> 0 then - EFAULT else 0, d\<lparr>user_mem := um1\<rparr>))"

subsection \<open>Disks\<close>

definition vsc_dev_add_disk :: "dev_env \<Rightarrow> u64 \<Rightarrow> vsc_dev \<Rightarrow> (int \<times> vsc_dev) option" where
  "vsc_dev_add_disk E p d =
     (case take_arg E 16 p d of
        Inl e \<Rightarrow> Some (e, d)
      | Inr bs \<Rightarrow>
          do { disk \<leftarrow> map_option of_disk_words (rd_words bs 0 4);
               on_host (disk_host disk) d (\<lambda>a.
                 do { (r, m) \<leftarrow> vsc_add_device (de_api E) (Some (hosts (dworld d) a)) (disk_channel disk)
                                  (disk_id disk) (disk_lun disk) (mid (dworld d));
                      Some (r, set_mid m d) }) })"

definition vsc_dev_add_disk_by_vol_name :: "dev_env \<Rightarrow> u64 \<Rightarrow> vsc_dev \<Rightarrow> (int \<times> vsc_dev) option" where
  "vsc_dev_add_disk_by_vol_name E p d =
     (case take_arg E VOL_SIZE p d of
        Inl e \<Rightarrow> Some (e, d)
      | Inr bs \<Rightarrow>
          do { disk_vol \<leftarrow> dec_vol bs 0;
               on_host (v_host disk_vol) d (\<lambda>a.
                 do { (r, m) \<leftarrow> vsc_add_device_by_vol_name (de_api E) (Some (hosts (dworld d) a))
                                  (v_channel disk_vol) (v_id disk_vol) (v_lun disk_vol)
                                  (Some (v_vol_name disk_vol)) (mid (dworld d));
                      Some (r, set_mid m d) }) })"

definition vsc_dev_rmv_disk :: "dev_env \<Rightarrow> u64 \<Rightarrow> vsc_dev \<Rightarrow> (int \<times> vsc_dev) option" where
  "vsc_dev_rmv_disk E p d =
     (case take_arg E 16 p d of
        Inl e \<Rightarrow> Some (e, d)
      | Inr bs \<Rightarrow>
          do { disk \<leftarrow> map_option of_disk_words (rd_words bs 0 4);
               on_host (disk_host disk) d (\<lambda>a.
                 let (r, m) = vsc_rmv_device (de_api E) (Some (hosts (dworld d) a)) (disk_channel disk)
                                (disk_id disk) (disk_lun disk) (mid (dworld d))
                 in Some (r, set_mid m d)) })"

definition vsc_dev_rmv_disk_by_vol_name :: "dev_env \<Rightarrow> u64 \<Rightarrow> vsc_dev \<Rightarrow> (int \<times> vsc_dev) option" where
  "vsc_dev_rmv_disk_by_vol_name E p d =
     (case take_arg E VOL_SIZE p d of
        Inl e \<Rightarrow> Some (e, d)
      | Inr bs \<Rightarrow>
          do { disk_vol \<leftarrow> dec_vol bs 0;
               on_host (v_host disk_vol) d (\<lambda>a.
                 let (r, m) = vsc_set_delete_by_vol_name (de_api E) (Some (hosts (dworld d) a))
                                (Some (v_vol_name disk_vol)) (mid (dworld d))
                 in Some (r, set_mid m d)) })"

definition vsc_dev_query_vol :: "dev_env \<Rightarrow> u64 \<Rightarrow> vsc_dev \<Rightarrow> (int \<times> vsc_dev) option" where
  "vsc_dev_query_vol E p d =
     (if p = 0 then Some (- EINVAL, d)
      else if \<not> capable E then Some (- EPERM, d)
      else if \<not> kzalloc_ok E then Some (- ENOMEM, d)
      else case take_arg E QUERY_SIZE p d of
        Inl e \<Rightarrow> Some (e, d)
      | Inr bs \<Rightarrow>
          do { query_vol \<leftarrow> dec_query_vol bs;
               on_host (q_host query_vol) d (\<lambda>a.
                 do { q \<leftarrow> vsc_query_vol (hosts (dworld d) a) query_vol (mid (dworld d));
                      Some (copy_out p (enc_query_vol q) d) }) })"

definition vsc_dev_set_disk_stat :: "dev_env \<Rightarrow> u64 \<Rightarrow> vsc_dev \<Rightarrow> (int \<times> vsc_dev) option" where
  "vsc_dev_set_disk_stat E p d =
     (case take_arg E 20 p d of
        Inl e \<Rightarrow> Some (e, d)
      | Inr bs \<Rightarrow>
          do { disk_stat \<leftarrow> map_option of_disk_stat_words (rd_words bs 0 5);
               on_host (ds_host disk_stat) d (\<lambda>a.
                 do { (r, m) \<leftarrow> vsc_set_device_stat (de_api E) (Some (hosts (dworld d) a)) (ds_channel disk_stat)
                                  (ds_id disk_stat) (ds_lun disk_stat) (sdev_of_u32 E (ds_stat disk_stat))
                                  (mid (dworld d));
                      Some (r, set_mid m d) }) })"

definition vsc_dev_get_disk_stat :: "dev_env \<Rightarrow> u64 \<Rightarrow> vsc_dev \<Rightarrow> (int \<times> vsc_dev) option" where
  "vsc_dev_get_disk_stat E p d =
     (case take_arg E 20 p d of
        Inl e \<Rightarrow> Some (e, d)
      | Inr bs \<Rightarrow>
          do { disk_stat \<leftarrow> map_option of_disk_stat_words (rd_words bs 0 5);
               on_host (ds_host disk_stat) d (\<lambda>a.
                 do { (retval, sdev_stat, m) \<leftarrow>
                        vsc_get_device_stat (de_api E) (Some (hosts (dworld d) a)) (ds_channel disk_stat)
                          (ds_id disk_stat) (ds_lun disk_stat) True (mid (dworld d));
                      let d1 = set_mid m d;
                      if retval \<noteq> 0 then Some (retval, d1)
                      else do { st \<leftarrow> sdev_stat;
                                Some (copy_out p (enc_words (disk_stat_words
                                  (disk_stat\<lparr>ds_stat := u32_of_sdev E st\<rparr>))) d1) } }) })"

text \<open>The timeout is an \<open>int\<close> for \<open>vsc_set_device_rq_timeout\<close>, which looks at the host only after its range check.\<close>

definition vsc_dev_set_disk_rq_timeout :: "dev_env \<Rightarrow> u64 \<Rightarrow> vsc_dev \<Rightarrow> (int \<times> vsc_dev) option" where
  "vsc_dev_set_disk_rq_timeout E p d =
     (case take_arg E 20 p d of
        Inl e \<Rightarrow> Some (e, d)
      | Inr bs \<Rightarrow>
          do { rq \<leftarrow> map_option of_rq_timeout_words (rd_words bs 0 5);
               case vsc_get_ctlr_by_host (rq_host rq) (dworld d) of
                 None \<Rightarrow> Some (- ENODEV, d)
               | Some a \<Rightarrow>
                   if a \<notin> set (live (dsys d)) \<and> 0 < sint (rq_time rq) \<and> sint (rq_time rq) \<le> VSC_RQ_MAX_TIMEOUT
                   then None
                   else do { (r, m) \<leftarrow> vsc_set_device_rq_timeout (de_api E) (de_hz E)
                                         (Some (hosts (dworld d) a)) (rq_channel rq) (rq_id rq) (rq_lun rq)
                                         (sint (rq_time rq)) (mid (dworld d));
                             Some (r, set_mid m d) } })"

definition VSC_MAX_TARGET_ABNORMAL_TIMEOUT :: u32 where "VSC_MAX_TARGET_ABNORMAL_TIMEOUT = 6000"

definition vsc_dev_set_tg_abn_timeout :: "dev_env \<Rightarrow> u64 \<Rightarrow> vsc_dev \<Rightarrow> (int \<times> vsc_dev) option" where
  "vsc_dev_set_tg_abn_timeout E p d =
     (case take_arg E 8 p d of
        Inl e \<Rightarrow> Some (e, d)
      | Inr bs \<Rightarrow>
          do { tg \<leftarrow> map_option of_tg_timeout_words (rd_words bs 0 2);
               if VSC_MAX_TARGET_ABNORMAL_TIMEOUT < tg_timeout tg then Some (- EINVAL, d)
               else on_host (tg_host tg) d (\<lambda>a.
                 let (r, w) = vsc_set_tg_abn_timeout (Some a) (tg_timeout tg) (dworld d)
                 in Some (r, set_world w d)) })"

subsection \<open>Hosts\<close>

definition vsc_dev_rmv_host :: "dev_env \<Rightarrow> u64 \<Rightarrow> vsc_dev \<Rightarrow> (int \<times> vsc_dev) option" where
  "vsc_dev_rmv_host E p d =
     (case take_arg E 4 p d of
        Inl e \<Rightarrow> Some (e, d)
      | Inr bs \<Rightarrow>
          do { hno \<leftarrow> rd32 bs 0;
               on_host hno d (\<lambda>a.
                 do { (r, s) \<leftarrow> vsc_remove_host (Some a) (dsys d); Some (r, d\<lparr>dsys := s\<rparr>) }) })"

definition vsc_dev_add_host :: "dev_env \<Rightarrow> u64 \<Rightarrow> vsc_dev \<Rightarrow> (int \<times> vsc_dev) option" where
  "vsc_dev_add_host E p d =
     (case take_arg E 36 p d of
        Inl e \<Rightarrow> Some (e, d)
      | Inr bs \<Rightarrow>
          do { host_info \<leftarrow> map_option of_add_host_words (rd_words bs 0 9);
               (h, info, s) \<leftarrow> vsc_register_host (de_reg E) (Some host_info) (dsys d);
               i \<leftarrow> info;
               let (r, d1) = copy_out p (enc_words (add_host_words i)) (d\<lparr>dsys := s\<rparr>);
               if r \<noteq> 0 then Some (r, d1)
               else Some (case h of Inl e \<Rightarrow> e | Inr _ \<Rightarrow> 0, d1) })"

definition vsc_dev_attach_host :: "dev_env \<Rightarrow> nat \<Rightarrow> u64 \<Rightarrow> vsc_dev \<Rightarrow> (int \<times> vsc_dev) option" where
  "vsc_dev_attach_host E f p d =
     (if private_data d f \<noteq> None then Some (- EALREADY, d)
      else let (left, bs) = copy_from_user p 4 (user_mem d) in
        if left \<noteq> 0 then Some (- EFAULT, d)
        else if \<not> capable E then Some (- EPERM, d)
        else do { hno \<leftarrow> rd32 bs 0;
                  on_host hno d (\<lambda>a.
                    do { (retval, w) \<leftarrow> vsc_scsi_attach (Some a) (Some f) (dworld d);
                         let d1 = set_world w d;
                         if retval \<noteq> 0 then Some (retval, d1)
                         else Some (0, d1\<lparr>private_data := (private_data d1)(f := Some a)\<rparr>) }) })"

text \<open>Detaching, from the ioctl and when the file is closed; \<open>none\<close> is what an unattached file gets.\<close>

definition detach_file :: "dev_env \<Rightarrow> int \<Rightarrow> bool \<Rightarrow> nat \<Rightarrow> vsc_dev \<Rightarrow> (int \<times> vsc_dev) option" where
  "detach_file E none is_timeout f d =
     (case private_data d f of
        None \<Rightarrow> Some (none, d)
      | Some a \<Rightarrow>
          if a \<notin> set (live (dsys d)) then None
          else do { (r, w) \<leftarrow> vsc_scsi_detach (de_hz E) (de_jiffies E) (Some a) is_timeout (dworld d);
                    Some (r, set_world w (d\<lparr>private_data := (private_data d)(f := None)\<rparr>)) })"

definition vsc_dev_detach_host :: "dev_env \<Rightarrow> nat \<Rightarrow> vsc_dev \<Rightarrow> (int \<times> vsc_dev) option" where
  "vsc_dev_detach_host E f d = detach_file E (- EBADF) False f d"

definition vsc_dev_suspend_host :: "nat \<Rightarrow> vsc_dev \<Rightarrow> (int \<times> vsc_dev) option" where
  "vsc_dev_suspend_host f d =
     (case private_data d f of
        None \<Rightarrow> Some (- EBADF, d)
      | Some a \<Rightarrow>
          if a \<notin> set (live (dsys d)) then None
          else do { (r, w) \<leftarrow> vsc_suspend_host (Some a) (dworld d); Some (r, set_world w d) })"

definition vsc_dev_resume_host :: "nat \<Rightarrow> vsc_dev \<Rightarrow> (int \<times> vsc_dev) option" where
  "vsc_dev_resume_host f d =
     (case private_data d f of
        None \<Rightarrow> Some (- EBADF, d)
      | Some a \<Rightarrow>
          if a \<notin> set (live (dsys d)) then None
          else do { (r, w) \<leftarrow> vsc_resume_host (Some a) (dworld d); Some (r, set_world w d) })"

subsection \<open>The operations of the file\<close>

definition vsc_io :: "u32 \<Rightarrow> u32" where
  "vsc_io n = 0x4B00 + n"

definition vsc_dev_ioctl :: "dev_env \<Rightarrow> nat \<Rightarrow> u32 \<Rightarrow> u64 \<Rightarrow> vsc_dev \<Rightarrow> (int \<times> vsc_dev) option" where
  "vsc_dev_ioctl E f cmd arg d =
     (if cmd = vsc_io 0 then vsc_dev_add_host E arg d
      else if cmd = vsc_io 1 then vsc_dev_rmv_host E arg d
      else if cmd = vsc_io 20 then vsc_dev_attach_host E f arg d
      else if cmd = vsc_io 21 then vsc_dev_detach_host E f d
      else if cmd = vsc_io 30 then vsc_dev_suspend_host f d
      else if cmd = vsc_io 31 then vsc_dev_resume_host f d
      else if cmd = vsc_io 10 then vsc_dev_add_disk E arg d
      else if cmd = vsc_io 11 then vsc_dev_rmv_disk E arg d
      else if cmd = vsc_io 32 then vsc_dev_add_disk_by_vol_name E arg d
      else if cmd = vsc_io 33 then vsc_dev_rmv_disk_by_vol_name E arg d
      else if cmd = vsc_io 34 then vsc_dev_query_vol E arg d
      else if cmd = vsc_io 12 then vsc_dev_set_disk_stat E arg d
      else if cmd = vsc_io 13 then vsc_dev_get_disk_stat E arg d
      else if cmd = vsc_io 14 then vsc_dev_set_disk_rq_timeout E arg d
      else if cmd = vsc_io 15 then vsc_dev_set_tg_abn_timeout E arg d
      else Some (- ENOTTY, d))"

definition vsc_dev_compat_ioctl :: "dev_env \<Rightarrow> nat \<Rightarrow> u32 \<Rightarrow> u64 \<Rightarrow> vsc_dev \<Rightarrow> (int \<times> vsc_dev) option" where
  "vsc_dev_compat_ioctl E f ioctl arg d = vsc_dev_ioctl E f ioctl arg d"

definition vsc_dev_open :: "nat \<Rightarrow> vsc_dev \<Rightarrow> (int \<times> vsc_dev) option" where
  "vsc_dev_open f d = Some (0, d\<lparr>private_data := (private_data d)(f := None)\<rparr>)"

definition vsc_dev_poll :: "nat \<Rightarrow> vsc_dev \<Rightarrow> (int \<times> vsc_dev) option" where
  "vsc_dev_poll f d =
     (case private_data d f of
        None \<Rightarrow> Some (uint (vsc_poll_wait None), d)
      | Some a \<Rightarrow>
          if a \<notin> set (live (dsys d)) then None
          else Some (uint (vsc_poll_wait (Some (hosts (dworld d) a))), d))"

text \<open>\<open>vsc_get_msg\<close> and \<open>vsc_response_msg\<close> take the length as an \<open>int\<close>.\<close>

definition put_data_state :: "nat \<Rightarrow> data_state \<Rightarrow> vsc_dev \<Rightarrow> vsc_dev" where
  "put_data_state a s d =
     (let (h, m, um) = s in (set_world ((upd_host a h (dworld d))\<lparr>mid := m\<rparr>) d)\<lparr>user_mem := um\<rparr>)"

definition vsc_dev_read :: "dev_env \<Rightarrow> nat \<Rightarrow> u64 \<Rightarrow> u64 \<Rightarrow> vsc_dev \<Rightarrow> (int \<times> vsc_dev) option" where
  "vsc_dev_read E f user_buf len d =
     (case private_data d f of
        None \<Rightarrow> Some (- EBADF, d)
      | Some a \<Rightarrow>
          if a \<notin> set (live (dsys d)) then None
          else do { (r, s) \<leftarrow> vsc_get_msg (de_command_size E) (de_stk E) (de_pad E) (de_pool E) (de_wait E)
                                (f_nonblock d f) user_buf (c_int (uint len)) (Some (hosts (dworld d) a))
                                (mid (dworld d)) (user_mem d);
                    Some (r, put_data_state a s d) })"

definition vsc_dev_write :: "dev_env \<Rightarrow> nat \<Rightarrow> u64 \<Rightarrow> u64 \<Rightarrow> vsc_dev \<Rightarrow> (int \<times> vsc_dev) option" where
  "vsc_dev_write E f user_buf len d =
     (case private_data d f of
        None \<Rightarrow> Some (- EBADF, d)
      | Some a \<Rightarrow>
          if a \<notin> set (live (dsys d)) then None
          else do { (r, s) \<leftarrow> vsc_response_msg (de_command_size E) (de_pool E) user_buf (c_int (uint len))
                                (Some (hosts (dworld d) a)) (mid (dworld d)) (user_mem d);
                    Some (r, case s of None \<Rightarrow> d | Some s \<Rightarrow> put_data_state a s d) })"

definition vsc_dev_f_flush :: "nat \<Rightarrow> vsc_dev \<Rightarrow> (int \<times> vsc_dev) option" where
  "vsc_dev_f_flush f d =
     (case private_data d f of
        None \<Rightarrow> Some (0, d)
      | Some a \<Rightarrow>
          if f_nonblock d f then Some (0, d)
          else if a \<notin> set (live (dsys d)) then None
          else Some (0, set_world (upd_host a (vsc_interrupt_sleep_on_read (hosts (dworld d) a)) (dworld d)) d))"

definition vsc_dev_release :: "dev_env \<Rightarrow> nat \<Rightarrow> vsc_dev \<Rightarrow> (int \<times> vsc_dev) option" where
  "vsc_dev_release E f d = detach_file E 0 True f d"

datatype file_call =
    Open | Flush | Release | Read u64 u64 | Write u64 u64 | Poll | Ioctl u32 u64 | Compat_ioctl u32 u64

fun vsc_ioctl_fops :: "file_call \<Rightarrow> dev_env \<Rightarrow> nat \<Rightarrow> vsc_dev \<Rightarrow> (int \<times> vsc_dev) option" where
  "vsc_ioctl_fops Open E f d = vsc_dev_open f d"
| "vsc_ioctl_fops Flush E f d = vsc_dev_f_flush f d"
| "vsc_ioctl_fops Release E f d = vsc_dev_release E f d"
| "vsc_ioctl_fops (Read p n) E f d = vsc_dev_read E f p n d"
| "vsc_ioctl_fops (Write p n) E f d = vsc_dev_write E f p n d"
| "vsc_ioctl_fops Poll E f d = vsc_dev_poll f d"
| "vsc_ioctl_fops (Ioctl cmd arg) E f d = vsc_dev_ioctl E f cmd arg d"
| "vsc_ioctl_fops (Compat_ioctl cmd arg) E f d = vsc_dev_compat_ioctl E f cmd arg d"

subsection \<open>The character device\<close>

text \<open>
  What the module creates and destroys. A pointer is \<open>NULL\<close> (\<open>None\<close>), \<open>ERR_PTR(e)\<close> (\<open>Some (Inl e)\<close>) or an
  object. \<open>major\<close>, \<open>cls\<close> and \<open>dev\<close> are the results of \<open>register_chrdev\<close>, \<open>class_create\<close> and
  \<open>device_create\<close>; the initialisation returns its result, \<open>vsc_class\<close> and the calls it made.
\<close>

datatype kres = Proc_root | Chrdev | Cls | Dev | Slab | Pool

datatype kcall = Create kres | Destroy kres

definition IS_ERR :: "(int + nat) option \<Rightarrow> bool" where
  "IS_ERR p = (case p of Some (Inl e) \<Rightarrow> True | _ \<Rightarrow> False)"

definition ioctl_unwind :: "int \<Rightarrow> (int + nat) option \<Rightarrow> (int + nat) option \<Rightarrow> (int + nat) option \<times> kcall list" where
  "ioctl_unwind majorno vsc_class vsc_dev =
     (if IS_ERR vsc_class then vsc_class else None,
      (if \<not> IS_ERR vsc_dev then [Destroy Dev] else []) @
      (if \<not> IS_ERR vsc_class then [Destroy Cls] else []) @
      (if 0 \<le> majorno then [Destroy Chrdev] else []))"

definition vsc_ioctl_init ::
  "int \<Rightarrow> int + nat \<Rightarrow> int + nat \<Rightarrow> (int + nat) option \<Rightarrow> int \<times> (int + nat) option \<times> kcall list" where
  "vsc_ioctl_init major cls dev vsc_class =
     (if major < 0 then
        (let (c, undo) = ioctl_unwind major vsc_class None in (major, c, undo))
      else case cls of
        Inl e \<Rightarrow> (let (c, undo) = ioctl_unwind major (Some cls) None in (e, c, Create Chrdev # undo))
      | Inr k \<Rightarrow>
          (case dev of
             Inl e \<Rightarrow> (let (c, undo) = ioctl_unwind major (Some cls) (Some dev)
                      in (e, c, [Create Chrdev, Create Cls] @ undo))
           | Inr _ \<Rightarrow> (0, Some cls, [Create Chrdev, Create Cls, Create Dev])))"

definition vsc_ioctl_exit :: "(int + nat) option \<Rightarrow> (int + nat) option \<times> kcall list" where
  "vsc_ioctl_exit vsc_class = (None, [Destroy Dev, Destroy Cls, Destroy Chrdev])"

end
