(* ===== verification/Vsc_Files.thy ===== *)
theory Vsc_Files
  imports Vsc_Ioctl
begin

text \<open>
  What the device file guarantees as a whole. \<open>dev_inv\<close> is the invariant of the driver between
  two calls: the invariants of every host, of the lists of hosts and of the files. Every call of
  \<open>vsc_ioctl_fops\<close>, of any file and with any argument, keeps it and loses no command.
\<close>

subsection \<open>The invariant\<close>

definition files_ok :: "vsc_dev \<Rightarrow> bool" where
  "files_ok d \<longleftrightarrow> (\<forall>f a. private_data d f = Some a \<longrightarrow>
     a \<in> set (live (dsys d)) \<and> h_file (hosts (dworld d) a) = Some f)"

definition mgr_hosts :: "nat set \<Rightarrow> vsc_world \<Rightarrow> bool" where
  "mgr_hosts S w \<longleftrightarrow>
     (\<forall>mp\<in>set (g_host_mgr_list w). length (host_list (mgrs w mp)) = MAX_HOST_NR_PER_VBS \<and>
        (\<forall>b. Some b \<in> set (host_list (mgrs w mp)) \<longrightarrow> b \<in> S)) \<and>
     (\<forall>a\<in>S. \<forall>mp. silbing_hosts (hosts w a) = Some mp \<longrightarrow> mp \<in> set (g_host_mgr_list w))"

text \<open>Every command in flight points to its buffer.\<close>

definition scribbled :: "nat \<Rightarrow> vsc_ctrl_info \<Rightarrow> midlayer \<Rightarrow> bool" where
  "scribbled a h m \<longleftrightarrow> (\<forall>c\<in>set (allQ h). \<forall>sc. scsi_cmd (cmd_of h c) = Some sc \<longrightarrow>
     host_scribble (scmds m sc) = Some (a, c))"

definition block_ok :: "nat \<Rightarrow> nat multiset \<Rightarrow> vsc_ctrl_info \<Rightarrow> midlayer \<Rightarrow> bool" where
  "block_ok a HE h m \<longleftrightarrow> phases_ok h \<and> cdbs_ok h m \<and> scribbled a h m \<and> event_inv HE h \<and>
     scsi_host h \<noteq> None \<and> reqQ h = []"

text \<open>
  \<open>S\<close> are the blocks that ever existed, \<open>H\<close> and \<open>G\<close> the references to command and event buffers held
  by error handlers that sleep. A block that was released has nothing in flight and no events.
\<close>

definition dev_inv ::
  "nat set \<Rightarrow> (nat \<Rightarrow> nat multiset) \<Rightarrow> (nat \<Rightarrow> nat multiset) \<Rightarrow> vsc_dev \<Rightarrow> bool" where
  "dev_inv S H G d \<longleftrightarrow> world_inv S H (dworld d) \<and> mgr_hosts S (dworld d) \<and> set (live (dsys d)) \<subseteq> S \<and>
     distinct (live (dsys d)) \<and> (\<forall>a\<in>S - set (live (dsys d)). inflight (hosts (dworld d) a) = {#}) \<and>
     (\<forall>a. a \<notin> set (live (dsys d)) \<longrightarrow> G a = {#}) \<and>
     (\<forall>a\<in>set (live (dsys d)). block_ok a (G a) (hosts (dworld d) a) (mid (dworld d))) \<and> files_ok d"

definition dev_flight :: "nat set \<Rightarrow> vsc_dev \<Rightarrow> nat multiset" where
  "dev_flight S d = winflight S (dworld d) + completed (mid (dworld d))"

subsection \<open>What the middle layer leaves alone\<close>

text \<open>
  The calls themselves change no command and complete none; the commands a probe sends are
  steps of their own.
\<close>

definition api_quiet :: "scsi_api \<Rightarrow> bool" where
  "api_quiet api \<longleftrightarrow>
     (\<forall>d m. scmds (snd (scsi_device_get api d m)) = scmds m \<and> done_log (snd (scsi_device_get api d m)) = done_log m) \<and>
     (\<forall>d m. scmds (scsi_device_put api d m) = scmds m \<and> done_log (scsi_device_put api d m) = done_log m) \<and>
     (\<forall>d st m. scmds (snd (scsi_device_set_state api d st m)) = scmds m \<and>
        done_log (snd (scsi_device_set_state api d st m)) = done_log m) \<and>
     (\<forall>sh c t l m. scmds (snd (scsi_add_device api sh c t l m)) = scmds m \<and>
        done_log (snd (scsi_add_device api sh c t l m)) = done_log m) \<and>
     (\<forall>d m. scmds (scsi_remove_device api d m) = scmds m \<and> done_log (scsi_remove_device api d m) = done_log m)"

definition quiet :: "midlayer \<Rightarrow> midlayer \<Rightarrow> bool" where
  "quiet m m' \<longleftrightarrow> scmds m' = scmds m \<and> done_log m' = done_log m"

lemma quiet_refl [simp]: "quiet m m"
  by (simp add: quiet_def)

lemma quiet_trans: "quiet m m' \<Longrightarrow> quiet m' m'' \<Longrightarrow> quiet m m''"
  by (simp add: quiet_def)

lemma quiet_upd_sdev [simp]: "quiet m (upd_sdev d f m') = quiet m m'"
  by (simp add: quiet_def upd_sdev_def)

lemma quiet_calls:
  assumes "api_quiet api"
  shows "quiet m (snd (scsi_device_get api d m')) = quiet m m'" "quiet m (scsi_device_put api d m') = quiet m m'"
    "quiet m (snd (scsi_device_set_state api d st m')) = quiet m m'"
    "quiet m (snd (scsi_add_device api sh c t l m')) = quiet m m'"
    "quiet m (scsi_remove_device api d m') = quiet m m'"
  using assms by (simp_all add: api_quiet_def quiet_def)

lemma quiet_lookups:
  assumes "api_quiet api"
  shows "quiet m (snd (vsc_scsi_device_lookup api sh c t l m'))  = quiet m m'"
    "quiet m (snd (vsc_scsi_device_lookup_by_vol_name api sh name m')) = quiet m m'"
    "quiet m (snd (probe_device api sh c t l m')) = quiet m m'"
proof -
  have found: "quiet m (snd (device_get_found api x m')) = quiet m m'" for x m'
    using quiet_calls(1) [OF assms] by (simp add: device_get_found_def split_beta Let_def split: option.split)
  then show lk: "quiet m (snd (vsc_scsi_device_lookup api sh c t l m')) = quiet m m'"
    "quiet m (snd (vsc_scsi_device_lookup_by_vol_name api sh name m')) = quiet m m'"
    by (simp_all add: vsc_scsi_device_lookup_def vsc_scsi_device_lookup_by_vol_name_def)
  show "quiet m (snd (probe_device api sh c t l m')) = quiet m m'"
    using lk(1) quiet_calls(2,4) [OF assms]
    by (simp add: probe_device_def split_beta split: option.split)
qed

lemma quiet_devices:
  assumes api: "api_quiet api"
  shows "vsc_add_device api hp c t l m = Some (r, m') \<Longrightarrow> quiet m m'"
    "vsc_add_device_by_vol_name api hp c t l name m = Some (r, m') \<Longrightarrow> quiet m m'"
    "vsc_rmv_device api hp c t l m = (r, m') \<Longrightarrow> quiet m m'"
    "vsc_set_delete_by_vol_name api hp name m = (r, m') \<Longrightarrow> quiet m m'"
    "vsc_set_device_stat api hp c t l st m = Some (r, m') \<Longrightarrow> quiet m m'"
    "vsc_get_device_stat api hp c t l wanted m = Some (r, st', m') \<Longrightarrow> quiet m m'"
    "vsc_set_device_rq_timeout api hz hp c t l n m = Some (r, m') \<Longrightarrow> quiet m m'"
proof -
  note q = quiet_calls [OF api] quiet_lookups [OF api]
  have probed: "quiet m m'" if "probe_device api sh c t l m = (r, m')" for sh
    using q(8) [of m sh c t l m] that by simp
  show "vsc_add_device api hp c t l m = Some (r, m') \<Longrightarrow> quiet m m'"
    by (auto simp: vsc_add_device_def bind_eq_Some_conv Let_def split_beta q split: option.splits if_splits)
  show "vsc_add_device_by_vol_name api hp c t l name m = Some (r, m') \<Longrightarrow> quiet m m'"
    by (auto simp: vsc_add_device_by_vol_name_def bind_eq_Some_conv Let_def split_beta q
        dest: probed split: option.splits if_splits)
  show "vsc_rmv_device api hp c t l m = (r, m') \<Longrightarrow> quiet m m'"
    by (auto simp: vsc_rmv_device_def split_beta q split: option.splits if_splits)
  show "vsc_set_delete_by_vol_name api hp name m = (r, m') \<Longrightarrow> quiet m m'"
    by (auto simp: vsc_set_delete_by_vol_name_def split_beta q split: option.splits if_splits)
  show "vsc_set_device_stat api hp c t l st m = Some (r, m') \<Longrightarrow> quiet m m'"
    by (auto simp: vsc_set_device_stat_def bind_eq_Some_conv Let_def split_beta q split: option.splits if_splits)
  show "vsc_get_device_stat api hp c t l wanted m = Some (r, st', m') \<Longrightarrow> quiet m m'"
    by (auto simp: vsc_get_device_stat_def bind_eq_Some_conv split_beta q split: option.splits if_splits)
  show "vsc_set_device_rq_timeout api hz hp c t l n m = Some (r, m') \<Longrightarrow> quiet m m'"
    by (auto simp: vsc_set_device_rq_timeout_def vsc_blk_queue_rq_timeout_def bind_eq_Some_conv split_beta q
        split: option.splits if_splits)
qed

lemma quiet_offline:
  assumes "api_quiet api"
  shows "quiet m0 m \<Longrightarrow> quiet m0 (offline_devices api prev ds m)"
  by (induction ds arbitrary: prev m)
    (use quiet_calls [OF assms] in \<open>auto simp: split_beta Let_def split: option.splits\<close>)

subsection \<open>Emptying a host changes no request\<close>

lemma set_self_blocked_cdbs [simp]:
  "same_cdbs m (mid (set_self_blocked shp b w)) = same_cdbs m (mid w)"
  "same_cdbs (mid (set_self_blocked shp b w)) m = same_cdbs (mid w) m"
  by (simp_all add: same_cdbs_def)

lemma set_self_blocked_list [simp]: "g_host_mgr_list (set_self_blocked shp b w) = g_host_mgr_list w"
  by (simp add: set_self_blocked_def)

lemma fail_host_frame:
  assumes "host_inv H (hosts w a)" "fail_host a w = Some w'"
  shows "same_cdbs (mid w) (mid w')" "g_host_mgr_list w' = g_host_mgr_list w"
    "scsi_cmd (cmd_of (hosts w' b) j) = scsi_cmd (cmd_of (hosts w b) j)"
proof -
  from assms(2) obtain r1 r3 w1 where w1: "vsc_resume_host (Some a) w = Some (r1, w1)"
    and w3: "vsc_abort_all_cmd (Some a) (upd_host a (snd (vsc_abort_all_event (hosts w1 a))) w1) = Some (r3, w')"
    by (auto simp: fail_host_def bind_eq_Some_conv Let_def)
  have same1: "same_cdbs (mid w) (mid w1)" "g_host_mgr_list w1 = g_host_mgr_list w"
    "same_cmds (hosts w a) (hosts w1 a)" "\<And>b. b \<noteq> a \<Longrightarrow> hosts w1 b = hosts w b"
    using w1 by (auto simp: vsc_resume_host_def bind_eq_Some_conv Let_def set_self_blocked_def same_cdbs_def)
  note same2 = same_cmds_trans [OF same1(3) same_cmds_abort_all_event]
  let ?w2 = "upd_host a (snd (vsc_abort_all_event (hosts w1 a))) w1"
  have inv: "host_inv H (hosts ?w2 a)" using host_inv_same_cmds [OF same2] assms(1) by simp
  note f = abort_cb.all_cmd_frame [OF inv w3 [unfolded all_cmd_eq(1)]]
  show "same_cdbs (mid w) (mid w')" "g_host_mgr_list w' = g_host_mgr_list w"
    using same1(1,2) f(1,3) by (auto intro: same_cdbs_trans)
  show "scsi_cmd (cmd_of (hosts w' b) j) = scsi_cmd (cmd_of (hosts w b) j)"
    using f(4) [of b j] cmd_of_same_cmds [OF same2] same1(4) by (cases "b = a") simp_all
qed

lemma detach_finish_frame:
  assumes "host_inv H (hosts w a)" "detach_finish hz jiffies a t w = Some (r, w')"
  shows "same_cdbs (mid w) (mid w')" "g_host_mgr_list w' = g_host_mgr_list w"
    "scsi_cmd (cmd_of (hosts w' b) j) = scsi_cmd (cmd_of (hosts w b) j)"
proof -
  from assms(2) obtain shp r3 w3 where
    w3: "vsc_requeue_all_cmd (Some a) (upd_host a (snd (vsc_abort_all_event (hosts w a)))
           (set_self_blocked shp True w)) = Some (r3, w3)"
    and w': "w' = w3 \<or> w' = upd_host a (detach_arm hz jiffies t
        (if waitqueue_active (hosts w3 a) then wake_up_queue (hosts w3 a) else hosts w3 a)) w3"
    by (auto simp: detach_finish_def vsc_abort_all_event_def bind_eq_Some_conv Let_def split: if_splits)
  let ?w2 = "upd_host a (snd (vsc_abort_all_event (hosts w a))) (set_self_blocked shp True w)"
  note same = same_cmds_abort_all_event [of "hosts w a"]
  have inv: "host_inv H (hosts ?w2 a)" using host_inv_same_cmds [OF same] assms(1) by simp
  note f = requeue_cb.all_cmd_frame [OF inv w3 [unfolded all_cmd_eq(2)]]
  show "same_cdbs (mid w) (mid w')" "g_host_mgr_list w' = g_host_mgr_list w"
    using f(1,3) w' by auto
  have "same_cmds (hosts w3 b) (hosts w' b)"
    using w' same_cmds_trans [OF _ detach_arm_simps(1)]
    by (cases "b = a") (auto simp: wake_up_queue_def same_cmds_def)
  then show "scsi_cmd (cmd_of (hosts w' b) j) = scsi_cmd (cmd_of (hosts w b) j)"
    using f(4) [of b j] cmd_of_same_cmds [OF same] cmd_of_same_cmds by (cases "b = a") simp_all
qed

subsection \<open>One call\<close>

text \<open>
  The step every call makes: it keeps the buffers that handlers hold, and drops references to events
  only on the hosts \<open>D\<close>.
\<close>

definition dev_step ::
  "nat set \<Rightarrow> (nat \<Rightarrow> nat multiset) \<Rightarrow> (nat \<Rightarrow> nat multiset) \<Rightarrow> nat set \<Rightarrow> vsc_dev \<Rightarrow> vsc_dev \<Rightarrow> bool" where
  "dev_step S H G D d d' \<longleftrightarrow> (\<exists>S' G'. S \<subseteq> S' \<and> (\<forall>b. G' b \<subseteq># G b) \<and> (\<forall>b. b \<notin> D \<longrightarrow> G' b = G b) \<and>
     dev_inv S' H G' d' \<and> dev_flight S' d' = dev_flight S d \<and>
     (\<forall>b c. c \<in># H b \<longrightarrow> scsi_cmd (cmd_of (hosts (dworld d') b) c) = scsi_cmd (cmd_of (hosts (dworld d) b) c)))"

lemma dev_stepI:
  assumes "S \<subseteq> S'" "dev_inv S' H G d'" "dev_flight S' d' = dev_flight S d"
    and "\<And>b c. c \<in># H b \<Longrightarrow> scsi_cmd (cmd_of (hosts (dworld d') b) c) = scsi_cmd (cmd_of (hosts (dworld d) b) c)"
  shows "dev_step S H G D d d'"
  unfolding dev_step_def using assms by (intro exI [of _ S'] exI [of _ G]) simp

lemma set_world_simps [simp]:
  "dworld (set_world w d) = w" "live (dsys (set_world w d)) = live (dsys d)"
  "private_data (set_world w d) = private_data d" "f_nonblock (set_world w d) = f_nonblock d"
  "user_mem (set_world w d) = user_mem d" "sys (dsys (set_mid m d)) = dworld d\<lparr>mid := m\<rparr>"
  "live (dsys (set_mid m d)) = live (dsys d)" "private_data (set_mid m d) = private_data d"
  by (simp_all add: set_world_def set_mid_def)

lemma set_world_twice: "set_world w (set_world v d) = set_world w d"
  by (simp add: set_world_def)

lemma dev_inv_cong:
  assumes "dworld d' = dworld d" "live (dsys d') = live (dsys d)" "private_data d' = private_data d"
  shows "dev_inv S H G d' = dev_inv S H G d" "dev_flight S d' = dev_flight S d"
  using assms by (simp_all add: dev_inv_def files_ok_def dev_flight_def)

lemma dev_step_cong:
  assumes "dev_inv S H G d" "dworld d' = dworld d" "live (dsys d') = live (dsys d)" "private_data d' = private_data d"
  shows "dev_step S H G D d d'"
  using assms dev_inv_cong [OF assms(2-4)] by (intro dev_stepI [OF subset_refl]) simp_all

lemma copy_out_same [simp]:
  "dworld (snd (copy_out p bs d)) = dworld d" "live (dsys (snd (copy_out p bs d))) = live (dsys d)"
  "private_data (snd (copy_out p bs d)) = private_data d"
  by (simp_all add: copy_out_def split_beta Let_def)

lemma dev_step_copy_out: "dev_step S H G D d d1 \<Longrightarrow> dev_step S H G D d (snd (copy_out p bs d1))"
  unfolding dev_step_def using dev_inv_cong [of "snd (copy_out p bs d1)" d1] by simp

lemma cdbs_same_cdbs: "same_cdbs m m' \<Longrightarrow> cdbs_ok h m' = cdbs_ok h m"
  by (simp add: cdbs_ok_def same_cdbs_def)

lemma block_ok_same_cdbs: "same_cdbs m m' \<Longrightarrow> block_ok a HE h m' = block_ok a HE h m"
  by (simp add: block_ok_def cdbs_same_cdbs) (simp add: scribbled_def same_cdbs_def)

lemma quiet_cdbs: "quiet m m' \<Longrightarrow> same_cdbs m m' \<and> completed m' = completed m"
  by (simp add: quiet_def same_cdbs_def completed_def)

lemma dev_step_quiet:
  assumes "dev_inv S H G d" "quiet (mid (dworld d)) m"
  shows "dev_step S H G D d (set_mid m d)"
proof -
  note q = quiet_cdbs [OF assms(2)]
  have "dev_inv S H G (set_mid m d) = dev_inv S H G d"
    using block_ok_same_cdbs [OF conjunct1 [OF q]] by (simp add: dev_inv_def files_ok_def mgr_hosts_def)
  with q assms(1) show ?thesis by (intro dev_stepI [OF subset_refl]) (simp_all add: dev_flight_def)
qed

text \<open>A call that changes one live host.\<close>

lemma flight_swap:
  fixes x :: "nat multiset"
  assumes "f' + c' = f + c" "x' + f = x + f'"
  shows "x' + c' + f = x + c + f"
proof -
  have "x' + c' + f = x' + f + c'" by (simp add: add_ac)
  also have "\<dots> = x + (f' + c')" using assms(2) by (simp add: add_ac)
  also have "\<dots> = x + c + f" using assms(1) by (simp add: add_ac)
  finally show ?thesis .
qed

lemma dev_step_host:
  assumes inv: "dev_inv S H G d" and a: "a \<in> set (live (dsys d))"
    and others: "\<forall>b. b \<noteq> a \<longrightarrow> hosts (dworld d') b = hosts (dworld d) b"
    and lists: "mgrs (dworld d') = mgrs (dworld d)" "g_host_mgr_list (dworld d') = g_host_mgr_list (dworld d)"
      "live (dsys d') = live (dsys d)"
    and host: "host_inv (H a) (hosts (dworld d') a)" "block_ok a HE (hosts (dworld d') a) (mid (dworld d'))"
      "silbing_hosts (hosts (dworld d') a) = silbing_hosts (hosts (dworld d) a)"
      "\<And>j. scsi_cmd (cmd_of (hosts (dworld d') a) j) = scsi_cmd (cmd_of (hosts (dworld d) a) j)"
    and events: "HE \<subseteq># G a" "a \<notin> D \<Longrightarrow> HE = G a"
    and mid: "same_cdbs (mid (dworld d)) (mid (dworld d'))" and "files": "files_ok d'"
    and flight: "inflight (hosts (dworld d') a) + completed (mid (dworld d')) =
      inflight (hosts (dworld d) a) + completed (mid (dworld d))"
  shows "dev_step S H G D d d'"
proof -
  let ?w = "dworld d" and ?w' = "dworld d'"
  have S: "a \<in> S" "finite S" using inv a by (auto simp: dev_inv_def world_inv_def)
  have b: "hosts ?w' b = (if b = a then hosts ?w' a else hosts ?w b)" for b using others by simp
  have "host_inv (H b) (hosts ?w' b)" if "b \<in> S" for b
    using inv that host(1) by (subst b) (auto simp: dev_inv_def world_inv_def)
  moreover have sil: "silbing_hosts (hosts ?w' b) = silbing_hosts (hosts ?w b)" for b
    using host(3) by (subst b) simp
  ultimately have "world_inv S H ?w'"
    using inv lists by (simp add: dev_inv_def world_inv_def)
  moreover have "mgr_hosts S ?w'"
    using inv lists sil by (simp add: dev_inv_def mgr_hosts_def)
  moreover have "block_ok b ((G(a := HE)) b) (hosts ?w' b) (mid ?w')" if "b \<in> set (live (dsys d))" for b
  proof (cases "b = a")
    case False
    then have "block_ok b (G b) (hosts ?w b) (mid ?w)" "hosts ?w' b = hosts ?w b"
      using inv that others by (auto simp: dev_inv_def)
    then show ?thesis using block_ok_same_cdbs [OF mid] False by simp
  qed (use host(2) in simp)
  moreover have "inflight (hosts ?w' b) = {#}" if "b \<in> S - set (live (dsys d))" for b
  proof -
    have "b \<noteq> a" using that a by auto
    then show ?thesis using inv that others by (auto simp: dev_inv_def)
  qed
  ultimately have "dev_inv S H (G(a := HE)) d'"
    using inv lists "files" a by (auto simp: dev_inv_def)
  moreover have "winflight S ?w' = winflight S (upd_host a (hosts ?w' a) ?w)"
    unfolding winflight_def using others by (intro sum.cong) auto
  then have "winflight S ?w' + inflight (hosts ?w a) = winflight S ?w + inflight (hosts ?w' a)"
    using winflight_upd_host [OF S(2,1), of "hosts ?w' a" ?w] by simp
  with flight have "dev_flight S d' + inflight (hosts ?w a) = dev_flight S d + inflight (hosts ?w a)"
    unfolding dev_flight_def by (rule flight_swap)
  then have "dev_flight S d' = dev_flight S d" by simp
  moreover have "scsi_cmd (cmd_of (hosts ?w' b) c) = scsi_cmd (cmd_of (hosts ?w b) c)" for b c
    using host(4) others by (cases "b = a") simp_all
  ultimately show ?thesis
    unfolding dev_step_def using events by (intro exI [of _ S] exI [of _ "G(a := HE)"]) auto
qed

lemma dev_step_trans:
  assumes "dev_step S H G D d d1" "\<And>S G. dev_inv S H G d1 \<Longrightarrow> dev_step S H G D d1 d'"
  shows "dev_step S H G D d d'"
proof -
  obtain S1 G1 where S1: "S \<subseteq> S1" "\<forall>b. G1 b \<subseteq># G b" "\<forall>b. b \<notin> D \<longrightarrow> G1 b = G b" "dev_inv S1 H G1 d1"
    "dev_flight S1 d1 = dev_flight S d"
    "\<forall>b c. c \<in># H b \<longrightarrow> scsi_cmd (cmd_of (hosts (dworld d1) b) c) = scsi_cmd (cmd_of (hosts (dworld d) b) c)"
    using assms(1) unfolding dev_step_def by blast
  from assms(2) [OF S1(4)] obtain S' G' where S': "S1 \<subseteq> S'" "\<forall>b. G' b \<subseteq># G1 b" "\<forall>b. b \<notin> D \<longrightarrow> G' b = G1 b"
    "dev_inv S' H G' d'" "dev_flight S' d' = dev_flight S1 d1"
    "\<forall>b c. c \<in># H b \<longrightarrow> scsi_cmd (cmd_of (hosts (dworld d') b) c) = scsi_cmd (cmd_of (hosts (dworld d1) b) c)"
    unfolding dev_step_def by blast
  have "G' b \<subseteq># G b" for b using S1(2) S'(2) by (meson subset_mset.order_trans)
  with S1 S' show ?thesis
    unfolding dev_step_def by (intro exI [of _ S'] exI [of _ G']) auto
qed

text \<open>\<open>control\<close> fields only: everything the commands and events use is the same.\<close>

lemma dev_step_control:
  assumes inv: "dev_inv S H G d" and a: "a \<in> set (live (dsys d))"
    and others: "\<forall>b. b \<noteq> a \<longrightarrow> hosts (dworld d') b = hosts (dworld d) b"
    and lists: "mgrs (dworld d') = mgrs (dworld d)" "g_host_mgr_list (dworld d') = g_host_mgr_list (dworld d)"
      "live (dsys d') = live (dsys d)"
    and same: "same_cmds (hosts (dworld d) a) (hosts (dworld d') a)"
      "same_events (hosts (dworld d) a) (hosts (dworld d') a)"
      "silbing_hosts (hosts (dworld d') a) = silbing_hosts (hosts (dworld d) a)"
      "scsi_host (hosts (dworld d') a) = scsi_host (hosts (dworld d) a)"
    and mid: "quiet (mid (dworld d)) (mid (dworld d'))" and "files": "files_ok d'"
  shows "dev_step S H G D d d'"
proof (rule dev_step_host [OF inv a others lists])
  let ?h = "hosts (dworld d) a" and ?h' = "hosts (dworld d') a"
  note q = quiet_cdbs [OF mid]
  have ok: "host_inv (H a) ?h" "block_ok a (G a) ?h (mid (dworld d))"
    using inv a by (auto simp: dev_inv_def world_inv_def)
  show "host_inv (H a) ?h'" using ok(1) host_inv_same_cmds [OF same(1)] by simp
  have "cdbs_ok ?h' (mid (dworld d)) = cdbs_ok ?h (mid (dworld d))" "reqQ ?h' = reqQ ?h"
    "scribbled a ?h' (mid (dworld d)) = scribbled a ?h (mid (dworld d))"
    using same(1) by (simp_all add: cdbs_ok_def scribbled_def same_cmds_def allQ_def)
  then have "block_ok a (G a) ?h' (mid (dworld d))"
    using ok(2) phases_same_cmds [OF same(1)] event_inv_same_events [OF same(2)] same(4) by (simp add: block_ok_def)
  then show "block_ok a (G a) ?h' (mid (dworld d'))" using block_ok_same_cdbs [OF conjunct1 [OF q]] by simp
  show "scsi_cmd (cmd_of ?h' j) = scsi_cmd (cmd_of ?h j)" for j by (simp add: cmd_of_same_cmds [OF same(1)])
  show "inflight ?h' + completed (mid (dworld d')) = inflight ?h + completed (mid (dworld d))"
    using inflight_same_cmds [OF same(1)] q by simp
qed (use same(3) "files" quiet_cdbs [OF mid] in auto)

lemma dev_step_refl: "dev_inv S H G d \<Longrightarrow> dev_step S H G D d d"
  by (rule dev_step_cong) simp_all

subsection \<open>The ioctls of disks\<close>

lemma on_host_cases:
  assumes "on_host hno d f = Some (r, d')"
  obtains "d' = d" | a where "a \<in> set (live (dsys d))" "f a = Some (r, d')"
  using assms by (auto simp: on_host_def split: option.splits if_splits)

lemma arg_cases:
  assumes "(case take_arg E n p d of Inl e \<Rightarrow> Some (e, d) | Inr bs \<Rightarrow> f bs) = Some (r, d')"
  obtains "d' = d" | bs where "take_arg E n p d = Inr bs" "f bs = Some (r, d')"
  using assms by (auto split: sum.splits)

lemma bind_SomeE: "Option.bind x f = Some y \<Longrightarrow> (\<And>z. x = Some z \<Longrightarrow> f z = Some y \<Longrightarrow> P) \<Longrightarrow> P"
  by (cases x) simp_all

lemma case_option_SomeE:
  "(case x of None \<Rightarrow> e | Some y \<Rightarrow> f y) = Some r \<Longrightarrow> (x = None \<Longrightarrow> e = Some r \<Longrightarrow> P) \<Longrightarrow>
   (\<And>y. x = Some y \<Longrightarrow> f y = Some r \<Longrightarrow> P) \<Longrightarrow> P"
  by (cases x) simp_all

lemma if_SomeE:
  "(if b then x else y) = Some r \<Longrightarrow> (b \<Longrightarrow> x = Some r \<Longrightarrow> P) \<Longrightarrow> (\<not> b \<Longrightarrow> y = Some r \<Longrightarrow> P) \<Longrightarrow> P"
  by (cases b) simp_all

lemma if_refused:
  "\<exists>r. x = Some (r, d) \<and> r < (0 :: int) \<Longrightarrow> \<exists>r. y = Some (r, d) \<and> r < 0 \<Longrightarrow>
   \<exists>r. (if b then x else y) = Some (r, d) \<and> r < 0"
  by simp

lemma arg_host_cases:
  assumes "(case take_arg E n p d of Inl e \<Rightarrow> Some (e, d)
     | Inr bs \<Rightarrow> do { x \<leftarrow> dec bs; on_host (hno x) d (f x) }) = Some (r, d')"
  obtains "d' = d"
  | bs x a where "take_arg E n p d = Inr bs" "dec bs = Some x" "a \<in> set (live (dsys d))" "f x a = Some (r, d')"
  using assms by (rule arg_cases) (auto simp: bind_eq_Some_conv elim!: on_host_cases)

lemma dev_step_disks:
  assumes inv: "dev_inv S H G d" and api: "api_quiet (de_api E)"
  shows "vsc_dev_add_disk E p d = Some (r, d') \<Longrightarrow> dev_step S H G D d d'"
    "vsc_dev_add_disk_by_vol_name E p d = Some (r, d') \<Longrightarrow> dev_step S H G D d d'"
    "vsc_dev_rmv_disk E p d = Some (r, d') \<Longrightarrow> dev_step S H G D d d'"
    "vsc_dev_rmv_disk_by_vol_name E p d = Some (r, d') \<Longrightarrow> dev_step S H G D d d'"
    "vsc_dev_query_vol E p d = Some (r, d') \<Longrightarrow> dev_step S H G D d d'"
    "vsc_dev_set_disk_stat E p d = Some (r, d') \<Longrightarrow> dev_step S H G D d d'"
    "vsc_dev_get_disk_stat E p d = Some (r, d') \<Longrightarrow> dev_step S H G D d d'"
    "vsc_dev_set_disk_rq_timeout E p d = Some (r, d') \<Longrightarrow> dev_step S H G D d d'"
proof -
  note q = quiet_devices [OF api]
  have quiet: "dev_step S H G D d (set_mid m d)" if "quiet (mid (dworld d)) m" for m
    using inv that by (rule dev_step_quiet)
  have refl: "dev_step S H G D d d" using inv by (rule dev_step_refl)
  have copied: "dev_step S H G D d d'" if "copy_out p bs d1 = (r, d')" "dev_step S H G D d d1" for bs d1
    using dev_step_copy_out [OF that(2), of p bs] that(1) by simp
  show "dev_step S H G D d d'" if run: "vsc_dev_add_disk E p d = Some (r, d')"
    using run [unfolded vsc_dev_add_disk_def]
    by (rule arg_host_cases) (auto simp: refl bind_eq_Some_conv intro: quiet dest!: q)
  show "dev_step S H G D d d'" if run: "vsc_dev_add_disk_by_vol_name E p d = Some (r, d')"
    using run [unfolded vsc_dev_add_disk_by_vol_name_def]
    by (rule arg_host_cases) (auto simp: refl bind_eq_Some_conv intro: quiet dest!: q)
  show "dev_step S H G D d d'" if run: "vsc_dev_rmv_disk E p d = Some (r, d')"
    using run [unfolded vsc_dev_rmv_disk_def]
    by (rule arg_host_cases) (auto simp: refl intro: quiet q split: prod.splits)
  show "dev_step S H G D d d'" if run: "vsc_dev_rmv_disk_by_vol_name E p d = Some (r, d')"
    using run [unfolded vsc_dev_rmv_disk_by_vol_name_def]
    by (rule arg_host_cases) (auto simp: refl intro: quiet q split: prod.splits)
  show "dev_step S H G D d d'" if run: "vsc_dev_set_disk_stat E p d = Some (r, d')"
    using run [unfolded vsc_dev_set_disk_stat_def]
    by (rule arg_host_cases) (auto simp: refl bind_eq_Some_conv intro: quiet dest!: q)
  show "dev_step S H G D d d'" if run: "vsc_dev_get_disk_stat E p d = Some (r, d')"
    using run [unfolded vsc_dev_get_disk_stat_def]
    by (rule arg_host_cases)
      (auto simp: refl bind_eq_Some_conv Let_def intro: quiet refl elim: copied dest!: q split: if_splits)
  show "dev_step S H G D d d'" if run: "vsc_dev_set_disk_rq_timeout E p d = Some (r, d')"
    using run [unfolded vsc_dev_set_disk_rq_timeout_def]
    by (elim arg_cases bind_SomeE case_option_SomeE) 
      (use refl in \<open>auto simp: bind_eq_Some_conv intro: quiet dest!: q split: if_splits\<close>)
  show "dev_step S H G D d d'" if run: "vsc_dev_query_vol E p d = Some (r, d')"
  proof (cases "p = 0 \<or> \<not> capable E \<or> \<not> kzalloc_ok E")
    case False
    then show ?thesis
      using run [unfolded vsc_dev_query_vol_def]
      by simp (erule arg_host_cases, simp add: refl, auto simp: bind_eq_Some_conv elim: copied [OF _ refl])
  qed (use run refl in \<open>auto simp: vsc_dev_query_vol_def split: if_splits\<close>)
qed

subsection \<open>The ioctls of hosts\<close>

lemma dev_inv_live:
  assumes "dev_inv S H G d" "a \<in> set (live (dsys d))"
  shows "a \<in> S" "world_inv S H (dworld d)" "host_inv (H a) (hosts (dworld d) a)"
    "block_ok a (G a) (hosts (dworld d) a) (mid (dworld d))" "files_ok d"
  using assms by (auto simp: dev_inv_def world_inv_def)

lemma files_ok_same:
  assumes "files_ok d" "private_data d' = private_data d" "live (dsys d') = live (dsys d)"
    and "\<And>b. h_file (hosts (dworld d') b) = h_file (hosts (dworld d) b)"
  shows "files_ok d'"
  using assms by (simp add: files_ok_def)

lemma dev_step_set_tg:
  assumes inv: "dev_inv S H G d" and run: "vsc_dev_set_tg_abn_timeout E p d = Some (r, d')"
  shows "dev_step S H G D d d'"
proof -
  have refl: "dev_step S H G D d d" using inv by (rule dev_step_refl)
  have set: "dev_step S H G D d (set_world (upd_host a ((hosts (dworld d) a)\<lparr>target_abnormal_time := t\<rparr>) (dworld d)) d)"
    if "a \<in> set (live (dsys d))" for a t
    by (rule dev_step_control [OF inv that])
      (use dev_inv_live [OF inv that] in \<open>auto simp: same_cmds_def same_events_def intro: files_ok_same\<close>)
  show ?thesis
    using run [unfolded vsc_dev_set_tg_abn_timeout_def]
    by (elim arg_cases bind_SomeE)
      (use refl in \<open>auto simp: vsc_set_tg_abn_timeout_def intro: set elim!: on_host_cases split: if_splits\<close>)
qed

lemma dev_step_suspend_resume:
  assumes inv: "dev_inv S H G d"
  shows "vsc_dev_suspend_host f d = Some (r, d') \<Longrightarrow> dev_step S H G D d d'"
    "vsc_dev_resume_host f d = Some (r, d') \<Longrightarrow> dev_step S H G D d d'"
proof -
  have refl: "dev_step S H G D d d" using inv by (rule dev_step_refl)
  have set: "dev_step S H G D d (set_world (upd_host a ((hosts (dworld d) a)\<lparr>suspend := s\<rparr>)
      (set_self_blocked shp b (dworld d))) d)" if "a \<in> set (live (dsys d))" for a b s shp
    by (rule dev_step_control [OF inv that])
      (use dev_inv_live [OF inv that] in
        \<open>auto simp: same_cmds_def same_events_def quiet_def set_self_blocked_def intro: files_ok_same\<close>)
  show "vsc_dev_suspend_host f d = Some (r, d') \<Longrightarrow> dev_step S H G D d d'"
    using refl by (auto simp: vsc_dev_suspend_host_def vsc_suspend_host_def bind_eq_Some_conv Let_def intro: set
        split: option.splits if_splits)
  show "vsc_dev_resume_host f d = Some (r, d') \<Longrightarrow> dev_step S H G D d d'"
    using refl by (auto simp: vsc_dev_resume_host_def vsc_resume_host_def bind_eq_Some_conv Let_def intro: set
        split: option.splits if_splits)
qed

text \<open>Attaching: an error leaves the host as it was; otherwise only control fields change.\<close>

lemma attach_effect:
  assumes "vsc_scsi_attach (Some a) (Some f) w = Some (r, w')"
  shows "quiet (mid w) (mid w')" "mgrs w' = mgrs w" "g_host_mgr_list w' = g_host_mgr_list w"
    "\<forall>b. b \<noteq> a \<longrightarrow> hosts w' b = hosts w b" "same_cmds (hosts w a) (hosts w' a)" "same_events (hosts w a) (hosts w' a)"
    "silbing_hosts (hosts w' a) = silbing_hosts (hosts w a)" "scsi_host (hosts w' a) = scsi_host (hosts w a)"
    "h_file (hosts w' a) = (if r = 0 then Some f else h_file (hosts w a))" "r = 0 \<Longrightarrow> h_file (hosts w a) = None"
  using assms
  by (auto simp: vsc_scsi_attach_def attach_finish_def attach_take_def target_lock_inc_def target_lock_dec_def
      vsc_resume_host_def bind_eq_Some_conv Let_def same_cmds_def same_events_def quiet_def set_self_blocked_def
      split: if_splits)

lemma dev_step_attach:
  assumes inv: "dev_inv S H G d" and run: "vsc_dev_attach_host E f p d = Some (r, d')"
  shows "dev_step S H G D d d'"
proof -
  have refl: "dev_step S H G D d d" using inv by (rule dev_step_refl)
  have att: "dev_step S H G D d d1"
    if a: "a \<in> set (live (dsys d))" and w: "vsc_scsi_attach (Some a) (Some f) (dworld d) = Some (x, w)"
      and d': "d1 = (if x \<noteq> 0 then set_world w d
        else (set_world w d)\<lparr>private_data := (private_data d)(f := Some a)\<rparr>)" for a x w d1
  proof -
    note e = attach_effect [OF w]
    have w': "dworld d1 = w" "live (dsys d1) = live (dsys d)"
      "private_data d1 = (if x = 0 then (private_data d)(f := Some a) else private_data d)"
      by (simp_all add: d')
    have own: "h_file (hosts w b) = (if b = a \<and> x = 0 then Some f else h_file (hosts (dworld d) b))" for b
      using e(4,9) by (cases "b = a") auto
    have "files_ok d1"
      using dev_inv_live(5) [OF inv a] a e(10) by (auto simp: files_ok_def w' own)
    then show ?thesis
      using e by (intro dev_step_control [OF inv a]) (simp_all add: w')
  qed
  have att0: "dev_step S H G D d (set_world w d)"
    if "a \<in> set (live (dsys d))" "vsc_scsi_attach (Some a) (Some f) (dworld d) = Some (x, w)" "x \<noteq> 0" for a x w
    using att [OF that(1,2)] that(3) by simp
  have att1: "dev_step S H G D d ((set_world w d)\<lparr>private_data := (private_data d)(f := Some a)\<rparr>)"
    if "a \<in> set (live (dsys d))" "vsc_scsi_attach (Some a) (Some f) (dworld d) = Some (0, w)" for a w
    using att [OF that] by simp
  show ?thesis
    using run refl
    by (auto simp: vsc_dev_attach_host_def bind_eq_Some_conv Let_def split_beta
        split: if_splits prod.splits elim!: on_host_cases) (metis att0 att1)+
qed

lemma block_empty_ok:
  assumes "allQ h = []" "event_inv HE h" "scsi_host h \<noteq> None"
  shows "block_ok a HE h m" "inflight h = {#}"
  using assms by (auto simp: block_ok_def phases_ok_def cdbs_ok_def scribbled_def inflight_def allQ_def)

lemma completed_append: "done_log m' = done_log m @ L \<Longrightarrow> completed m' = completed m + image_mset fst (mset L)"
  by (simp add: completed_def)

text \<open>Detaching: the host is emptied and every command completed.\<close>

lemma dev_step_detach:
  assumes inv: "dev_inv S H G d" and run: "detach_file E none t f d = Some (r, d')"
    and drop: "set_option (private_data d f) \<subseteq> D"
  shows "dev_step S H G D d d'"
proof (cases "private_data d f")
  case None
  then show ?thesis using run dev_step_refl [OF inv] by (simp add: detach_file_def)
next
  case (Some a)
  let ?w = "dworld d"
  let ?hu = "(hosts ?w a)\<lparr>h_file := None\<rparr>" and ?wu = "upd_host a ((hosts ?w a)\<lparr>h_file := None\<rparr>) ?w"
  have a: "a \<in> set (live (dsys d))" and own: "h_file (hosts ?w a) = Some f"
    using Some inv unfolding dev_inv_def files_ok_def by blast+
  note l = dev_inv_live [OF inv a]
  obtain shp where ev: "event_inv (G a) (hosts ?w a)" and shp: "scsi_host (hosts ?w a) = Some shp"
    using l(4) by (auto simp: block_ok_def)
  have same: "same_cmds (hosts ?w a) ?hu" "same_events (hosts ?w a) ?hu"
    by (simp_all add: same_cmds_def same_events_def)
  have inv0: "world_inv S H ?wu" using l(2,1) same(1) by (rule world_inv_ctl) simp
  have ev0: "event_inv (G a) (hosts ?wu a)" using event_inv_same_events [OF same(2)] ev by simp
  have sh0: "scsi_host (hosts ?wu a) = Some shp" using shp by simp
  obtain w' w1 :: vsc_world and L where w': "detach_finish (de_hz E) (de_jiffies E) a t ?wu = Some (0, w')"
    "world_inv S H w'" "allQ (hosts w' a) = []" "all_eventQ (hosts w' a) = []"
    "event_inv (G a - mset (all_eventQ (hosts ?wu a))) (hosts w' a)" "queue_waiters (hosts w' a) = 0"
    "host_self_blocked (shosts (mid w') shp)" "same_host (hosts ?wu a) (hosts w1 a)"
    "hosts w' a = detach_arm (de_hz E) (de_jiffies E) t (hosts w1 a)" "\<forall>b. b \<noteq> a \<longrightarrow> hosts w' b = hosts ?wu b"
    "mgrs w' = mgrs ?wu" "sdevs (mid w') = sdevs (mid ?wu)" "done_log (mid w') = done_log (mid ?wu) @ L"
    "\<forall>x\<in>set L. snd x = push_bit 16 DID_REQUEUE" "image_mset fst (mset L) = inflight (hosts ?wu a)"
    by (rule detach_finish_spec [OF inv0 l(1) sh0 ev0])
  have d': "d' = set_world w' (d\<lparr>private_data := (private_data d)(f := None)\<rparr>)"
    using run Some a own w'(1) by (simp add: detach_file_def vsc_scsi_detach_def)
  have fld: "scsi_host (hosts w' a) = Some shp" "silbing_hosts (hosts w' a) = silbing_hosts (hosts ?w a)"
    "h_file (hosts w' a) = None"
    using w'(8,9) shp by (simp_all add: same_host_def)
  note e = block_empty_ok(1) [OF w'(3,5), of a "mid w'"] block_empty_ok(2) [OF w'(3,5)]
  have h0: "host_inv (H a) (hosts ?wu a)" using l(3) host_inv_same_cmds [OF same(1)] by simp
  note fr = detach_finish_frame [OF h0 w'(1)]
  show ?thesis
  proof (rule dev_step_host [OF inv a])
    show "G a - mset (all_eventQ (hosts ?wu a)) \<subseteq># G a" by (rule diff_subset_eq_self)
    show "G a - mset (all_eventQ (hosts ?wu a)) = G a" if "a \<notin> D" using that drop Some by simp
    show "scsi_cmd (cmd_of (hosts (dworld d') a) j) = scsi_cmd (cmd_of (hosts ?w a) j)" for j
      using fr(3) [of a j] cmd_of_same_cmds [OF same(1)] by (simp add: d')
    show "\<forall>b. b \<noteq> a \<longrightarrow> hosts (dworld d') b = hosts ?w b" "mgrs (dworld d') = mgrs ?w"
      using w'(10,11) by (simp_all add: d')
    show "g_host_mgr_list (dworld d') = g_host_mgr_list ?w" "live (dsys d') = live (dsys d)"
      using fr(2) by (simp_all add: d')
    show "host_inv (H a) (hosts (dworld d') a)" using w'(2) l(1) by (simp add: d' world_inv_def)
    show "block_ok a (G a - mset (all_eventQ (hosts ?wu a))) (hosts (dworld d') a) (mid (dworld d'))"
      using e fld by (simp add: d')
    show "silbing_hosts (hosts (dworld d') a) = silbing_hosts (hosts ?w a)" using fld by (simp add: d')
    show "same_cdbs (mid ?w) (mid (dworld d'))" using fr(1) by (simp add: d')
    show "files_ok d'"
      unfolding files_ok_def
    proof (intro allI impI)
      fix g b
      assume g: "private_data d' g = Some b"
      then have "g \<noteq> f" and "private_data d g = Some b" by (auto simp: d' split: if_splits)
      then have "b \<in> set (live (dsys d))" "h_file (hosts ?w b) = Some g" using l(5) by (auto simp: files_ok_def)
      moreover from this own \<open>g \<noteq> f\<close> have "b \<noteq> a" by auto
      ultimately show "b \<in> set (live (dsys d')) \<and> h_file (hosts (dworld d') b) = Some g"
        using w'(10) by (simp add: d')
    qed
    show "inflight (hosts (dworld d') a) + completed (mid (dworld d')) = inflight (hosts ?w a) + completed (mid ?w)"
      using e(2) fld completed_append [OF w'(13)] w'(15) inflight_same_cmds [OF same(1)] by (simp add: d')
  qed
qed

text \<open>Failing what is queued on a host, the common part of its timer and of its removal.\<close>

lemma dev_step_fail:
  assumes inv: "dev_inv S H G d" and a: "a \<in> set (live (dsys d))" and drop: "a \<in> D \<or> G a = {#}"
    and same: "same_cmds (hosts (dworld d) a) h" "same_events (hosts (dworld d) a) h"
      "silbing_hosts h = silbing_hosts (hosts (dworld d) a)" "scsi_host h = scsi_host (hosts (dworld d) a)"
      "h_file h = h_file (hosts (dworld d) a)"
  obtains w' where "fail_host a (upd_host a h (dworld d)) = Some w'" "dev_step S H G D d (set_world w' d)"
    "inflight (hosts w' a) = {#}" "scsi_host (hosts w' a) = scsi_host (hosts (dworld d) a)"
proof -
  let ?w = "dworld d" and ?wu = "upd_host a h (dworld d)"
  note l = dev_inv_live [OF inv a]
  obtain shp where ev: "event_inv (G a) (hosts ?w a)" and shp: "scsi_host (hosts ?w a) = Some shp"
    using l(4) by (auto simp: block_ok_def)
  have inv0: "world_inv S H ?wu" using l(2,1) same(1,3) by (rule world_inv_ctl)
  have pre: "scsi_host (hosts ?wu a) = Some shp" "event_inv (G a) (hosts ?wu a)"
    using same(4) shp event_inv_same_events [OF same(2)] ev by simp_all
  obtain w' L where w': "fail_host a ?wu = Some w'" "world_inv S H w'"
    "allQ (hosts w' a) = []" "all_eventQ (hosts w' a) = []"
    "event_inv (G a - mset (all_eventQ (hosts ?wu a))) (hosts w' a)"
    "same_host ((hosts ?wu a)\<lparr>suspend := 0\<rparr>) (hosts w' a)" "\<forall>b. b \<noteq> a \<longrightarrow> hosts w' b = hosts ?wu b"
    "shosts (mid w') = shosts (mid (set_self_blocked shp False ?wu))" "mgrs w' = mgrs ?wu"
    "sdevs (mid w') = sdevs (mid ?wu)"
    "done_log (mid w') = done_log (mid ?wu) @ L" "\<forall>x\<in>set L. snd x = push_bit 16 DID_SOFT_ERROR"
    "image_mset fst (mset L) = inflight (hosts ?wu a)"
    by (rule fail_host_spec [OF inv0 l(1) pre])
  have sil: "silbing_hosts (hosts w' a) = silbing_hosts (hosts ?w a)" "scsi_host (hosts w' a) = Some shp"
    "h_file (hosts w' a) = h_file (hosts ?w a)"
    using w'(6) same(3-5) shp by (simp_all add: same_host_def)
  note e = block_empty_ok(1) [OF w'(3,5), of a "mid w'"] block_empty_ok(2) [OF w'(3,5)]
  have h0: "host_inv (H a) (hosts ?wu a)" using l(3) host_inv_same_cmds [OF same(1)] by simp
  note fr = fail_host_frame [OF h0 w'(1)]
  let ?d0 = "set_world w' d"
  have "dev_step S H G D d ?d0"
  proof (rule dev_step_host [OF inv a])
    show "G a - mset (all_eventQ (hosts ?wu a)) \<subseteq># G a" by (rule diff_subset_eq_self)
    show "G a - mset (all_eventQ (hosts ?wu a)) = G a" if "a \<notin> D" using that drop by simp
    show "scsi_cmd (cmd_of (hosts (dworld ?d0) a) j) = scsi_cmd (cmd_of (hosts ?w a) j)" for j
      using fr(3) [of a j] cmd_of_same_cmds [OF same(1)] by simp
    show "\<forall>b. b \<noteq> a \<longrightarrow> hosts (dworld ?d0) b = hosts ?w b" "mgrs (dworld ?d0) = mgrs ?w"
      using w'(7,9) by simp_all
    show "g_host_mgr_list (dworld ?d0) = g_host_mgr_list ?w" "live (dsys ?d0) = live (dsys d)"
      using fr(2) by simp_all
    show "host_inv (H a) (hosts (dworld ?d0) a)" using w'(2) l(1) by (simp add: world_inv_def)
    show "block_ok a (G a - mset (all_eventQ (hosts ?wu a))) (hosts (dworld ?d0) a) (mid (dworld ?d0))"
      using e sil by simp
    show "silbing_hosts (hosts (dworld ?d0) a) = silbing_hosts (hosts ?w a)" using sil by simp
    show "same_cdbs (mid ?w) (mid (dworld ?d0))" using fr(1) by simp
    have "h_file (hosts w' b) = h_file (hosts ?w b)" for b
      using w'(7) sil(3) by (cases "b = a") simp_all
    then show "files_ok ?d0" by (intro files_ok_same [OF l(5)]) simp_all
    show "inflight (hosts (dworld ?d0) a) + completed (mid (dworld ?d0)) = inflight (hosts ?w a) + completed (mid ?w)"
      using e(2) sil completed_append [OF w'(11)] w'(13) inflight_same_cmds [OF same(1)] by simp
  qed
  with w'(1) e(2) sil shp that show thesis by simp
qed

text \<open>The timer of a host without a target.\<close>

lemma dev_step_timer:
  assumes inv: "dev_inv S H G d" and a: "a \<in> set (live (dsys d))" and drop: "a \<in> D \<or> G a = {#}"
    and api: "api_quiet api" and run: "vsc_target_abnormal api (Some a) (dworld d) = Some w'"
  shows "dev_step S H G D d (set_world w' d)"
proof -
  let ?w = "dworld d"
  define h where "h = (hosts ?w a)\<lparr>target_abnormal_lock := target_abnormal_lock (hosts ?w a) + 1\<rparr>"
  have fok: "files_ok d" using inv by (simp add: dev_inv_def)
  obtain w3 where w3: "fail_host a (upd_host a h ?w) = Some w3" "dev_step S H G D d (set_world w3 d)"
    by (rule dev_step_fail [OF inv a drop, of h]) (simp_all add: h_def)
  have rest: "dev_step S H G D (set_world w3 d) (set_world (upd_host a (target_lock_dec (hosts w3 a)) (w3\<lparr>mid := m\<rparr>)) d)"
    if "dev_inv S H G (set_world w3 d)" "quiet (mid w3) m" for S G m
  proof (rule dev_step_control [OF that(1)])
    show "a \<in> set (live (dsys (set_world w3 d)))" using a by simp
    have "files_ok (set_world w3 d)" using that(1) by (simp add: dev_inv_def)
    then show "files_ok (set_world (upd_host a (target_lock_dec (hosts w3 a)) (w3\<lparr>mid := m\<rparr>)) d)"
      by (rule files_ok_same) (auto simp: upd_host_def)
  qed (use that(2) in simp_all)
  consider "w' = upd_host a (target_lock_dec h) ?w"
    | m where "w' = upd_host a (target_lock_dec (hosts w3 a)) (w3\<lparr>mid := m\<rparr>)" "quiet (mid w3) m"
    using run w3(1) quiet_offline [OF api]
    by (auto simp: vsc_target_abnormal_def target_lock_inc_def target_abnormal_body_def bind_eq_Some_conv Let_def
        h_def [symmetric] upd_host_def split: if_splits)
  then show ?thesis
  proof cases
    case 1
    then have "w' = ?w" by (simp add: h_def target_lock_dec_def upd_host_def)
    then show ?thesis using dev_step_refl [OF inv] by (simp add: set_world_def)
  next
    case (2 m)
    then show ?thesis using dev_step_trans [OF w3(2)] rest set_world_twice by metis
  qed
qed

text \<open>Removing a host that no file is attached to.\<close>

lemma dev_step_remove:
  assumes inv: "dev_inv S H G d" and a: "a \<in> set (live (dsys d))" and free: "h_file (hosts (dworld d) a) = None"
    and run: "vsc_remove_host (Some a) (dsys d) = Some (r, s)" and drop: "a \<in> D"
  shows "dev_step S H G D d (d\<lparr>dsys := s\<rparr>)"
proof -
  let ?w = "dworld d"
  note l = dev_inv_live [OF inv a]
  obtain shp where shp: "scsi_host (hosts ?w a) = Some shp" using l(4) by (auto simp: block_ok_def)
  define h where "h = (hosts ?w a)\<lparr>target_abnormal_timer := None, h_file := None\<rparr>"
  have same: "same_cmds (hosts ?w a) h" "same_events (hosts ?w a) h" "silbing_hosts h = silbing_hosts (hosts ?w a)"
    "scsi_host h = scsi_host (hosts ?w a)" "h_file h = h_file (hosts ?w a)"
    using free by (simp_all add: h_def same_cmds_def same_events_def)
  obtain w' where w': "fail_host a (upd_host a h ?w) = Some w'" "dev_step S H G D d (set_world w' d)"
    "inflight (hosts w' a) = {#}" "scsi_host (hosts w' a) = scsi_host (hosts ?w a)"
    using dev_step_fail [OF inv a disjI1 [OF drop] same] .
  have d1: "sys s = w'" "live s = remove1 a (live (dsys d))"
    using run a shp w'(1,4) by (auto simp: vsc_remove_host_def vsc_do_remove_host_def h_def Let_def)
  have unattached: "private_data d g \<noteq> Some a" for g
    using free l(5) by (auto simp: files_ok_def)
  let ?d0 = "set_world w' d"
  obtain S' G' where S': "S \<subseteq> S'" "dev_inv S' H G' ?d0" "dev_flight S' ?d0 = dev_flight S d"
    "\<forall>b. G' b \<subseteq># G b" "\<forall>b. b \<notin> D \<longrightarrow> G' b = G b"
    "\<forall>b c. c \<in># H b \<longrightarrow> scsi_cmd (cmd_of (hosts (dworld ?d0) b) c) = scsi_cmd (cmd_of (hosts ?w b) c)"
    using w'(2) unfolding dev_step_def by blast
  have dist: "distinct (live (dsys d))" using inv by (simp add: dev_inv_def)
  have "files_ok (d\<lparr>dsys := s\<rparr>)"
    using S'(2) unattached dist by (auto simp: dev_inv_def files_ok_def d1)
  with w'(3) have "dev_inv S' H (G'(a := {#})) (d\<lparr>dsys := s\<rparr>)"
    using S'(2) d1 dist by (auto simp: dev_inv_def)
  moreover have "dev_flight S' (d\<lparr>dsys := s\<rparr>) = dev_flight S' ?d0"
    using d1 by (simp add: dev_flight_def)
  ultimately show ?thesis
    unfolding dev_step_def using S' drop d1
    by (intro exI [of _ S'] exI [of _ "G'(a := {#})"]) auto
qed

text \<open>The data calls: each works on the host the file is attached to.\<close>

lemma dev_step_data:
  assumes inv: "dev_inv S H G d" and a: "a \<in> set (live (dsys d))"
    and step: "host_ok (H a) (G a) (hosts (dworld d) a) (mid (dworld d)) \<Longrightarrow>
      file_step (H a) (G a) (hosts (dworld d) a) (mid (dworld d)) h m"
  shows "dev_step S H G D d (put_data_state a (h, m, um) d)"
proof -
  let ?w = "dworld d"
  note l = dev_inv_live [OF inv a]
  then have "host_ok (H a) (G a) (hosts ?w a) (mid ?w)"
    by (auto simp: block_ok_def host_ok_def)
  from step [OF this] have st: "host_inv (H a) h" "phases_ok h" "cdbs_ok h m" "event_inv (G a) h"
    "same_host (hosts ?w a) h" "same_requests (mid ?w) m" "inflight h + completed m = inflight (hosts ?w a) + completed (mid ?w)"
    "set (allQ h) \<subseteq> set (allQ (hosts ?w a))" "reqQ (hosts ?w a) = [] \<longrightarrow> reqQ h = []"
    "\<forall>j. scsi_cmd (cmd_of h j) = scsi_cmd (cmd_of (hosts ?w a) j)"
    by (auto simp: file_step_def host_step_def)
  have cd: "same_cdbs (mid ?w) m" using st(6) by (simp add: same_cdbs_def same_requests_def)
  have "scribbled a h m" using l(4) st(8,10) cd by (auto simp: block_ok_def scribbled_def same_cdbs_def)
  then have blk: "block_ok a (G a) h m" using st l(4) by (auto simp: block_ok_def same_host_def)
  have d': "dworld (put_data_state a (h, m, um) d) = (upd_host a h ?w)\<lparr>mid := m\<rparr>"
    "live (dsys (put_data_state a (h, m, um) d)) = live (dsys d)"
    "private_data (put_data_state a (h, m, um) d) = private_data d"
    by (simp_all add: put_data_state_def set_world_def)
  show ?thesis
  proof (rule dev_step_host [OF inv a])
    show "files_ok (put_data_state a (h, m, um) d)"
      using st(5) by (intro files_ok_same [OF l(5)]) (simp_all add: d' same_host_def)
    show "same_cdbs (mid ?w) (mid (dworld (put_data_state a (h, m, um) d)))"
      using cd by (simp add: d')
    show "block_ok a (G a) (hosts (dworld (put_data_state a (h, m, um) d)) a) (mid (dworld (put_data_state a (h, m, um) d)))"
      using blk by (simp add: d')
  qed (use st in \<open>simp_all add: d' same_host_def\<close>)
qed

lemma dev_step_read_write:
  assumes inv: "dev_inv S H G d"
  shows "vsc_dev_read E f p n d = Some (r, d') \<Longrightarrow>
      (case private_data d f of None \<Rightarrow> True | Some a \<Rightarrow> f_nonblock d f \<or> has_work (hosts (dworld d) a)) \<Longrightarrow>
      dev_step S H G D d d'"
    "vsc_dev_write E f p n d = Some (r, d') \<Longrightarrow> dev_step S H G D d d'"
proof -
  have refl: "dev_step S H G D d d" using inv by (rule dev_step_refl)
  have rd: "dev_step S H G D d (put_data_state a s d)"
    if "a \<in> set (live (dsys d))" "f_nonblock d f \<or> has_work (hosts (dworld d) a)"
      "vsc_get_msg cs stk pad pool wait (f_nonblock d f) ub len (Some (hosts (dworld d) a)) (mid (dworld d)) (user_mem d) =
         Some (x, s)" for a cs stk pad pool wait ub len x s
  proof -
    obtain h m um where s: "s = (h, m, um)" by (cases s)
    show ?thesis unfolding s
      by (rule dev_step_data [OF inv that(1)]) (rule get_msg_step [OF _ that(2) that(3) [unfolded s]])
  qed
  have wr: "dev_step S H G D d (put_data_state a s d)"
    if "a \<in> set (live (dsys d))"
      "vsc_response_msg cs pool ub len (Some (hosts (dworld d) a)) (mid (dworld d)) (user_mem d) = Some (x, Some s)"
    for a cs pool ub len x s
  proof -
    obtain h m um where s: "s = (h, m, um)" by (cases s)
    show ?thesis unfolding s
      by (rule dev_step_data [OF inv that(1)]) (rule response_msg_step [OF _ that(2) [unfolded s]])
  qed
  show "dev_step S H G D d d'" if "vsc_dev_read E f p n d = Some (r, d')"
    "case private_data d f of None \<Rightarrow> True | Some a \<Rightarrow> f_nonblock d f \<or> has_work (hosts (dworld d) a)"
  proof (cases "private_data d f")
    case None
    then show ?thesis using that(1) refl by (simp add: vsc_dev_read_def)
  next
    case (Some a)
    with that(1) have "a \<in> set (live (dsys d))" by (auto simp: vsc_dev_read_def split: if_splits)
    with that Some obtain s where "vsc_get_msg (de_command_size E) (de_stk E) (de_pad E) (de_pool E) (de_wait E)
        (f_nonblock d f) p (c_int (uint n)) (Some (hosts (dworld d) a)) (mid (dworld d)) (user_mem d) = Some (r, s)"
      "d' = put_data_state a s d"
      by (auto simp: vsc_dev_read_def bind_eq_Some_conv)
    with rd [OF \<open>a \<in> set (live (dsys d))\<close>] that(2) Some show ?thesis by simp
  qed
  show "dev_step S H G D d d'" if "vsc_dev_write E f p n d = Some (r, d')"
  proof (cases "private_data d f")
    case None
    then show ?thesis using that refl by (simp add: vsc_dev_write_def)
  next
    case (Some a)
    with that have a: "a \<in> set (live (dsys d))" by (auto simp: vsc_dev_write_def split: if_splits)
    with that Some obtain s where s: "vsc_response_msg (de_command_size E) (de_pool E) p (c_int (uint n))
        (Some (hosts (dworld d) a)) (mid (dworld d)) (user_mem d) = Some (r, s)"
      "d' = (case s of None \<Rightarrow> d | Some s \<Rightarrow> put_data_state a s d)"
      by (auto simp: vsc_dev_write_def bind_eq_Some_conv)
    show ?thesis
    proof (cases s)
      case None
      then show ?thesis using s(2) refl by simp
    next
      case (Some x)
      then show ?thesis using s wr [OF a] by simp
    qed
  qed
qed

lemma dev_step_flush:
  assumes inv: "dev_inv S H G d" and run: "vsc_dev_f_flush f d = Some (r, d')"
  shows "dev_step S H G D d d'"
proof -
  have refl: "dev_step S H G D d d" using inv by (rule dev_step_refl)
  have "dev_step S H G D d (set_world (upd_host a (vsc_interrupt_sleep_on_read (hosts (dworld d) a)) (dworld d)) d)"
    if "a \<in> set (live (dsys d))" for a
    by (rule dev_step_control [OF inv that])
      (use dev_inv_live [OF inv that] in \<open>auto simp: vsc_interrupt_sleep_on_read_def wake_up_queue_def same_cmds_def
        same_events_def intro: files_ok_same\<close>)
  with run refl show ?thesis
    by (auto simp: vsc_dev_f_flush_def split: option.splits if_splits)
qed

lemma dev_step_open:
  assumes inv: "dev_inv S H G d" and run: "vsc_dev_open f d = Some (r, d')"
  shows "dev_step S H G D d d'"
proof -
  have "dev_inv S H G d'" "dev_flight S d' = dev_flight S d"
    "dworld d' = dworld d"
    using assms by (auto simp: vsc_dev_open_def dev_inv_def files_ok_def dev_flight_def split: if_splits)
  then show ?thesis by (intro dev_stepI [OF subset_refl]) simp_all
qed

text \<open>
  Registering: the kernel hands out memory that is not in use. A block that is used again was empty.
\<close>

definition reg_fresh :: "reg_env \<Rightarrow> (nat \<Rightarrow> nat multiset) \<Rightarrow> vsc_sys \<Rightarrow> bool" where
  "reg_fresh env H s \<longleftrightarrow>
     (\<forall>shp a hno. re_alloc env = Some (shp, a, hno) \<longrightarrow> a \<notin> set (live s) \<and> H a = {#}) \<and>
     (\<forall>mp. re_mgr env = Some mp \<longrightarrow> mp \<notin> set (g_host_mgr_list (sys s)))"

lemma add_host_mgr_hosts:
  assumes ok: "mgr_hosts S w0" and fresh: "\<And>mp. new_mgr = Some mp \<Longrightarrow> mp \<notin> set (g_host_mgr_list w0)"
    and run: "vsc_add_host_to_mgr new_mgr a hid w = (r, w')"
    and w: "g_host_mgr_list w = g_host_mgr_list w0" "mgrs w = mgrs w0" "\<forall>b. b \<noteq> a \<longrightarrow> hosts w b = hosts w0 b"
      "silbing_hosts (hosts w a) = None"
  shows "mgr_hosts (insert a S) w'"
  using run
proof (cases rule: add_host_cases)
  case refused
  have "silbing_hosts (hosts w b) = Some mp \<Longrightarrow> b \<in> insert a S \<Longrightarrow> mp \<in> set (g_host_mgr_list w0)" for b mp
    using ok w(3,4) by (cases "b = a") (simp_all add: mgr_hosts_def)
  then show ?thesis using ok unfolding refused(3) mgr_hosts_def w(1,2) by blast
next
  case (slot mp)
  have mp: "mp \<in> set (g_host_mgr_list w0)" using find_mgr_Some [OF slot(2)] w(1) by simp
  have sil: "silbing_hosts (hosts w' b) = Some q \<Longrightarrow> b \<in> insert a S \<Longrightarrow> q \<in> set (g_host_mgr_list w0)" for b q
    using ok w(3) mp by (cases "b = a") (auto simp: slot(4) mgr_hosts_def)
  have "b \<in> insert a S" if "Some b \<in> set (host_list (mgrs w' q))" "q \<in> set (g_host_mgr_list w0)" for b q
    using that ok w(2) mp set_update_subset_insert [of "host_list (mgrs w0 mp)" "unat (snd (host_key hid))" "Some a"]
    by (auto simp: slot(4) mgr_hosts_def enter_host_def split: if_splits)
  moreover have "length (host_list (mgrs w' q)) = MAX_HOST_NR_PER_VBS" if "q \<in> set (g_host_mgr_list w0)" for q
    using that ok w(2) mp by (auto simp: slot(4) mgr_hosts_def enter_host_def)
  moreover have "g_host_mgr_list w' = g_host_mgr_list w0" using w(1) by (simp add: slot(4))
  ultimately show ?thesis using sil by (simp add: mgr_hosts_def)
next
  case (new mp)
  have mp: "mp \<notin> set (g_host_mgr_list w0)" using fresh new(3) by simp
  have lst: "g_host_mgr_list w' = g_host_mgr_list w0 @ [mp]" using w(1) by (simp add: new(5))
  have sil: "silbing_hosts (hosts w' b) = Some q \<Longrightarrow> b \<in> insert a S \<Longrightarrow> q \<in> set (g_host_mgr_list w')" for b q
    using ok w(3) unfolding lst by (cases "b = a") (auto simp: new(5) mgr_hosts_def)
  have "b \<in> insert a S" if "Some b \<in> set (host_list (mgrs w' q))" "q \<in> set (g_host_mgr_list w')" for b q
    using that ok w(2) mp
      set_update_subset_insert [of "replicate MAX_HOST_NR_PER_VBS None" "unat (snd (host_key hid))" "Some a"]
    unfolding lst
    by (auto simp: new(5) mgr_hosts_def enter_host_def zero_mgr_def split: if_splits)
  moreover have "length (host_list (mgrs w' q)) = MAX_HOST_NR_PER_VBS" if "q \<in> set (g_host_mgr_list w')" for q
    using that ok w(2) mp unfolding lst by (auto simp: new(5) mgr_hosts_def enter_host_def zero_mgr_def)
  ultimately show ?thesis using sil by (simp add: mgr_hosts_def)
qed

lemma world_inv_mgr_hosts:
  "finite S \<Longrightarrow> \<forall>a\<in>S. host_inv (H a) (hosts w a) \<Longrightarrow> mgr_hosts S w \<Longrightarrow> world_inv S H w"
  unfolding world_inv_def mgr_hosts_def by blast

lemma register_error: "vsc_register_host env info s = Some (Inl e, info', s') \<Longrightarrow> s' = s"
  by (auto simp: vsc_register_host_def vsc_scsi_host_lookup_def bind_eq_Some_conv Let_def
      split: option.splits if_splits prod.splits)

lemma register_new_host:
  assumes "vsc_register_host env (Some i) s = Some (Inr a, info', s')"
  shows "\<exists>shp hno. re_alloc env = Some (shp, a, hno)"
  using assms by (auto simp: vsc_register_host_def vsc_scsi_host_lookup_def bind_eq_Some_conv Let_def
      split: option.splits if_splits prod.splits)

lemma dev_step_register:
  assumes inv: "dev_inv S H G d" and fresh: "reg_fresh env H (dsys d)"
    and run: "vsc_register_host env (Some i) (dsys d) = Some (Inr a, info', s')"
  shows "dev_step S H G D d (d\<lparr>dsys := s'\<rparr>)"
proof -
  let ?w = "dworld d"
  obtain shp hno h held freed r w2 where reg: "check_host_info (Some i) = 0"
    "vsc_get_ctlr_by_host (ah_host i) ?w = None"
    "vsc_ctrl_init (re_kmalloc env) (re_cmd_mem env) (re_event_mem env) (Some shp)
       (sint (ah_max_nr_cmds i)) (ah_host i) = (0, h, held, freed)"
    "vsc_add_host_to_mgr (re_mgr env) a (ah_host i)
       (put_shost shp (new_shost i a hno (nr_cmds h)) (upd_host a h ?w)) = (r, w2)"
    "sys s' = w2" "live s' = live (dsys d) @ [a]"
    using run by (rule register_success)
  let ?wp = "put_shost shp (new_shost i a hno (nr_cmds h)) (upd_host a h ?w)"
  have a: "a \<notin> set (live (dsys d))" "H a = {#}"
    and mp: "\<And>mp. re_mgr env = Some mp \<Longrightarrow> mp \<notin> set (g_host_mgr_list ?w)"
    using fresh register_new_host [OF run] by (auto simp: reg_fresh_def)
  note n = check_host_info_bounds [OF reg(1)]
  have all: "list_all (re_kmalloc env) (pool_objs VSC_DEFAULT_EVENT_NUMBER (nat (sint (ah_max_nr_cmds i))))"
    using ctrl_init_fail(1) [OF _ _ reg(3)] n(1) by fastforce
  note h = ctrl_init_ok [OF n(1,2) all reg(3)]
  have sib: "silbing_hosts h = None"
    using reg(3) by (auto simp: vsc_ctrl_init_def zero_ctrl_def Let_def split: if_splits prod.splits)
  have w2: "hosts w2 b = hosts ?wp b" if "b \<noteq> a" for b
    using reg(4) that by (cases rule: add_host_cases) auto
  obtain q where q: "hosts w2 a = h\<lparr>silbing_hosts := q\<rparr>"
  proof -
    have "\<exists>q. hosts w2 a = h\<lparr>silbing_hosts := q\<rparr>"
      using reg(4)
    proof (cases rule: add_host_cases)
      case refused
      then show ?thesis by (intro exI [of _ "silbing_hosts h"]) simp
    qed auto
    then show thesis using that by blast
  qed
  have mid: "mid w2 = mid ?wp" using reg(4) by (cases rule: add_host_cases) auto
  then have quiet: "quiet (mid ?w) (mid w2)" by (simp add: quiet_def)
  have same: "same_cmds h (hosts w2 a)" "same_events h (hosts w2 a)" "scsi_host (hosts w2 a) \<noteq> None"
    using h(10) by (simp_all add: q same_cmds_def same_events_def)
  have mgr: "mgr_hosts (insert a S) w2"
  proof (rule add_host_mgr_hosts [OF _ _ reg(4)])
    show "mgr_hosts S ?w" using inv by (simp add: dev_inv_def)
  qed (use mp sib in \<open>simp_all\<close>)
  have new: "host_inv (H a) (hosts w2 a)" "allQ (hosts w2 a) = []" "event_inv {#} (hosts w2 a)"
    using h(3,4,6) host_inv_same_cmds [OF same(1)] event_inv_same_events [OF same(2)] allQ_same_cmds [OF same(1)] a(2)
    by (simp_all add: inflight_def)
  note e = block_empty_ok(1) [OF new(2,3) same(3), of a "mid w2"] block_empty_ok(2) [OF new(2,3) same(3)]
  have G: "G a = {#}" using inv a(1) by (simp add: dev_inv_def)
  have old: "hosts w2 b = hosts ?w b" if "b \<noteq> a" for b using w2 [OF that] that by simp
  have fin: "finite (insert a S)" using inv by (simp add: dev_inv_def world_inv_def)
  have inv': "world_inv (insert a S) H w2"
  proof (rule world_inv_mgr_hosts [OF fin _ mgr], rule ballI)
    fix b
    assume "b \<in> insert a S"
    then show "host_inv (H b) (hosts w2 b)"
      using inv new(1) old by (cases "b = a") (auto simp: dev_inv_def world_inv_def)
  qed
  have blocks: "block_ok b (G b) (hosts w2 b) (mid w2)" if "b \<in> set (live s')" for b
  proof (cases "b = a")
    case False
    then have "block_ok b (G b) (hosts ?w b) (mid ?w)" using that inv by (auto simp: dev_inv_def reg(6))
    then show ?thesis
      using block_ok_same_cdbs [OF conjunct1 [OF quiet_cdbs [OF quiet]]] old [OF False] by simp
  qed (use e(1) G in simp)
  have dead: "inflight (hosts w2 b) = {#}" if "b \<in> insert a S - set (live s')" for b
    using that inv old by (auto simp: dev_inv_def reg(6))
  have own: "files_ok (d\<lparr>dsys := s'\<rparr>)"
    unfolding files_ok_def
  proof (intro allI impI)
    fix f b
    assume "private_data (d\<lparr>dsys := s'\<rparr>) f = Some b"
    then have b: "b \<in> set (live (dsys d))" "h_file (hosts ?w b) = Some f"
      using inv by (auto simp: dev_inv_def files_ok_def)
    then show "b \<in> set (live (dsys (d\<lparr>dsys := s'\<rparr>))) \<and> h_file (hosts (dworld (d\<lparr>dsys := s'\<rparr>)) b) = Some f"
      using a(1) old [of b] by (cases "b = a") (auto simp: reg(5,6))
  qed
  have "dev_inv (insert a S) H G (d\<lparr>dsys := s'\<rparr>)"
    unfolding dev_inv_def using inv inv' mgr blocks dead own a(1)
    by (auto simp: reg(5,6) dev_inv_def)
  moreover have "winflight (insert a S) w2 = winflight S ?w"
  proof -
    have rest: "(\<Sum>b\<in>S - {a}. inflight (hosts w2 b)) = (\<Sum>b\<in>S - {a}. inflight (hosts ?w b))"
      by (rule sum.cong) (use old in auto)
    have "winflight (insert a S) w2 = (\<Sum>b\<in>S - {a}. inflight (hosts w2 b))"
      using fin e(2) by (simp add: winflight_def sum.insert_remove)
    moreover have "winflight S ?w = (\<Sum>b\<in>S - {a}. inflight (hosts ?w b))"
    proof (cases "a \<in> S")
      case True
      then have "inflight (hosts ?w a) = {#}" using inv a(1) by (auto simp: dev_inv_def)
      then show ?thesis using fin True by (simp add: winflight_def sum.remove)
    qed (simp add: winflight_def)
    ultimately show ?thesis using rest by simp
  qed
  then have "dev_flight (insert a S) (d\<lparr>dsys := s'\<rparr>) = dev_flight S d"
    using quiet_cdbs [OF quiet] by (simp add: dev_flight_def reg(5))
  moreover have "scsi_cmd (cmd_of (hosts w2 b) c) = scsi_cmd (cmd_of (hosts ?w b) c)" if "c \<in># H b" for b c
    using that a(2) old by (cases "b = a") auto
  ultimately show ?thesis by (intro dev_stepI [of S "insert a S"]) (auto simp: reg(5))
qed

lemma copied_back:
  assumes "(case x of (h, info, s) \<Rightarrow> do { i \<leftarrow> info; let (r, d1) = copy_out p (enc i) (g s);
      if r \<noteq> 0 then Some (r, d1) else Some (k h, d1) }) = Some (r, d')"
  shows "\<exists>bs. d' = snd (copy_out p bs (g (snd (snd x))))"
proof -
  obtain h info s where x: "x = (h, info, s)" by (cases x)
  with assms obtain i where "info = Some i" by (cases info) auto
  moreover obtain r1 d1 where "copy_out p (enc i) (g s) = (r1, d1)" by fastforce
  ultimately have "d' = snd (copy_out p (enc i) (g s))" using assms x by (simp split: if_splits)
  then show ?thesis using x by auto
qed

lemma dev_step_add_host:
  assumes inv: "dev_inv S H G d" and fresh: "reg_fresh (de_reg E) H (dsys d)"
    and run: "vsc_dev_add_host E p d = Some (r, d')"
  shows "dev_step S H G D d d'"
proof -
  have refl: "dev_step S H G D d d" using inv by (rule dev_step_refl)
  have reg: "dev_step S H G D d (d\<lparr>dsys := s\<rparr>)"
    if "vsc_register_host (de_reg E) (Some i) (dsys d) = Some (x, info, s)" for i x info s
  proof (cases x)
    case (Inl e)
    then show ?thesis using register_error that refl by fastforce
  next
    case (Inr a)
    then show ?thesis using dev_step_register [OF inv fresh] that by simp
  qed
  show ?thesis
    using run [unfolded vsc_dev_add_host_def]
  proof (elim arg_cases bind_SomeE)
    fix bs hi x
    assume x: "vsc_register_host (de_reg E) (Some hi) (dsys d) = Some x"
      and "(case x of (h, info, s) \<Rightarrow> do { i \<leftarrow> info;
               let (r, d1) = copy_out p (enc_words (add_host_words i)) (d\<lparr>dsys := s\<rparr>);
               if r \<noteq> 0 then Some (r, d1)
               else Some (case h of Inl e \<Rightarrow> e | Inr _ \<Rightarrow> 0, d1) }) = Some (r, d')"
    from copied_back [OF this(2)] obtain bs' where "d' = snd (copy_out p bs' (d\<lparr>dsys := snd (snd x)\<rparr>))"
      by blast
    moreover have "dev_step S H G D d (d\<lparr>dsys := snd (snd x)\<rparr>)"
      using x reg [of hi "fst x" "fst (snd x)" "snd (snd x)"] by simp
    ultimately show ?thesis using dev_step_copy_out by simp
  qed (simp add: refl)
qed

text \<open>The host that \<open>vsc_dev_rmv_host\<close> is to remove.\<close>

definition rmv_target :: "dev_env \<Rightarrow> u64 \<Rightarrow> vsc_dev \<Rightarrow> nat option" where
  "rmv_target E arg d =
     (case take_arg E 4 arg d of
        Inl e \<Rightarrow> None
      | Inr bs \<Rightarrow> Option.bind (rd32 bs 0) (\<lambda>hno. vsc_get_ctlr_by_host hno (dworld d)))"

lemma dev_step_rmv_host:
  assumes inv: "dev_inv S H G d" and run: "vsc_dev_rmv_host E p d = Some (r, d')"
    and free: "\<forall>a. rmv_target E p d = Some a \<longrightarrow> h_file (hosts (dworld d) a) = None \<and> a \<in> D"
  shows "dev_step S H G D d d'"
proof -
  have refl: "dev_step S H G D d d" using inv by (rule dev_step_refl)
  show ?thesis
    using run [unfolded vsc_dev_rmv_host_def]
  proof (elim arg_cases bind_SomeE)
    fix bs hno
    assume b: "take_arg E 4 p d = Inr bs" "rd32 bs 0 = Some hno"
      "on_host hno d (\<lambda>a. do { (r, s) \<leftarrow> vsc_remove_host (Some a) (dsys d); Some (r, d\<lparr>dsys := s\<rparr>) }) = Some (r, d')"
    show ?thesis
    proof (cases "vsc_get_ctlr_by_host hno (dworld d)")
      case None
      then show ?thesis using b(3) refl by (simp add: on_host_def)
    next
      case (Some a)
      with b(3) obtain s where s: "a \<in> set (live (dsys d))" "vsc_remove_host (Some a) (dsys d) = Some (r, s)"
        "d' = d\<lparr>dsys := s\<rparr>"
        by (auto simp: on_host_def bind_eq_Some_conv split: if_splits)
      have "rmv_target E p d = Some a" using b(1,2) Some by (simp add: rmv_target_def)
      with free have "h_file (hosts (dworld d) a) = None" "a \<in> D" by simp_all
      then show ?thesis unfolding s(3) by (intro dev_step_remove [OF inv s(1) _ s(2)])
    qed
  qed (simp add: refl)
qed

subsection \<open>Every call\<close>

text \<open>
  What a call is asked for: not to remove a host that a file is attached to, and not to sleep (a
  read that sleeps is a read that starts when it wakes).
\<close>

definition ioctl_ok :: "u32 \<Rightarrow> u64 \<Rightarrow> dev_env \<Rightarrow> vsc_dev \<Rightarrow> bool" where
  "ioctl_ok cmd arg E d \<longleftrightarrow>
     (cmd = vsc_io 1 \<longrightarrow> (case rmv_target E arg d of None \<Rightarrow> True | Some a \<Rightarrow> h_file (hosts (dworld d) a) = None))"

fun call_ok :: "file_call \<Rightarrow> dev_env \<Rightarrow> nat \<Rightarrow> vsc_dev \<Rightarrow> bool" where
  "call_ok (Read p n) E f d =
     (case private_data d f of None \<Rightarrow> True | Some a \<Rightarrow> f_nonblock d f \<or> has_work (hosts (dworld d) a))"
| "call_ok (Ioctl cmd arg) E f d = ioctl_ok cmd arg E d"
| "call_ok (Compat_ioctl cmd arg) E f d = ioctl_ok cmd arg E d"
| "call_ok _ E f d = True"

text \<open>The hosts whose events a call drops.\<close>

definition ioctl_drops :: "u32 \<Rightarrow> u64 \<Rightarrow> dev_env \<Rightarrow> nat \<Rightarrow> vsc_dev \<Rightarrow> nat set" where
  "ioctl_drops cmd arg E f d =
     (if cmd = vsc_io 1 then set_option (rmv_target E arg d)
      else if cmd = vsc_io 21 then set_option (private_data d f) else {})"

fun call_drops :: "file_call \<Rightarrow> dev_env \<Rightarrow> nat \<Rightarrow> vsc_dev \<Rightarrow> nat set" where
  "call_drops Release E f d = set_option (private_data d f)"
| "call_drops (Ioctl cmd arg) E f d = ioctl_drops cmd arg E f d"
| "call_drops (Compat_ioctl cmd arg) E f d = ioctl_drops cmd arg E f d"
| "call_drops _ E f d = {}"

lemma dev_step_ioctl:
  assumes inv: "dev_inv S H G d" and env: "api_quiet (de_api E)" "reg_fresh (de_reg E) H (dsys d)"
    and ok: "ioctl_ok cmd arg E d" "ioctl_drops cmd arg E f d \<subseteq> D"
    and run: "vsc_dev_ioctl E f cmd arg d = Some (r, d')"
  shows "dev_step S H G D d d'"
proof (cases "cmd = vsc_io 1")
  case True
  have "vsc_dev_rmv_host E arg d = Some (r, d')" using run True by (simp add: vsc_dev_ioctl_def vsc_io_def)
  then show ?thesis
    using ok True by (intro dev_step_rmv_host [OF inv]) (auto simp: ioctl_ok_def ioctl_drops_def)
next
  case False
  note s = dev_step_disks [OF inv env(1)] dev_step_set_tg [OF inv] dev_step_suspend_resume [OF inv]
    dev_step_attach [OF inv] dev_step_detach [OF inv] dev_step_add_host [OF inv env(2)]
  have det: "set_option (private_data d f) \<subseteq> D" if "cmd = vsc_io 21"
    using ok(2) False that by (simp add: ioctl_drops_def)
  have unknown: "dev_step S H G D d d" using inv by (rule dev_step_refl)
  show ?thesis
    using run False unfolding vsc_dev_ioctl_def vsc_dev_detach_host_def
    by (elim if_SomeE) (use unknown det in \<open>simp_all add: s\<close>)
qed

lemma dev_step_call:
  assumes inv: "dev_inv S H G d" and env: "api_quiet (de_api E)" "reg_fresh (de_reg E) H (dsys d)"
    and ok: "call_ok call E f d" "call_drops call E f d \<subseteq> D" and run: "vsc_ioctl_fops call E f d = Some (r, d')"
  shows "dev_step S H G D d d'"
proof (cases "call")
  case Open
  then show ?thesis using run dev_step_open [OF inv] by simp
next
  case Flush
  then show ?thesis using run dev_step_flush [OF inv] by simp
next
  case Release
  then show ?thesis using run ok(2) dev_step_detach [OF inv] by (simp add: vsc_dev_release_def)
next
  case (Read p n)
  then show ?thesis using run ok dev_step_read_write(1) [OF inv] by simp
next
  case (Write p n)
  then show ?thesis using run dev_step_read_write(2) [OF inv] by simp
next
  case Poll
  then have "d' = d" using run by (auto simp: vsc_dev_poll_def split: option.splits if_splits)
  then show ?thesis using dev_step_refl [OF inv] by simp
next
  case (Ioctl cmd arg)
  then show ?thesis using run ok dev_step_ioctl [OF inv env] by simp
next
  case (Compat_ioctl cmd arg)
  then show ?thesis using run ok dev_step_ioctl [OF inv env] by (simp add: vsc_dev_compat_ioctl_def)
qed

text \<open>One call of a kernel that keeps its promises, by any file.\<close>

inductive call_step :: "(nat \<Rightarrow> nat multiset) \<Rightarrow> vsc_dev \<Rightarrow> vsc_dev \<Rightarrow> bool"
  for H :: "nat \<Rightarrow> nat multiset" where
  file_called: "api_quiet (de_api E) \<Longrightarrow> reg_fresh (de_reg E) H (dsys d) \<Longrightarrow> call_ok call E f d \<Longrightarrow>
    vsc_ioctl_fops call E f d = Some (r, d') \<Longrightarrow> call_step H d d'"

inductive_cases call_stepE: "call_step H d d'"

lemma calls_step:
  assumes "(call_step H)\<^sup>*\<^sup>* d d'"
  shows "dev_inv S H G d \<Longrightarrow> dev_step S H G UNIV d d'"
  using assms
proof (induction arbitrary: S G rule: converse_rtranclp_induct)
  case base
  then show ?case by (rule dev_step_refl)
next
  case (step d d1)
  show ?case
  proof (rule dev_step_trans)
    show "dev_step S H G UNIV d d1" using step.hyps(1) step.prems by (elim call_stepE) (rule dev_step_call, simp_all)
  qed (rule step.IH)
qed


subsection \<open>Who may do what\<close>

text \<open>
  (C13) A process without \<open>CAP_SYS_ADMIN\<close> that has opened the device and is not attached changes nothing,
  whatever it calls: reads and writes are refused with \<open>-EBADF\<close>, every ioctl with an error code, and
  it sees no host when it polls.
\<close>

theorem unprivileged_file_is_inert:
  assumes "\<not> capable E" "private_data d f = None"
  shows "\<exists>r. vsc_ioctl_fops call E f d = Some (r, d) \<and>
     (case call of Read p n \<Rightarrow> r = - EBADF | Write p n \<Rightarrow> r = - EBADF
        | Ioctl cmd arg \<Rightarrow> r < 0 | Compat_ioctl cmd arg \<Rightarrow> r < 0 | _ \<Rightarrow> r = 0)"
proof -
  have arg: "\<exists>e. take_arg E n p d = Inl e \<and> e < 0" for n p
    using assms(1) by (simp add: take_arg_def)
  have case_arg: "\<exists>r. (case take_arg E n p d of Inl e \<Rightarrow> Some (e, d) | Inr bs \<Rightarrow> g bs) = Some (r, d) \<and> r < 0" for n p g
    using arg [of n p] by auto
  have att: "\<exists>r. vsc_dev_attach_host E f p d = Some (r, d) \<and> r < 0" for p
    using assms by (simp add: vsc_dev_attach_host_def split_beta Let_def)
  have query: "\<exists>r. vsc_dev_query_vol E p d = Some (r, d) \<and> r < 0" for p
    using assms(1) by (simp add: vsc_dev_query_vol_def)
  have none: "\<exists>r. vsc_dev_detach_host E f d = Some (r, d) \<and> r < 0" "\<exists>r. vsc_dev_suspend_host f d = Some (r, d) \<and> r < 0"
    "\<exists>r. vsc_dev_resume_host f d = Some (r, d) \<and> r < 0" "\<exists>r. Some (- ENOTTY, d) = Some (r, d) \<and> r < 0"
    using assms(2) by (simp_all add: vsc_dev_detach_host_def detach_file_def vsc_dev_suspend_host_def
        vsc_dev_resume_host_def)
  have ioctl: "\<exists>r. vsc_dev_ioctl E f cmd p d = Some (r, d) \<and> r < 0" for cmd p
    unfolding vsc_dev_ioctl_def vsc_dev_add_host_def vsc_dev_rmv_host_def vsc_dev_add_disk_def vsc_dev_rmv_disk_def
      vsc_dev_add_disk_by_vol_name_def vsc_dev_rmv_disk_by_vol_name_def vsc_dev_set_disk_stat_def
      vsc_dev_get_disk_stat_def vsc_dev_set_disk_rq_timeout_def vsc_dev_set_tg_abn_timeout_def
    by (intro if_refused case_arg att query none)
  have opened: "d\<lparr>private_data := (private_data d)(f := None)\<rparr> = d"
    using assms(2) by (cases d) (auto simp: fun_eq_iff)
  show ?thesis
    using assms(2) ioctl opened
    by (cases "call") (simp_all add: vsc_dev_open_def vsc_dev_f_flush_def vsc_dev_release_def detach_file_def
        vsc_dev_read_def vsc_dev_write_def vsc_dev_poll_def vsc_poll_wait_def vsc_dev_compat_ioctl_def)
qed

text \<open>
  (C39) Removing a host does not look at the files attached to it: after it, the file still points to the
  released block, and its next read, write, poll, detach or close uses freed memory.
\<close>

theorem removed_host_strands_file:
  assumes "vsc_dev_rmv_host E p d = Some (0, d')" "private_data d f = Some a" "distinct (live (dsys d))"
    and "take_arg E 4 p d = Inr bs" "rd32 bs 0 = Some hno" "vsc_get_ctlr_by_host hno (dworld d) = Some a"
    and "scsi_host (hosts (dworld d) a) \<noteq> None"
  shows "private_data d' f = Some a \<and> a \<notin> set (live (dsys d')) \<and>
     vsc_ioctl_fops (Read ub n) E f d' = None \<and> vsc_ioctl_fops (Write ub n) E f d' = None \<and>
     vsc_ioctl_fops Poll E f d' = None \<and> vsc_ioctl_fops Release E f d' = None \<and>
     vsc_ioctl_fops (Ioctl (vsc_io 21) arg) E f d' = None"
proof -
  from assms obtain s where s: "vsc_remove_host (Some a) (dsys d) = Some (0, s)" "d' = d\<lparr>dsys := s\<rparr>"
    by (auto simp: vsc_dev_rmv_host_def on_host_def bind_eq_Some_conv split: if_splits)
  have "live s = remove1 a (live (dsys d))"
    using s(1) assms(7) by (auto simp: vsc_remove_host_def vsc_do_remove_host_def bind_eq_Some_conv Let_def
        split: if_splits option.splits)
  then have dead: "a \<notin> set (live (dsys d'))" "private_data d' f = Some a"
    using assms(2,3) by (simp_all add: s(2))
  then show ?thesis
    by (simp add: vsc_dev_read_def vsc_dev_write_def vsc_dev_poll_def vsc_dev_release_def vsc_dev_ioctl_def
        vsc_dev_detach_host_def detach_file_def vsc_io_def)
qed

subsection \<open>At concrete states\<close>

text \<open>A privileged caller, a request to add host 0x101 in its memory, and a system without hosts.\<close>

definition example_dev_env :: dev_env where
  "example_dev_env = \<lparr>capable = True, kzalloc_ok = True, de_api = example_api, de_hz = 250, de_jiffies = 0,
     de_reg = example_env, sdev_of_u32 = SDEV_OTHER, u32_of_sdev = (\<lambda>_. 0), de_command_size = length,
     de_stk = [], de_pad = 0, de_pool = None, de_wait = (\<lambda>h. (0, h))\<rparr>"

definition example_request :: "byte list" where
  "example_request = enc_words (add_host_words (example_info 0x101))"

definition example_dev :: vsc_dev where
  "example_dev = \<lparr>dsys = empty_sys, private_data = (\<lambda>_. None), f_nonblock = (\<lambda>_. False),
     user_mem = snd (copy_to_user 4096 example_request (\<lambda>_. Some 0))\<rparr>"

lemma length_request: "length example_request = 36"
  by (simp add: example_request_def add_host_arg.to_words_length)

lemma example_mapped: "mapped a n (\<lambda>_. Some 0)"
  by (simp add: mapped_def)

lemma example_take_arg: "take_arg example_dev_env 36 4096 example_dev = Inr example_request"
proof -
  have m: "mapped 4096 36 (user_mem example_dev)"
    by (simp add: example_dev_def example_mapped)
  have "ubytes 4096 36 (user_mem example_dev) = example_request"
    using copy_to_user_bytes [OF example_mapped, of example_request 4096] length_request
    by (simp add: example_dev_def)
  with m show ?thesis
    by (simp add: take_arg_def copy_from_user_eq(3) example_dev_env_def)
qed

lemma example_request_words: "map_option of_add_host_words (rd_words example_request 0 9) = Some (example_info 0x101)"
  using add_host_arg.cd.dec_enc [of "[]" "example_info 0x101" "[]"] by (simp add: example_request_def)

lemma example_dev_inv: "dev_inv {} (\<lambda>_. {#}) (\<lambda>_. {#}) example_dev"
  by (simp add: dev_inv_def world_inv_def mgr_hosts_def files_ok_def example_dev_def empty_sys_def)

lemma example_api_quiet: "api_quiet example_api"
  by (simp add: api_quiet_def example_api_def upd_sdev_def)


theorem unprivileged_file_is_inert_witness:
  "\<exists>r. vsc_ioctl_fops (Ioctl (vsc_io 0) 4096) (example_dev_env\<lparr>capable := False\<rparr>) 0 example_dev = Some (r, example_dev) \<and> r < 0"
proof -
  have "\<not> capable (example_dev_env\<lparr>capable := False\<rparr>)" "private_data example_dev 0 = None"
    by (simp_all add: example_dev_def)
  from unprivileged_file_is_inert [OF this, of "Ioctl (vsc_io 0) 4096"] show ?thesis by simp
qed

text \<open>A busy host with the file 7 attached, and the number of the host in user memory.\<close>

definition busy_dev :: vsc_dev where
  "busy_dev = \<lparr>dsys = busy_sys, private_data = (\<lambda>_. None)(7 := Some 0), f_nonblock = (\<lambda>_. False),
     user_mem = snd (copy_to_user 4096 (le_bytes 4 (0x100 :: u32)) (\<lambda>_. Some 0))\<rparr>"

lemma busy_take_arg: "take_arg example_dev_env 4 4096 busy_dev = Inr (le_bytes 4 (0x100 :: u32))"
proof -
  have m: "mapped 4096 4 (user_mem busy_dev)"
    by (simp add: busy_dev_def example_mapped)
  have "ubytes 4096 4 (user_mem busy_dev) = le_bytes 4 (0x100 :: u32)"
    using copy_to_user_bytes [OF example_mapped, of "le_bytes 4 (0x100 :: u32)" 4096]
    by (simp add: busy_dev_def)
  with m show ?thesis
    by (simp add: take_arg_def copy_from_user_eq(3) example_dev_env_def)
qed

theorem removed_host_strands_file_witness:
  "\<exists>d'. vsc_dev_rmv_host example_dev_env 4096 busy_dev = Some (0, d') \<and> private_data d' 7 = Some 0 \<and>
     vsc_ioctl_fops (Read 0 0) example_dev_env 7 d' = None"
proof -
  have hno: "rd32 (le_bytes 4 (0x100 :: u32)) 0 = Some 0x100" using rd32_le_bytes [of "[]" "0x100" "[]"] by simp
  have get: "vsc_get_ctlr_by_host 0x100 (dworld busy_dev) = Some 0"
    and sh: "scsi_host (hosts (dworld busy_dev) 0) \<noteq> None" and lv: "live (dsys busy_dev) = [0]"
    and pd: "private_data busy_dev 7 = Some 0"
    using busy_registered by (simp_all add: busy_dev_def) 
  obtain s' where s': "vsc_remove_host (Some 0) (dsys busy_dev) = Some (0, s')"
    using busy_registered by (auto simp: busy_dev_def)
  have run: "vsc_dev_rmv_host example_dev_env 4096 busy_dev = Some (0, busy_dev\<lparr>dsys := s'\<rparr>)"
    using busy_take_arg hno get lv s' by (simp add: vsc_dev_rmv_host_def on_host_def)
  have "distinct (live (dsys busy_dev))" using lv by simp
  from removed_host_strands_file [OF run pd this busy_take_arg hno get sh, of 0 0 0] run show ?thesis by blast
qed

end
