(* ===== verification/Vsc_Driver.thy ===== *)
theory Vsc_Driver
  imports Vsc_Files
begin

text \<open>
  The driver as a whole: the middle layer queues commands and calls the error handlers, which sleep
  between their halves, the timer of a host without a target fires, and any files make any calls, all of
  them interleaved. The state is that of the device file and the handlers that sleep.
\<close>

subsection \<open>What the handlers leave of a host\<close>

text \<open>No command is added and no buffer is handed to another command.\<close>

definition kept_host :: "vsc_ctrl_info \<Rightarrow> vsc_ctrl_info \<Rightarrow> bool" where
  "kept_host h h' \<longleftrightarrow> silbing_hosts h' = silbing_hosts h \<and> h_file h' = h_file h \<and> scsi_host h' = scsi_host h \<and>
     set (allQ h') \<subseteq> set (allQ h) \<and> (reqQ h = [] \<longrightarrow> reqQ h' = []) \<and>
     (\<forall>j. scsi_cmd (cmd_of h' j) = scsi_cmd (cmd_of h j)) \<and> (phases_ok h \<longrightarrow> phases_ok h')"

lemma kept_host_refl [simp]: "kept_host h h"
  by (simp add: kept_host_def)

lemma kept_host_trans: "kept_host h h' \<Longrightarrow> kept_host h' h'' \<Longrightarrow> kept_host h h''"
  by (auto simp: kept_host_def)

lemma kept_host_emptied:
  assumes "same_host h h'" "allQ h' = []" "\<And>j. scsi_cmd (cmd_of h' j) = scsi_cmd (cmd_of h j)"
  shows "kept_host h h'"
  using assms by (simp add: kept_host_def same_host_def phases_ok_def allQ_def)

lemma kept_host_queues:
  assumes "same_host h h'" "set (reqQ h') \<subseteq> set (reqQ h)" "set (cmpQ h') \<subseteq> set (cmpQ h)" "set (rspQ h') \<subseteq> set (rspQ h)"
    and "\<And>j. scsi_cmd (cmd_of h' j) = scsi_cmd (cmd_of h j)" "\<And>j. cstat (cmd_of h' j) = cstat (cmd_of h j)"
  shows "kept_host h h'"
  using assms by (auto simp: kept_host_def same_host_def phases_ok_def allQ_def)

lemma kept_host_same_cmds: "same_host h h' \<Longrightarrow> same_cmds h h' \<Longrightarrow> kept_host h h'"
  by (rule kept_host_queues) (simp_all add: same_cmds_def)

lemma block_ok_kept:
  assumes "block_ok a HE h m" "kept_host h h'" "same_cdbs m m'" "event_inv HE' h'"
  shows "block_ok a HE' h' m'"
  using assms by (auto simp: block_ok_def kept_host_def cdbs_ok_def scribbled_def same_cdbs_def)

lemma post_event_frame:
  assumes "post_event cb ty f sc a c w = Some (r, w')"
  shows "\<exists>h'. w' = upd_host a h' w \<and> kept_host (hosts w a) h' \<and>
    (\<forall>x. r = Inl x \<longrightarrow> same_events (hosts w a) h')"
proof -
  let ?h2 = "upd_stat f (vsc_cmd_get c (hosts w a))"
  have "kept_host (hosts w a) (vsc_cmd_get c (hosts w a))"
    by (rule kept_host_queues [OF cmd_get_frame(1)]) (simp_all add: cmd_get_frame)
  then have k2: "kept_host (hosts w a) ?h2"
    by (rule kept_host_trans [OF _ kept_host_same_cmds [OF upd_stat_frame(3,1)]])
  have e2: "same_events (hosts w a) ?h2"
    by (rule same_events_trans [OF cmd_get_frame(2) upd_stat_frame(2)])
  from assms obtain r3 h3 where al: "vsc_event_alloc ?h2 = Some (r3, h3)"
    by (auto simp: post_event_def bind_eq_Some_conv)
  have k3: "kept_host ?h2 h3"
    by (rule kept_host_same_cmds [OF same_host_event_alloc [OF al] same_cmds_event_alloc [OF al]])
  show ?thesis
  proof (cases r3)
    case None
    then have "h3 = ?h2"
      using al by (auto simp: vsc_event_alloc_def bind_eq_Some_conv Let_def split: option.splits)
    moreover have "kept_host ?h2 (vsc_cmd_put c ?h2)"
      by (rule kept_host_queues [OF cmd_put_frame(1)]) (simp_all add: cmd_put_frame)
    ultimately show ?thesis
      using assms None al kept_host_trans [OF k2] same_events_trans [OF e2 cmd_put_frame(2)]
      by (intro exI [of _ "vsc_cmd_put c ?h2"]) (auto simp: post_event_def)
  next
    case (Some e)
    define h5 where "h5 data = vsc_event_wait_begin e (snd (vsc_event_add e cb ty data FAILED h3))" for data
    have "kept_host h3 (h5 data)" for data
      unfolding h5_def
      by (rule kept_host_same_cmds [OF same_host_trans [OF same_host_event(8) same_host_event(6)]
            same_cmds_trans [OF same_cmds_event(8) same_cmds_event(6)]])
    then have "kept_host (hosts w a) (h5 data)" for data using k2 k3 by (blast intro: kept_host_trans)
    moreover have "\<exists>data. w' = upd_host a (h5 data) w \<and> (\<exists>y. r = Inr y)"
      using assms Some al by (auto simp: post_event_def Let_def split_beta h5_def)
    ultimately show ?thesis by auto
  qed
qed

lemma eh_abort_end_frame:
  assumes "vsc_eh_abort_end sc (a, c, e) retval w = Some (r, w')"
  shows "\<exists>h m. w' = (upd_host a h w)\<lparr>mid := m\<rparr> \<and> kept_host (hosts w a) h \<and> same_cdbs (mid w) m"
proof -
  from assms obtain x h1 where h1: "vsc_event_wait_end e retval (hosts w a) = Some (x, h1)"
    by (auto simp: eh_abort_end_eq bind_eq_Some_conv)
  define h2 where "h2 = (if event_priv (event_of h1 e) = SUCCESS \<and> c \<in> set (allQ h1) then vsc_cmd_put c (unlink c h1) else h1)"
  define m where "m = (if event_priv (event_of h1 e) = SUCCESS \<and> c \<in> set (allQ h1) then complete (push_bit 16 DID_ABORT) sc (mid w) else mid w)"
  have w': "w' = (upd_host a (vsc_cmd_put c (vsc_event_del e h2)) w)\<lparr>mid := m\<rparr>"
    using assms unfolding eh_abort_end_eq h1 bind.bind_lunit Let_def prod.case h2_def m_def option.inject prod.inject
    by (elim conjE, hypsubst, intro refl)
  have k1: "kept_host (hosts w a) h1"
    using vsc_event_wait_end_same_host [OF h1] by (rule kept_host_same_cmds)
  have "kept_host h1 (unlink c h1)"
    by (rule kept_host_queues [OF unlink_frame(1)]) (simp_all add: set_remove1_subset)
  moreover have put: "kept_host h (vsc_cmd_put c h)" for h
    by (rule kept_host_queues [OF cmd_put_frame(1)]) (simp_all add: cmd_put_frame)
  ultimately have k2: "kept_host h1 h2" unfolding h2_def by (auto intro: kept_host_trans)
  have "kept_host h2 (vsc_event_del e h2)"
    by (rule kept_host_same_cmds [OF same_host_event(4) same_cmds_event(4)])
  with k1 k2 put have "kept_host (hosts w a) (vsc_cmd_put c (vsc_event_del e h2))"
    by (blast intro: kept_host_trans)
  moreover have "same_cdbs (mid w) m" by (simp add: m_def same_cdbs_def)
  ultimately show ?thesis using w' by blast
qed

subsection \<open>The handlers that sleep\<close>

datatype eh_kind = Eh_abort | Eh_reset

text \<open>A sleeping handler: which one, its command, and its pointers to the host and to the two buffers.\<close>

type_synonym sleeper = "eh_kind \<times> nat \<times> eh_frame"

definition held_cmds :: "sleeper multiset \<Rightarrow> nat \<Rightarrow> nat multiset" where
  "held_cmds Z a = image_mset (\<lambda>(k, sc, b, c, e). c) (filter_mset (\<lambda>(k, sc, b, c, e). b = a) Z)"

definition held_events :: "sleeper multiset \<Rightarrow> nat \<Rightarrow> nat multiset" where
  "held_events Z a = (\<Sum>(k, sc, b, c, e)\<in>#filter_mset (\<lambda>(k, sc, b, c, e). b = a) Z. {#e, e#})"

lemma held_simps [simp]:
  "held_cmds {#} = (\<lambda>_. {#})" "held_events {#} = (\<lambda>_. {#})"
  "held_cmds (add_mset (k, sc, a, c, e) Z) = (held_cmds Z)(a := add_mset c (held_cmds Z a))"
  "held_events (add_mset (k, sc, a, c, e) Z) = (held_events Z)(a := add_mset e (add_mset e (held_events Z a)))"
  by (auto simp: held_cmds_def held_events_def fun_eq_iff)

lemma held_member:
  assumes "(k, sc, a, c, e) \<in># Z"
  shows "c \<in># held_cmds Z a" "e \<in># held_events Z a"
proof -
  obtain Y where "Z = add_mset (k, sc, a, c, e) Y" using assms by (metis mset_add)
  then show "c \<in># held_cmds Z a" "e \<in># held_events Z a" by simp_all
qed

lemma held_events_empty: "held_events Z a = {#} \<longleftrightarrow> held_cmds Z a = {#}"
  by (induction Z) (auto split: if_splits)

definition drv_inv :: "nat set \<Rightarrow> vsc_dev \<times> sleeper multiset \<Rightarrow> bool" where
  "drv_inv S = (\<lambda>(d, Z). dev_inv S (held_cmds Z) (held_events Z) d \<and>
     (\<forall>(k, sc, a, c, e)\<in>#Z. scsi_cmd (cmd_of (hosts (dworld d) a) c) = Some sc))"

lemma dev_inv_world:
  assumes inv: "dev_inv S H G d" and w: "world_inv S H' w'"
    and lists: "mgrs w' = mgrs (dworld d)" "g_host_mgr_list w' = g_host_mgr_list (dworld d)"
    and kept: "\<And>b. silbing_hosts (hosts w' b) = silbing_hosts (hosts (dworld d) b)"
      "\<And>b. h_file (hosts w' b) = h_file (hosts (dworld d) b)"
      "\<And>b. b \<notin> set (live (dsys d)) \<Longrightarrow> hosts w' b = hosts (dworld d) b"
    and blocks: "\<And>b. b \<in> set (live (dsys d)) \<Longrightarrow> block_ok b (G' b) (hosts w' b) (mid w')"
      "\<And>b. b \<notin> set (live (dsys d)) \<Longrightarrow> G' b = {#}"
  shows "dev_inv S H' G' (set_world w' d)"
proof -
  have "mgr_hosts S w'" using inv lists kept(1) by (simp add: dev_inv_def mgr_hosts_def)
  moreover have "files_ok (set_world w' d)" using inv kept(2) by (simp add: dev_inv_def files_ok_def)
  ultimately show ?thesis using inv w kept(3) blocks by (simp add: dev_inv_def)
qed

text \<open>A handler makes this step: no command is added.\<close>

lemma handler_inv:
  assumes inv: "dev_inv S H G d" and w: "world_inv S H' w'"
    and lists: "mgrs w' = mgrs (dworld d)" "g_host_mgr_list w' = g_host_mgr_list (dworld d)"
    and kept: "\<And>b. kept_host (hosts (dworld d) b) (hosts w' b)" "\<And>b. b \<notin> set (live (dsys d)) \<Longrightarrow> hosts w' b = hosts (dworld d) b"
    and events: "\<And>b. b \<in> set (live (dsys d)) \<Longrightarrow> event_inv (G b) (hosts (dworld d) b) \<Longrightarrow> event_inv (G' b) (hosts w' b)"
      "\<And>b. b \<notin> set (live (dsys d)) \<Longrightarrow> G' b = {#}"
    and mid: "same_cdbs (mid (dworld d)) (mid w')"
  shows "dev_inv S H' G' (set_world w' d)"
proof (rule dev_inv_world [OF inv w lists])
  fix b
  show "silbing_hosts (hosts w' b) = silbing_hosts (hosts (dworld d) b)" "h_file (hosts w' b) = h_file (hosts (dworld d) b)"
    using kept(1) [of b] by (simp_all add: kept_host_def)
  assume b: "b \<in> set (live (dsys d))"
  have ok: "block_ok b (G b) (hosts (dworld d) b) (mid (dworld d))" using inv b by (simp add: dev_inv_def)
  then show "block_ok b (G' b) (hosts w' b) (mid w')"
    using block_ok_kept [OF ok kept(1) mid events(1) [OF b]] by (simp add: block_ok_def)
qed (use kept(2) events(2) in simp_all)

lemma drv_invD:
  assumes "drv_inv S (d, Z)" "(k, sc, a, c, e) \<in># Z"
  shows "a \<in> set (live (dsys d))" "scsi_cmd (cmd_of (hosts (dworld d) a) c) = Some sc"
    "c \<in> cmd_used (hosts (dworld d) a)" "e \<in> event_used (hosts (dworld d) a)"
proof -
  have inv: "dev_inv S (held_cmds Z) (held_events Z) d" using assms(1) by (simp add: drv_inv_def)
  note h = held_member [OF assms(2)]
  show a: "a \<in> set (live (dsys d))" using inv h(2) by (auto simp: dev_inv_def)
  show "scsi_cmd (cmd_of (hosts (dworld d) a) c) = Some sc" using assms by (auto simp: drv_inv_def)
  note l = dev_inv_live [OF inv a]
  show "c \<in> cmd_used (hosts (dworld d) a)" using host_inv_held [OF l(3) h(1)] by simp
  have "event_inv (held_events Z a) (hosts (dworld d) a)" using l(4) by (simp add: block_ok_def)
  then show "e \<in> event_used (hosts (dworld d) a)" using event_inv_held h(2) by blast
qed

lemma count_image_mset_filter: "count (image_mset f (mset xs)) x = length (filter (\<lambda>c. f c = x) xs)"
  by (induction xs) simp_all

text \<open>The commands in flight point to their buffers, so each is in flight once.\<close>

lemma in_flight_buffer:
  assumes "dev_inv S H G d" "a \<in> set (live (dsys d))" "sc \<in># inflight (hosts (dworld d) a)"
  obtains c where "host_scribble (scmds (mid (dworld d)) sc) = Some (a, c)" "c \<in> set (allQ (hosts (dworld d) a))"
    "scsi_cmd (cmd_of (hosts (dworld d) a) c) = Some sc" "c \<in> cmd_used (hosts (dworld d) a)"
proof -
  note l = dev_inv_live [OF assms(1,2)]
  obtain c where c: "c \<in> set (allQ (hosts (dworld d) a))" "the (scsi_cmd (cmd_of (hosts (dworld d) a) c)) = sc"
    using assms(3) by (auto simp: inflight_def)
  from host_inv_linked [OF l(3) c(1)] c(2) have "scsi_cmd (cmd_of (hosts (dworld d) a) c) = Some sc" by auto
  then show thesis
    using that [of c] c(1) l(4) host_inv_linked [OF l(3) c(1)] by (simp add: block_ok_def scribbled_def)
qed

lemma in_flight_once:
  assumes inv: "dev_inv S H G d"
  shows "count (winflight S (dworld d)) sc \<le> 1"
proof -
  let ?w = "dworld d" and ?L = "set (live (dsys d))"
  have fin: "finite S" and sub: "?L \<subseteq> S" and dead: "\<forall>a\<in>S - ?L. inflight (hosts ?w a) = {#}"
    using inv by (simp_all add: dev_inv_def world_inv_def)
  have one: "count (inflight (hosts ?w a)) sc \<le> 1" if a: "a \<in> ?L" for a
  proof -
    let ?h = "hosts ?w a" and ?P = "\<lambda>c. the (scsi_cmd (cmd_of (hosts ?w a) c)) = sc"
    note l = dev_inv_live [OF inv a]
    have d: "distinct (allQ ?h)" using l(3) by (simp add: host_inv_defs)
    have ptr: "host_scribble (scmds (mid ?w) sc) = Some (a, c)" if "c \<in> set (filter ?P (allQ ?h))" for c
      using host_inv_linked [OF l(3), of c] l(4) that by (auto simp: block_ok_def scribbled_def)
    have "length (filter ?P (allQ ?h)) \<le> 1"
    proof (rule ccontr)
      assume "\<not> length (filter ?P (allQ ?h)) \<le> 1"
      then obtain c c' cs where f: "filter ?P (allQ ?h) = c # c' # cs"
        by (cases "filter ?P (allQ ?h)"; cases "tl (filter ?P (allQ ?h))") auto
      then have "host_scribble (scmds (mid ?w) sc) = Some (a, c)" "host_scribble (scmds (mid ?w) sc) = Some (a, c')"
        using ptr [of c] ptr [of c'] unfolding f by simp_all
      moreover have "distinct (filter ?P (allQ ?h))" using d by simp
      ultimately show False unfolding f by simp
    qed
    moreover have "count (inflight ?h) sc = length (filter ?P (allQ ?h))"
      unfolding inflight_def by (rule count_image_mset_filter)
    ultimately show ?thesis by simp
  qed
  have uniq: "a = b" if "a \<in> ?L" "b \<in> ?L" "sc \<in># inflight (hosts ?w a)" "sc \<in># inflight (hosts ?w b)" for a b
    using in_flight_buffer [OF inv that(1,3)] in_flight_buffer [OF inv that(2,4)] by (metis option.inject prod.inject)
  have sum: "count (winflight S ?w) sc = (\<Sum>a\<in>S. count (inflight (hosts ?w a)) sc)"
    by (simp add: winflight_def count_sum)
  show ?thesis
  proof (cases "\<exists>a\<in>?L. sc \<in># inflight (hosts ?w a)")
    case True
    then obtain a where a: "a \<in> ?L" "sc \<in># inflight (hosts ?w a)" by blast
    have "count (inflight (hosts ?w b)) sc = 0" if "b \<in> S - {a}" for b
      using that dead uniq [of b a] a by (cases "b \<in> ?L") (auto simp: count_eq_zero_iff)
    then have "(\<Sum>b\<in>S. count (inflight (hosts ?w b)) sc) = count (inflight (hosts ?w a)) sc"
      using fin sub a(1) by (subst sum.remove [of S a]) auto
    then show ?thesis using sum one [OF a(1)] by simp
  next
    case False
    then have "count (inflight (hosts ?w b)) sc = 0" if "b \<in> S" for b
      using that dead by (cases "b \<in> ?L") (auto simp: count_eq_zero_iff)
    then show ?thesis using sum by simp
  qed
qed

subsection \<open>Queueing a command\<close>

text \<open>No vbs names a host that was removed.\<close>

definition vbs_live :: "vsc_dev \<Rightarrow> bool" where
  "vbs_live d \<longleftrightarrow> (\<forall>a\<in>set (live (dsys d)). \<forall>mp. silbing_hosts (hosts (dworld d) a) = Some mp \<longrightarrow>
     (\<forall>b. Some b \<in> set (host_list (mgrs (dworld d) mp)) \<longrightarrow> b \<in> set (live (dsys d))))"

text \<open>The middle layer hands over a command with a CDB, for a device of a host that exists, once.\<close>

definition submittable :: "nat \<Rightarrow> vsc_dev \<Rightarrow> bool" where
  "submittable sc d \<longleftrightarrow>
     (let m = mid (dworld d) in
      cmnd (scmds m sc) \<noteq> [] \<and> hostdata (shosts m (sdev_host (sdevs m (sc_device (scmds m sc))))) \<in> set (live (dsys d)) \<and>
      (\<forall>a\<in>set (live (dsys d)). sc \<notin># inflight (hosts (dworld d) a)))"

lemma live_world_inv:
  assumes "dev_inv S H G d" "vbs_live d"
  shows "world_inv (set (live (dsys d))) H (dworld d)"
  using assms by (auto simp: dev_inv_def world_inv_def vbs_live_def)

lemma queue_command_frame:
  assumes "vsc_scsi_queue_command sc w = Some (r, w')"
  shows "g_host_mgr_list w' = g_host_mgr_list w" "cmnd (scmds (mid w') s) = cmnd (scmds (mid w) s)"
    "s \<noteq> sc \<Longrightarrow> host_scribble (scmds (mid w') s) = host_scribble (scmds (mid w) s)"
  using assms
  by (auto simp: vsc_scsi_queue_command_def bind_eq_Some_conv Let_def scsi_done_def upd_sc_def set_host_lock_def
      upd_host_def set_vol_extend_def dest!: vsc_select_host_frame split: if_splits option.splits)

lemma block_ok_other:
  assumes "block_ok a HE h m" "sc \<notin># inflight h" "\<And>s. cmnd (scmds m' s) = cmnd (scmds m s)"
    and "\<And>s. s \<noteq> sc \<Longrightarrow> host_scribble (scmds m' s) = host_scribble (scmds m s)"
  shows "block_ok a HE h m'"
proof -
  have "s \<noteq> sc" if "c \<in> set (allQ h)" "scsi_cmd (cmd_of h c) = Some s" for c s
    using assms(2) that by (auto simp: inflight_def image_iff)
  then show ?thesis using assms by (auto simp: block_ok_def cdbs_ok_def scribbled_def)
qed

text \<open>The host that got the command.\<close>

lemma queued_block:
  assumes inv: "host_inv H h" and alloc: "vsc_cmd_alloc h = Some (Some c, h1)"
    and ok: "block_ok b HE h m" "sc \<notin># inflight h" "cmnd (scmds m sc) \<noteq> []"
    and mid: "\<And>s. cmnd (scmds m' s) = cmnd (scmds m s)"
      "\<And>s. s \<noteq> sc \<Longrightarrow> host_scribble (scmds m' s) = host_scribble (scmds m s)" "host_scribble (scmds m' sc) = Some (b, c)"
  shows "block_ok b HE (vsc_enqueue_cmd_and_start_io c (upd_cmd c (\<lambda>x. x\<lparr>scsi_cmd := Some sc\<rparr>) h1)) m'"
proof -
  let ?h = "vsc_enqueue_cmd_and_start_io c (upd_cmd c (\<lambda>x. x\<lparr>scsi_cmd := Some sc\<rparr>) h1)"
  note q = queued_host(1-6,9-13) [OF inv alloc, where sc = sc] and qc = queued_host(7,8) [OF inv alloc]
  have o: "block_ok b HE h m'" using block_ok_other [OF ok(1,2) mid(1,2)] by simp
  have all: "set (allQ ?h) = insert c (set (allQ h))"
    using q(6,7,8) ok(1) by (auto simp: allQ_def block_ok_def)
  have "phases_ok ?h" using q(9) o by (simp add: block_ok_def)
  moreover have "event_half ?h = event_half h" using alloc by (rule event_half_queued)
  then have "same_events h ?h" by (simp add: event_half_def same_events_def)
  then have "event_inv HE ?h" using o event_inv_same_events by (auto simp: block_ok_def)
  moreover have "cdbs_ok ?h m'"
    using o all qc(1) q(11) ok(3) mid(1) by (auto simp: block_ok_def cdbs_ok_def)
  moreover have "scribbled b ?h m'"
    using o all qc(1) q(11) mid(3) by (auto simp: block_ok_def scribbled_def split: if_splits)
  ultimately show ?thesis using q(4,7) o by (simp add: block_ok_def)
qed

lemma queue_step:
  assumes inv: "drv_inv S (d, Z)" and sub: "submittable sc d" "vbs_live d"
    and run: "vsc_scsi_queue_command sc (dworld d) = Some (r, w')"
  shows "drv_inv S (set_world w' d, Z)"
    "dev_flight S (set_world w' d) = (if r = 0 then {#sc#} else {#}) + dev_flight S d"
proof -
  let ?w = "dworld d" and ?L = "set (live (dsys d))"
  have di: "dev_inv S (held_cmds Z) (held_events Z) d" using inv by (simp add: drv_inv_def)
  have L: "?L \<subseteq> S" and wi: "world_inv S (held_cmds Z) ?w" using di by (simp_all add: dev_inv_def)
  have orig: "hostdata (shosts (mid ?w) (sdev_host (sdevs (mid ?w) (sc_device (scmds (mid ?w) sc))))) \<in> ?L"
    and cdb: "cmnd (scmds (mid ?w) sc) \<noteq> []" and out: "\<And>a. a \<in> ?L \<Longrightarrow> sc \<notin># inflight (hosts ?w a)"
    using sub(1) by (simp_all add: submittable_def Let_def)
  note st = queue_command_step [OF wi subsetD [OF L orig] run]
  show "dev_flight S (set_world w' d) = (if r = 0 then {#sc#} else {#}) + dev_flight S d"
    using st(2) by (simp add: dev_flight_def)
  note fr = queue_command_frame [OF run]
  have old: "block_ok b (held_events Z b) (hosts ?w b) (mid w')" if "b \<in> ?L" for b
    using block_ok_other [OF dev_inv_live(4) [OF di that] out [OF that] fr(2,3)] by simp
  have quiet: "drv_inv S (set_world w' d, Z)" if "hosts w' = hosts ?w" "mgrs w' = mgrs ?w"
  proof -
    have "dev_inv S (held_cmds Z) (held_events Z) (set_world w' d)"
      by (rule dev_inv_world [OF di st(1) that(2) fr(1)]) (use old di in \<open>simp_all add: that dev_inv_def\<close>)
    then show ?thesis using inv that by (simp add: drv_inv_def)
  qed
  from live_world_inv [OF di sub(2)] refl orig run show "drv_inv S (set_world w' d, Z)"
  proof (cases rule: vsc_scsi_queue_command_cases)
    case deleted
    then show ?thesis using quiet by simp
  next
    case (refused shp)
    then show ?thesis using quiet by simp
  next
    case (queued shp b c h1)
    let ?h = "vsc_enqueue_cmd_and_start_io c (upd_cmd c (\<lambda>x. x\<lparr>scsi_cmd := Some sc\<rparr>) h1)"
    note l = dev_inv_live [OF di queued(2)]
    note q = queued_host(1-6,9-13) [OF l(3) queued(4), where sc = sc] and qc = queued_host(7,8) [OF l(3) queued(4)]
    have new: "block_ok b (held_events Z b) ?h (mid w')"
      by (rule queued_block [OF l(3) queued(4) l(4) out [OF queued(2)] cdb fr(2,3) queued(9)])
    have "dev_inv S (held_cmds Z) (held_events Z) (set_world w' d)"
      by (rule dev_inv_world [OF di st(1) queued(3) fr(1)])
        (use old new queued(2) q(3,10) di in \<open>auto simp: queued(5) dev_inv_def\<close>)
    moreover have "scsi_cmd (cmd_of (hosts w' a) c') = Some s" if "(k, s, a, c', e) \<in># Z" for k s a c' e
      using drv_invD(2) [OF inv that] held_member(1) [OF that] qc(2) q(11) by (auto simp: queued(5))
    ultimately show ?thesis by (auto simp: drv_inv_def)
  qed
qed

subsection \<open>The handlers' halves\<close>

text \<open>The half before the sleep.\<close>

definition eh_begin :: "eh_kind \<Rightarrow> nat \<Rightarrow> vsc_world \<Rightarrow> ((int + eh_frame) \<times> vsc_world) option" where
  "eh_begin k = (case k of Eh_abort \<Rightarrow> vsc_eh_abort_begin | Eh_reset \<Rightarrow> vsc_eh_reset_begin)"

definition asleep :: "eh_kind \<Rightarrow> nat \<Rightarrow> int + eh_frame \<Rightarrow> sleeper multiset \<Rightarrow> sleeper multiset" where
  "asleep k sc r Z = (case r of Inl _ \<Rightarrow> Z | Inr frame \<Rightarrow> add_mset (k, sc, frame) Z)"

lemma kept_upd_host: "kept_host (hosts w a) h \<Longrightarrow> kept_host (hosts w b) (hosts (upd_host a h w) b)"
  by (cases "b = a") simp_all

lemma drv_inv_kept:
  assumes "drv_inv S (d, Z)" "\<And>b. kept_host (hosts (dworld d) b) (hosts w' b)" "(k, sc, a, c, e) \<in># Z"
  shows "scsi_cmd (cmd_of (hosts w' a) c) = Some sc"
  using drv_invD(2) [OF assms(1,3)] assms(2) [of a] by (simp add: kept_host_def)

lemma drv_inv_rest:
  assumes "drv_inv S (d, add_mset z Z)" "\<And>b. kept_host (hosts (dworld d) b) (hosts w' b)"
    and "dev_inv S (held_cmds Z) (held_events Z) (set_world w' d)"
  shows "drv_inv S (set_world w' d, Z)"
proof -
  have "scsi_cmd (cmd_of (hosts w' a) c) = Some sc" if "(k, sc, a, c, e) \<in># Z" for k sc a c e
    by (rule drv_inv_kept [OF assms(1,2), where k = k and e = e]) (use that in simp)
  with assms(3) show ?thesis by (auto simp: drv_inv_def)
qed

lemma begin_step:
  assumes inv: "drv_inv S (d, Z)" and a: "a \<in> set (live (dsys d))" "sc \<in># inflight (hosts (dworld d) a)"
    and run: "eh_begin k sc (dworld d) = Some (r, w')"
  shows "drv_inv S (set_world w' d, asleep k sc r Z) \<and> dev_flight S (set_world w' d) = dev_flight S d"
proof -
  let ?w = "dworld d"
  have di: "dev_inv S (held_cmds Z) (held_events Z) d" using inv by (simp add: drv_inv_def)
  note l = dev_inv_live [OF di a(1)]
  have ev: "event_inv (held_events Z a) (hosts ?w a)" using l(4) by (simp add: block_ok_def)
  obtain c where c: "host_scribble (scmds (mid ?w) sc) = Some (a, c)"
    "scsi_cmd (cmd_of (hosts ?w a) c) = Some sc" "c \<in> cmd_used (hosts ?w a)"
    by (rule in_flight_buffer [OF di a])
  obtain cb ty f where post: "post_event cb ty f sc a c ?w = Some (r, w')"
    using run by (cases k) (auto simp: eh_begin_def eh_begin_eq c(1))
  obtain h' where h': "w' = upd_host a h' ?w" "kept_host (hosts ?w a) h'"
    "\<And>x. r = Inl x \<Longrightarrow> same_events (hosts ?w a) h'"
    using post_event_frame [OF post] by blast
  note kept = kept_upd_host [OF h'(2), folded h'(1)]
  have fl: "dev_flight S (set_world w' d) = dev_flight S d" if "winflight S w' = winflight S ?w"
    using that h'(1) by (simp add: dev_flight_def)
  show ?thesis
  proof (rule post_event_spec [OF l(2,1) c(3) ev, of cb ty f sc])
    fix v assume v: "post_event cb ty f sc a c ?w = Some (Inl SUCCESS, v)" "world_inv S (held_cmds Z) v"
      "winflight S v = winflight S ?w"
    then have r: "v = w'" "r = Inl SUCCESS" using post by simp_all
    have "dev_inv S (held_cmds Z) (held_events Z) (set_world w' d)"
      by (rule handler_inv [OF di v(2) [unfolded r(1)]])
        (use h' kept a(1) event_inv_same_events [OF h'(3) [OF r(2)]] di in \<open>auto simp: upd_host_def dev_inv_def\<close>)
    then have "drv_inv S (set_world w' d, Z)" using drv_inv_kept [OF inv kept] by (auto simp: drv_inv_def)
    with fl v(3) r show ?thesis by (simp add: asleep_def)
  next
    fix e v assume v: "post_event cb ty f sc a c ?w = Some (Inr (a, c, e), v)"
      "world_inv S ((held_cmds Z)(a := add_mset c (held_cmds Z a))) v" "winflight S v = winflight S ?w"
      "event_inv (add_mset e (add_mset e (held_events Z a))) (hosts v a)"
    then have r: "v = w'" "r = Inr (a, c, e)" using post by simp_all
    let ?Z = "add_mset (k, sc, a, c, e) Z"
    have "dev_inv S (held_cmds ?Z) (held_events ?Z) (set_world w' d)"
      unfolding held_simps
      by (rule handler_inv [OF di v(2) [unfolded r(1)]])
        (use h' kept a(1) v(4) di in \<open>auto simp: r(1) upd_host_def dev_inv_def\<close>)
    moreover have "scsi_cmd (cmd_of (hosts w' a) c) = Some sc" using c(2) kept [of a] by (simp add: kept_host_def)
    ultimately have "drv_inv S (set_world w' d, ?Z)" using drv_inv_kept [OF inv kept] by (auto simp: drv_inv_def)
    with fl v(3) r show ?thesis by (simp add: asleep_def)
  qed
qed

text \<open>An abort after its sleep.\<close>

lemma abort_end_step:
  assumes inv: "drv_inv S (d, add_mset (k, sc, a, c, e) Z)"
    and run: "vsc_eh_abort_end sc (a, c, e) retval (dworld d) = Some (r, w')"
  shows "drv_inv S (set_world w' d, Z) \<and> dev_flight S (set_world w' d) = dev_flight S d"
proof -
  let ?w = "dworld d" and ?Z = "add_mset (k, sc, a, c, e) Z"
  have di: "dev_inv S ((held_cmds Z)(a := add_mset c (held_cmds Z a)))
      ((held_events Z)(a := add_mset e (add_mset e (held_events Z a)))) d"
    using inv by (simp add: drv_inv_def)
  have slm: "(k, sc, a, c, e) \<in># ?Z" by simp
  note sl = drv_invD [OF inv slm]
  note l = dev_inv_live [OF di sl(1)]
  have ev: "event_inv (add_mset e (add_mset e (held_events Z a))) (hosts ?w a)" and rq: "c \<notin> set (reqQ (hosts ?w a))"
    using l(4) by (simp_all add: block_ok_def)
  note st = eh_abort_end_spec [OF l(2,1) ev rq sl(2) run]
  obtain h m where h: "w' = (upd_host a h ?w)\<lparr>mid := m\<rparr>" "kept_host (hosts ?w a) h" "same_cdbs (mid ?w) m"
    using eh_abort_end_frame [OF run] by blast
  have kept: "kept_host (hosts ?w b) (hosts w' b)" for b using kept_upd_host [OF h(2), of b] h(1) by simp
  have dead: "held_events Z b = {#}" if "b \<notin> set (live (dsys d))" for b
    using that sl(1) di by (auto simp: dev_inv_def split: if_splits)
  have "dev_inv S (held_cmds Z) (held_events Z) (set_world w' d)"
    by (rule handler_inv [OF di st(1)]) (use h kept sl(1) st(2) dead in \<open>auto simp: upd_host_def split: if_splits\<close>)
  then have "drv_inv S (set_world w' d, Z)" by (rule drv_inv_rest [OF inv kept])
  moreover have "dev_flight S (set_world w' d) = dev_flight S d"
    using st(3) completed_append [of "mid w'" "mid ?w" "[(sc, push_bit 16 DID_ABORT)]"]
    by (auto simp: dev_flight_def completed_def split: if_splits)
  ultimately show ?thesis ..
qed

text \<open>A reset after its sleep empties the whole vbs; no other handler may be asleep on its host.\<close>

lemma reset_end_step:
  assumes inv: "drv_inv S (d, add_mset (k, sc, a, c, e) Z)" and alone: "held_events Z a = {#}" and vl: "vbs_live d"
    and mp: "silbing_hosts (hosts (dworld d) a) = Some mp" "unat (host_count (mgrs (dworld d) mp)) \<le> MAX_HOST_NR_PER_VBS"
    and run: "vsc_eh_reset_end sc (a, c, e) retval (dworld d) = Some (r, w')"
  shows "drv_inv S (set_world w' d, Z) \<and> dev_flight S (set_world w' d) = dev_flight S d"
proof -
  let ?w = "dworld d" and ?B = "vbs_hosts (mgrs (dworld d) mp)"
  have di: "dev_inv S ((held_cmds Z)(a := add_mset c (held_cmds Z a)))
      ((held_events Z)(a := add_mset e (add_mset e (held_events Z a)))) d"
    using inv by (simp add: drv_inv_def)
  have slm: "(k, sc, a, c, e) \<in># add_mset (k, sc, a, c, e) Z" by simp
  have al: "a \<in> set (live (dsys d))" by (rule drv_invD(1) [OF inv slm])
  note l = dev_inv_live [OF di al]
  obtain r2 v L where v: "vsc_eh_reset_end sc (a, c, e) retval ?w = Some (r2, v)" "world_inv S (held_cmds Z) v"
    "\<forall>b\<in>?B. allQ (hosts v b) = []" "done_log (mid v) = done_log (mid ?w) @ L"
    "image_mset fst (mset L) + winflight S v = winflight S ?w"
    "\<forall>x\<in>set L. snd x = push_bit 16 (if r2 = SUCCESS then DID_REQUEUE else DID_SOFT_ERROR)"
    "mgrs v = mgrs ?w" "g_host_mgr_list v = g_host_mgr_list ?w" "same_cdbs (mid ?w) (mid v)"
    "\<forall>b. same_host (hosts ?w b) (hosts v b)" "\<forall>b j. scsi_cmd (cmd_of (hosts v b) j) = scsi_cmd (cmd_of (hosts ?w b) j)"
    "\<forall>b. b \<noteq> a \<longrightarrow> same_events (hosts ?w b) (hosts v b)"
    "\<forall>b. b \<noteq> a \<and> b \<notin> ?B \<longrightarrow> hosts v b = hosts ?w b"
    "a \<notin> ?B \<Longrightarrow> reqQ (hosts v a) = reqQ (hosts ?w a) \<and> allQ (hosts v a) = allQ (hosts ?w a) \<and>
       (phases_ok (hosts ?w a) \<longrightarrow> phases_ok (hosts v a))"
    "event_inv {#e, e#} (hosts ?w a) \<Longrightarrow> event_inv {#} (hosts v a)"
    by (rule eh_reset_end_world [OF l(2,1) mp, of sc e retval]) (rule that; blast)
  have v': "v = w'" using v(1) run by simp
  have kept: "kept_host (hosts ?w b) (hosts w' b)" for b
  proof (cases "b \<in> ?B")
    case True
    then show ?thesis using v(3,10,11) unfolding v' by (intro kept_host_emptied) simp_all
  next
    case False
    then show ?thesis
      using v(10-14) unfolding v' by (cases "b = a") (simp_all add: kept_host_def same_host_def)
  qed
  have sub: "?B \<subseteq> set (live (dsys d))"
  proof
    fix b assume "b \<in> ?B"
    then obtain i where i: "i < unat (host_count (mgrs ?w mp))" "host_list (mgrs ?w mp) ! i = Some b"
      by (auto simp: vbs_hosts_def)
    moreover have "length (host_list (mgrs ?w mp)) = MAX_HOST_NR_PER_VBS"
      using l(1,2) mp(1) by (auto simp: world_inv_def)
    ultimately have "Some b \<in> set (host_list (mgrs ?w mp))" using mp(2) nth_mem [of i "host_list (mgrs ?w mp)"] by simp
    then show "b \<in> set (live (dsys d))" using vl al mp(1) by (auto simp: vbs_live_def)
  qed
  have "dev_inv S (held_cmds Z) (held_events Z) (set_world w' d)"
  proof (rule handler_inv [OF di v(2) [unfolded v'] v(7,8) [unfolded v'] kept])
    fix b
    show "hosts w' b = hosts ?w b" if "b \<notin> set (live (dsys d))" using that v(13) al sub by (auto simp: v')
    show "held_events Z b = {#}" if "b \<notin> set (live (dsys d))" using that al di by (auto simp: dev_inv_def split: if_splits)
    show "event_inv (held_events Z b) (hosts w' b)"
      if "event_inv (((held_events Z)(a := add_mset e (add_mset e (held_events Z a)))) b) (hosts ?w b)"
      using that alone v(15) event_inv_same_events [OF v(12) [rule_format], of b] by (cases "b = a") (auto simp: v')
  qed (use v(9) v' in simp)
  then have "drv_inv S (set_world w' d, Z)" by (rule drv_inv_rest [OF inv kept])
  moreover have "dev_flight S (set_world w' d) = dev_flight S d"
    using v(5) completed_append [OF v(4)] by (simp add: dev_flight_def v' add_ac)
  ultimately show ?thesis ..
qed

text \<open>Calls of files and timers.\<close>

lemma drv_dev_step:
  assumes inv: "drv_inv S (d, Z)"
    and st: "dev_step S (held_cmds Z) (held_events Z) {b. held_events Z b = {#}} d d'"
  obtains S' where "S \<subseteq> S'" "drv_inv S' (d', Z)" "dev_flight S' d' = dev_flight S d"
proof -
  obtain S' G' where S': "S \<subseteq> S'" "\<forall>b. G' b \<subseteq># held_events Z b" "\<forall>b. held_events Z b \<noteq> {#} \<longrightarrow> G' b = held_events Z b"
    "dev_inv S' (held_cmds Z) G' d'" "dev_flight S' d' = dev_flight S d"
    "\<forall>b c. c \<in># held_cmds Z b \<longrightarrow> scsi_cmd (cmd_of (hosts (dworld d') b) c) = scsi_cmd (cmd_of (hosts (dworld d) b) c)"
    using st by (auto simp: dev_step_def)
  have "G' b = held_events Z b" for b using S'(2) [rule_format, of b] S'(3) by (cases "held_events Z b = {#}") simp_all
  then have "G' = held_events Z" by (rule ext)
  moreover have "scsi_cmd (cmd_of (hosts (dworld d') a) c) = Some sc" if "(k, sc, a, c, e) \<in># Z" for k sc a c e
    using drv_invD(2) [OF inv that] held_member(1) [OF that] S'(6) by simp
  ultimately have "drv_inv S' (d', Z)" using S'(4) by (auto simp: drv_inv_def)
  with S'(1,5) that show thesis by blast
qed

subsection \<open>All of them, in any order\<close>

text \<open>
  One step, with the commands it accepts. Not covered are detaching or removing a host, its timer, and
  another reset of it while a handler sleeps on it, removed hosts that a vbs still names, and
  handlers called for a command that is not in flight.
\<close>

inductive drv_step ::
  "nat multiset \<Rightarrow> vsc_dev \<times> sleeper multiset \<Rightarrow> vsc_dev \<times> sleeper multiset \<Rightarrow> bool" where
  drv_queue: "submittable sc d \<Longrightarrow> vbs_live d \<Longrightarrow> vsc_scsi_queue_command sc (dworld d) = Some (r, w') \<Longrightarrow>
    drv_step (if r = 0 then {#sc#} else {#}) (d, Z) (set_world w' d, Z)"
| drv_begin: "a \<in> set (live (dsys d)) \<Longrightarrow> sc \<in># inflight (hosts (dworld d) a) \<Longrightarrow>
    eh_begin k sc (dworld d) = Some (r, w') \<Longrightarrow> drv_step {#} (d, Z) (set_world w' d, asleep k sc r Z)"
| drv_abort_end: "vsc_eh_abort_end sc (a, c, e) retval (dworld d) = Some (r, w') \<Longrightarrow>
    drv_step {#} (d, add_mset (Eh_abort, sc, a, c, e) Z) (set_world w' d, Z)"
| drv_reset_end: "held_events Z a = {#} \<Longrightarrow> vbs_live d \<Longrightarrow> silbing_hosts (hosts (dworld d) a) = Some mp \<Longrightarrow>
    unat (host_count (mgrs (dworld d) mp)) \<le> MAX_HOST_NR_PER_VBS \<Longrightarrow>
    vsc_eh_reset_end sc (a, c, e) retval (dworld d) = Some (r, w') \<Longrightarrow>
    drv_step {#} (d, add_mset (Eh_reset, sc, a, c, e) Z) (set_world w' d, Z)"
| drv_timer: "a \<in> set (live (dsys d)) \<Longrightarrow> held_events Z a = {#} \<Longrightarrow> api_quiet api \<Longrightarrow>
    vsc_target_abnormal api (Some a) (dworld d) = Some w' \<Longrightarrow> drv_step {#} (d, Z) (set_world w' d, Z)"
| drv_call: "api_quiet (de_api E) \<Longrightarrow> reg_fresh (de_reg E) (held_cmds Z) (dsys d) \<Longrightarrow> call_ok call E f d \<Longrightarrow>
    call_drops call E f d \<subseteq> {b. held_events Z b = {#}} \<Longrightarrow> vsc_ioctl_fops call E f d = Some (r, d') \<Longrightarrow>
    drv_step {#} (d, Z) (d', Z)"

inductive_cases drv_stepE: "drv_step M x y"

inductive drv_run ::
  "nat multiset \<Rightarrow> vsc_dev \<times> sleeper multiset \<Rightarrow> vsc_dev \<times> sleeper multiset \<Rightarrow> bool" where
  drv_idle: "drv_run {#} x x"
| drv_more: "drv_run M x y \<Longrightarrow> drv_step N y z \<Longrightarrow> drv_run (M + N) x z"

lemma drv_step_inv:
  assumes "drv_step M x y" "drv_inv S x"
  shows "\<exists>S'. S \<subseteq> S' \<and> drv_inv S' y \<and> dev_flight S' (fst y) = dev_flight S (fst x) + M"
  using assms
proof (cases rule: drv_step.cases)
  case (drv_queue sc d r w' Z)
  then show ?thesis using queue_step assms(2) by (intro exI [of _ S]) (auto simp: add_ac)
next
  case (drv_begin a d sc k r w' Z)
  then show ?thesis using begin_step assms(2) by (intro exI [of _ S]) simp
next
  case (drv_abort_end sc a c e retval d r w' Z)
  then show ?thesis using abort_end_step assms(2) by (intro exI [of _ S]) simp
next
  case (drv_reset_end Z a d mp sc c e retval r w')
  then show ?thesis using reset_end_step assms(2) by (intro exI [of _ S]) simp
next
  case (drv_timer a d Z api w')
  then have inv: "drv_inv S (d, Z)" and "dev_inv S (held_cmds Z) (held_events Z) d"
    using assms(2) by (simp_all add: drv_inv_def)
  from dev_step_timer [OF this(2) drv_timer(4) disjI2 [OF drv_timer(5)] drv_timer(6,7)]
  have "dev_step S (held_cmds Z) (held_events Z) {b. held_events Z b = {#}} d (set_world w' d)" .
  with drv_dev_step [OF inv] show ?thesis unfolding drv_timer(1-3) fst_conv by (metis add_0_right)
next
  case (drv_call E Z d "call" f r d')
  then have inv: "drv_inv S (d, Z)" and "dev_inv S (held_cmds Z) (held_events Z) d"
    using assms(2) by (simp_all add: drv_inv_def)
  from dev_step_call [OF this(2) drv_call(4-8)]
  have "dev_step S (held_cmds Z) (held_events Z) {b. held_events Z b = {#}} d d'" .
  with drv_dev_step [OF inv] show ?thesis unfolding drv_call(1-3) fst_conv by (metis add_0_right)
qed

lemma drv_run_inv:
  assumes "drv_run M x y" "drv_inv S x"
  shows "\<exists>S'. S \<subseteq> S' \<and> drv_inv S' y \<and> dev_flight S' (fst y) = dev_flight S (fst x) + M"
  using assms
proof (induction rule: drv_run.induct)
  case (drv_idle x)
  then show ?case by (intro exI [of _ S]) simp
next
  case (drv_more M x y N z)
  then obtain S1 where "S \<subseteq> S1" "drv_inv S1 y" "dev_flight S1 (fst y) = dev_flight S (fst x) + M" by blast
  moreover from drv_step_inv [OF drv_more.hyps(2) this(2)] obtain S' where
    "S1 \<subseteq> S'" "drv_inv S' z" "dev_flight S' (fst z) = dev_flight S1 (fst y) + N" by blast
  ultimately show ?case by (intro exI [of _ S']) (auto simp: add_ac)
qed

text \<open>A host of a vbs that counts its hosts.\<close>

definition vbs_counted :: "nat \<Rightarrow> vsc_world \<Rightarrow> bool" where
  "vbs_counted a w \<longleftrightarrow> (\<exists>mp. silbing_hosts (hosts w a) = Some mp \<and> host_count (mgrs w mp) \<noteq> 0 \<and>
     unat (host_count (mgrs w mp)) \<le> MAX_HOST_NR_PER_VBS)"

text \<open>The host a command is for.\<close>

definition host_of_scmd :: "nat \<Rightarrow> midlayer \<Rightarrow> nat" where
  "host_of_scmd sc m = hostdata (shosts m (sdev_host (sdevs m (sc_device (scmds m sc)))))"

lemma begin_returns:
  assumes di: "dev_inv S H G d" and a: "a \<in> set (live (dsys d))" "sc \<in># inflight (hosts (dworld d) a)"
  shows "eh_begin k sc (dworld d) \<noteq> None"
proof -
  note l = dev_inv_live [OF di a(1)]
  have ev: "event_inv (G a) (hosts (dworld d) a)" using l(4) by (simp add: block_ok_def)
  obtain c where c: "host_scribble (scmds (mid (dworld d)) sc) = Some (a, c)" "c \<in> cmd_used (hosts (dworld d) a)"
    by (rule in_flight_buffer [OF di a])
  have "post_event cb ty f sc a c (dworld d) \<noteq> None" for cb ty f
    by (rule post_event_spec [OF l(2,1) c(2) ev, of cb ty f sc]) simp_all
  then show ?thesis by (cases k) (simp_all add: eh_begin_def eh_begin_eq c(1))
qed

lemma timer_returns:
  assumes di: "dev_inv S H G d" and a: "a \<in> set (live (dsys d))"
  shows "vsc_target_abnormal api (Some a) (dworld d) \<noteq> None"
proof -
  let ?w = "dworld d"
  have "scsi_host (hosts ?w a) \<noteq> None" using dev_inv_live(4) [OF di a] by (simp add: block_ok_def)
  moreover obtain w3 where
    "fail_host a (upd_host a ((hosts ?w a)\<lparr>target_abnormal_lock := target_abnormal_lock (hosts ?w a) + 1\<rparr>) ?w) = Some w3"
    "scsi_host (hosts w3 a) = scsi_host (hosts ?w a)"
    by (rule dev_step_fail [OF di a, of UNIV
          "(hosts ?w a)\<lparr>target_abnormal_lock := target_abnormal_lock (hosts ?w a) + 1\<rparr>"]) simp_all
  ultimately show ?thesis
    by (auto simp: vsc_target_abnormal_def target_lock_inc_def target_abnormal_body_def Let_def)
qed

lemma queue_returns:
  assumes di: "dev_inv S H G d" and sub: "submittable sc d"
    and lock: "\<And>shp. scsi_host (hosts (dworld d) (host_of_scmd sc (mid (dworld d)))) = Some shp \<Longrightarrow>
      host_lock_held (shosts (mid (dworld d)) shp)"
    and counted: "vbs_counted (host_of_scmd sc (mid (dworld d))) (dworld d)"
  shows "vsc_scsi_queue_command sc (dworld d) \<noteq> None"
proof -
  let ?w = "dworld d" and ?a = "host_of_scmd sc (mid (dworld d))"
  have live: "?a \<in> set (live (dsys d))" and cdb: "cmnd (scmds (mid ?w) sc) \<noteq> []"
    using sub by (simp_all add: submittable_def Let_def host_of_scmd_def)
  note l = dev_inv_live [OF di live]
  obtain shp where shp: "scsi_host (hosts ?w ?a) = Some shp" using l(4) by (auto simp: block_ok_def)
  have "host_count (mgrs ?w mp) \<noteq> 0" if "silbing_hosts (hosts ?w ?a) = Some mp" for mp
    using counted that by (auto simp: vbs_counted_def)
  from queue_command_returns [OF l(2) host_of_scmd_def l(1) shp lock [OF shp] cdb this] show ?thesis by blast
qed

subsection \<open>Properties\<close>



subsection \<open>At concrete states\<close>

text \<open>A device file without files, and one host.\<close>

definition example_driver :: vsc_dev where
  "example_driver = \<lparr>dsys = \<lparr>sys = example_world, live = [0], ml_hosts = [0], procs = []\<rparr>,
     private_data = (\<lambda>_. None), f_nonblock = (\<lambda>_. False), user_mem = (\<lambda>_. None)\<rparr>"

lemma example_driver_simps [simp]:
  "dworld example_driver = example_world" "live (dsys example_driver) = [0]" "private_data example_driver = (\<lambda>_. None)"
  by (simp_all add: example_driver_def)

lemma example_drv_inv: "drv_inv {0} (example_driver, {#})"
proof -
  have q: "allQ example_host = []" "inflight example_host = {#}" "reqQ example_host = []" "cmpQ example_host = []"
    "rspQ example_host = []"
    by (simp_all add: example_host_def zero_ctrl_def allQ_def inflight_def)
  have "block_ok 0 {#} example_host (mid example_world)"
    using example_event_inv [OF refl] q by (simp add: block_ok_def phases_ok_def cdbs_ok_def scribbled_def)
  moreover have "g_host_mgr_list example_world = [0]" by (simp add: example_world_def)
  ultimately show ?thesis
    using example_world_inv by (simp add: drv_inv_def dev_inv_def mgr_hosts_def files_ok_def MAX_HOST_NR_PER_VBS_def)
qed

lemma example_submittable: "submittable 5 example_driver" "vbs_live example_driver"
proof -
  have "inflight example_host = {#}" by (simp add: example_host_def zero_ctrl_def allQ_def inflight_def)
  then show "submittable 5 example_driver" "vbs_live example_driver"
    by (auto simp: submittable_def vbs_live_def Let_def)
qed



end
