(* ===== verification/Vsc_Processors.thy ===== *)
theory Vsc_Processors
  imports Vsc_Answers
begin

text \<open>
  Several processors at work on one host. Each handler is a program of actions; an action is what the
  code does between taking the host's lock and releasing it, or one step on memory without
  the lock, and yields the actions to be done next. Any number of programs run interleaved, action by action. Alone, a
  program does what the handler of the other theories does in one step.
\<close>

subsection \<open>Actions\<close>

text \<open>The two ways a command is completed: with a code, or with the result of the target's answer.\<close>

datatype outcome = Code u32 | Answered vsc_scsi_rsp_msg

fun set_outcome :: "outcome \<Rightarrow> scsi_cmnd \<Rightarrow> scsi_cmnd" where
  "set_outcome (Code r) = (\<lambda>sc. sc\<lparr>sc_result := r\<rparr>)"
| "set_outcome (Answered msg) = set_rsp_result msg"

datatype action =
    Alloc nat | Enqueue nat nat | Start_io
  | Take_batch | Mark nat
  | Answer vsc_scsi_rsp_msg
  | Drain queue_type u32 | Callback queue_type u32 nat
  | Finish_abort nat nat
  | Complete nat outcome | Put nat

type_synonym host_mem = "vsc_ctrl_info \<times> midlayer"

text \<open>
  \<open>vsc_scsi_queue_command\<close> on the host it has chosen: the locked allocation, then the buffer, which nobody
  else knows yet, is filled and appended, then the rounds of \<open>vsc_start_io\<close>. \<open>self\<close> is the host's address.
\<close>

definition do_alloc :: "nat \<Rightarrow> host_mem \<Rightarrow> (action list \<times> host_mem) option" where
  "do_alloc sc = (\<lambda>(h, m).
     do { (r, h1) \<leftarrow> vsc_cmd_alloc h;
          Some (case r of None \<Rightarrow> [] | Some c \<Rightarrow> [Enqueue c sc, Start_io], h1, m) })"

definition do_enqueue :: "nat \<Rightarrow> nat \<Rightarrow> nat \<Rightarrow> host_mem \<Rightarrow> action list \<times> host_mem" where
  "do_enqueue self c sc = (\<lambda>(h, m).
     (let m1 = upd_sc sc (\<lambda>s. s\<lparr>host_scribble := Some (self, c)\<rparr>) m;
          h1 = upd_cmd c (\<lambda>x. x\<lparr>scsi_cmd := Some sc\<rparr>) h
      in ([], h1\<lparr>reqQ := addQ (reqQ h1) c, Qdepth := Qdepth h1 + 1, io_running := io_running h1 + 1\<rparr>, m1)))"

definition do_start_io :: "host_mem \<Rightarrow> action list \<times> host_mem" where
  "do_start_io = (\<lambda>(h, m).
     (case reqQ h of [] \<Rightarrow> ([], h, m) | c # _ \<Rightarrow> ([Start_io], start_io_step c h, m)))"

text \<open>
  \<open>vsc_get_multi_scsi_cmd_and_cdb\<close>: the locked part, then each message without the lock. Of a message only
  the status it sets and the pointer it follows are kept.
\<close>

definition do_take :: "host_mem \<Rightarrow> action list \<times> host_mem" where
  "do_take = (\<lambda>(h, m).
     (if cmpQ h = [] then ([], h, m)
      else let (c_arr, left_count, h1) = get_multi_take h in (map Mark c_arr, h1, m)))"

definition do_mark :: "nat \<Rightarrow> host_mem \<Rightarrow> (action list \<times> host_mem) option" where
  "do_mark c = (\<lambda>(h, m).
     do { _ \<leftarrow> scsi_cmd (cmd_of h c); Some ([], upd_cmd c (\<lambda>x. x\<lparr>cstat := CMD_STAT_READ_COMP\<rparr>) h, m) })"

text \<open>\<open>vsc_response_scsi_cmd_new\<close> up to the unlock.\<close>

definition do_answer :: "vsc_scsi_rsp_msg \<Rightarrow> host_mem \<Rightarrow> (action list \<times> host_mem) option" where
  "do_answer msg = (\<lambda>(h, m).
     (let c = unat (rsp_tag msg) in
      if nr_cmds h \<le> c then Some ([], h, m)
      else if cstat (cmd_of h c) \<noteq> CMD_STAT_READ_COMP \<or> cmd_sn (cmd_of h c) \<noteq> rsp_cmd_sn msg
      then Some ([], h, m)
      else if cmd_unlinked c h then Some ([], h, m)
      else
        do { let h1 = upd_cmd c (\<lambda>x. x\<lparr>cstat := CMD_STAT_RESP\<rparr>) (removeQ c h);
             sc \<leftarrow> scsi_cmd (cmd_of h1 c);
             if cmnd (scmds m sc) = [] then None
             else Some ([Complete sc (Answered msg), Put c], h1\<lparr>io_running := io_running h1 - 1\<rparr>, m) }))"

text \<open>
  One round of a loop of \<open>vsc_each_queue_remove\<close>: the locked part, then the callback, which works on its own
  reference beside the queue's.
\<close>

definition do_drain :: "queue_type \<Rightarrow> u32 \<Rightarrow> host_mem \<Rightarrow> action list \<times> host_mem" where
  "do_drain ty code = (\<lambda>(h, m).
     (case in_queue ty h of
        [] \<Rightarrow> ([], h, m)
      | c # _ \<Rightarrow>
          (let h1 = removeQ c h
           in ([Callback ty code c, Drain ty code], h1\<lparr>io_running := io_running h1 - 1\<rparr>, m))))"

definition do_callback :: "queue_type \<Rightarrow> u32 \<Rightarrow> nat \<Rightarrow> host_mem \<Rightarrow> action list \<times> host_mem" where
  "do_callback ty code c = (\<lambda>(h, m).
     (let h1 = vsc_cmd_get c h;
          h2 = (case ty of
                  VSC_LIST_REQQ \<Rightarrow> h1\<lparr>Qdepth := Qdepth h1 - 1\<rparr>
                | VSC_LIST_COMQ \<Rightarrow> h1
                | VSC_LIST_RSPQ \<Rightarrow> h1)
      in (case scsi_cmd (cmd_of h2 c) of
            None \<Rightarrow> [Put c, Put c]
          | Some sc \<Rightarrow> [Complete sc (Code code), Put c, Put c], h2, m)))"

text \<open>\<open>vsc_eh_abort\<close> after the target reported success: the handler holds a reference to \<open>c\<close>.\<close>

definition do_finish_abort :: "nat \<Rightarrow> nat \<Rightarrow> host_mem \<Rightarrow> action list \<times> host_mem" where
  "do_finish_abort c sc = (\<lambda>(h, m).
     (if \<not> cmd_unlinked c h then
        (let h1 = removeQ c h
         in ([Put c, Complete sc (Code (push_bit 16 DID_ABORT)), Put c], h1\<lparr>io_running := io_running h1 - 1\<rparr>, m))
      else ([Put c], h, m)))"

text \<open>\<open>None\<close> is a null pointer followed.\<close>

fun act :: "nat \<Rightarrow> action \<Rightarrow> host_mem \<Rightarrow> (action list \<times> host_mem) option" where
  "act self (Alloc sc) s = do_alloc sc s"
| "act self (Enqueue c sc) s = Some (do_enqueue self c sc s)"
| "act self Start_io s = Some (do_start_io s)"
| "act self Take_batch s = Some (do_take s)"
| "act self (Mark c) s = do_mark c s"
| "act self (Answer msg) s = do_answer msg s"
| "act self (Drain ty code) s = Some (do_drain ty code s)"
| "act self (Callback ty code c) s = Some (do_callback ty code c s)"
| "act self (Finish_abort c sc) s = Some (do_finish_abort c sc s)"
| "act self (Complete sc out) s = Some ([], fst s, scsi_done sc (upd_sc sc (set_outcome out) (snd s)))"
| "act self (Put c) s = Some ([], vsc_cmd_put c (fst s), snd s)"

text \<open>The program of \<open>vsc_each_queue_remove\<close>.\<close>

definition drain_all :: "u32 \<Rightarrow> action list" where
  "drain_all code = map (\<lambda>ty. Drain ty code) [VSC_LIST_REQQ, VSC_LIST_COMQ, VSC_LIST_RSPQ]"

subsection \<open>One program alone\<close>

inductive solo :: "nat \<Rightarrow> action list \<Rightarrow> host_mem \<Rightarrow> host_mem \<Rightarrow> bool" for self where
  solo_done: "solo self [] s s"
| solo_act: "act self b s = Some (new, s1) \<Longrightarrow> solo self (new @ as) s1 s' \<Longrightarrow> solo self (b # as) s s'"

inductive_simps solo_Nil [simp]: "solo self [] s s'"
inductive_simps solo_Cons: "solo self (b # as) s s'"

lemma solo_append: "solo self (as @ bs) s s' \<longleftrightarrow> (\<exists>t. solo self as s t \<and> solo self bs t s')"
proof
  assume "solo self (as @ bs) s s'"
  then show "\<exists>t. solo self as s t \<and> solo self bs t s'"
  proof (induction "as @ bs" s s' arbitrary: as rule: solo.induct)
    case (solo_done s)
    then show ?case by simp
  next
    case (solo_act b s new s1 cs s')
    show ?case
    proof (cases as)
      case Nil
      then show ?thesis using solo_act solo.solo_act by (metis append_Nil solo_Nil)
    next
      case (Cons a as')
      then have "b = a" "new @ cs = (new @ as') @ bs" using solo_act.hyps(4) by simp_all
      from solo_act.hyps(3) [OF this(2)] obtain t where "solo self (new @ as') s1 t" "solo self bs t s'" by blast
      then show ?thesis using solo.solo_act [OF solo_act.hyps(1)] Cons \<open>b = a\<close> by blast
    qed
  qed
next
  have "solo self as s t \<Longrightarrow> solo self bs t s' \<Longrightarrow> solo self (as @ bs) s s'" for t
    by (induction rule: solo.induct) (auto intro: solo_act)
  then show "\<exists>t. solo self as s t \<and> solo self bs t s' \<Longrightarrow> solo self (as @ bs) s s'" by blast
qed

lemma solo_unique: "solo self as s t \<Longrightarrow> solo self as s t' \<Longrightarrow> t' = t"
proof (induction arbitrary: t' rule: solo.induct)
  case (solo_act b s new s1 as s')
  from solo_act.prems solo_act.hyps(1) have "solo self (new @ as) s1 t'" by (auto simp: solo_Cons)
  then show ?case by (rule solo_act.IH)
qed simp

text \<open>Alone, each program does what the handler does.\<close>

lemma solo_answer:
  "solo self [Answer msg] (h, m) s' \<longleftrightarrow> (\<exists>r. vsc_response_scsi_cmd_new msg h m = Some (r, s'))"
proof -
  let ?c = "unat (rsp_tag msg)"
  let ?h = "upd_cmd ?c (\<lambda>x. x\<lparr>cstat := CMD_STAT_RESP\<rparr>) (removeQ ?c h)"
  let ?sc = "scsi_cmd (cmd_of ?h ?c)"
  let ?no = "nr_cmds h \<le> ?c \<or> cstat (cmd_of h ?c) \<noteq> CMD_STAT_READ_COMP \<or> cmd_sn (cmd_of h ?c) \<noteq> rsp_cmd_sn msg \<or>
    cmd_unlinked ?c h"
  consider ?no | "\<not> ?no" "?sc = None" | sc where "\<not> ?no" "?sc = Some sc" "cmnd (scmds m sc) = []"
    | sc where "\<not> ?no" "?sc = Some sc" "cmnd (scmds m sc) \<noteq> []" by blast
  then show ?thesis
  proof cases
    case 1
    then have "do_answer msg (h, m) = Some ([], h, m)" "vsc_response_scsi_cmd_new msg h m = Some (- EIO, h, m)"
      by (auto simp: do_answer_def vsc_response_scsi_cmd_new_def Let_def)
    then show ?thesis by (auto simp: solo_Cons)
  next
    case (4 sc)
    then have "do_answer msg (h, m) = Some ([Complete sc (Answered msg), Put ?c], ?h\<lparr>io_running := io_running ?h - 1\<rparr>, m)"
      "vsc_response_scsi_cmd_new msg h m =
         Some (0, vsc_cmd_put ?c (?h\<lparr>io_running := io_running ?h - 1\<rparr>), scsi_done sc (upd_sc sc (set_rsp_result msg) m))"
      by (simp_all add: do_answer_def vsc_response_scsi_cmd_new_def Let_def)
    then show ?thesis by (auto simp: solo_Cons)
  qed (simp_all add: solo_Cons do_answer_def vsc_response_scsi_cmd_new_def Let_def)
qed

lemma solo_start_io: "solo self [Start_io] (h, m) s' \<longleftrightarrow> s' = (vsc_start_io h, m)"
proof (induction h arbitrary: s' rule: vsc_start_io.induct)
  case (1 h)
  show ?case
  proof (cases "reqQ h")
    case Nil
    then show ?thesis by (subst vsc_start_io.simps) (simp add: solo_Cons do_start_io_def)
  next
    case (Cons c q)
    then have "solo self [Start_io] (h, m) s' \<longleftrightarrow> solo self [Start_io] (start_io_step c h, m) s'"
      by (subst solo_Cons) (simp add: do_start_io_def)
    also have "\<dots> \<longleftrightarrow> s' = (vsc_start_io (start_io_step c h), m)" by (rule 1 [OF Cons])
    finally show ?thesis by (subst vsc_start_io.simps) (simp add: Cons)
  qed
qed

lemma solo_enqueue:
  "solo self [Enqueue c sc, Start_io] (h, m) s' \<longleftrightarrow>
     s' = (vsc_enqueue_cmd_and_start_io c (upd_cmd c (\<lambda>x. x\<lparr>scsi_cmd := Some sc\<rparr>) h),
           upd_sc sc (\<lambda>s. s\<lparr>host_scribble := Some (self, c)\<rparr>) m)"
  by (subst solo_Cons) (simp add: do_enqueue_def Let_def solo_start_io vsc_enqueue_cmd_and_start_io_def)

lemma solo_mark:
  "fill_msgs command_size cs m h stk = Some (msgs, h') \<Longrightarrow> solo self (map Mark cs) (h, m) (h', m)"
proof (induction cs arbitrary: h stk msgs)
  case (Cons c cs)
  then obtain stk' msgs' old msg where f: "fill_msg command_size c m (upd_cmd c (\<lambda>x. x\<lparr>cstat := CMD_STAT_READ_COMP\<rparr>) h) old = Some msg"
    "fill_msgs command_size cs m (upd_cmd c (\<lambda>x. x\<lparr>cstat := CMD_STAT_READ_COMP\<rparr>) h) stk' = Some (msgs', h')"
    by (auto simp: bind_eq_Some_conv Let_def split: list.splits)
  obtain sc where "scsi_cmd (cmd_of h c) = Some sc"
    using f(1) by (auto simp: fill_msg_def bind_eq_Some_conv upd_cstat_fields)
  with Cons.IH [OF f(2)] show ?case by (simp add: solo_Cons do_mark_def)
qed simp

lemma solo_take:
  assumes "cmpQ h \<noteq> []" "get_multi_take h = (c_arr, left_count, h1)"
    and "fill_msgs command_size c_arr m h1 stk = Some (msgs, h2)"
  shows "solo self [Take_batch] (h, m) (h2, m)"
  using solo_mark [OF assms(3)] assms(1,2) by (simp add: solo_Cons do_take_def)

text \<open>The callbacks of \<open>vsc_each_queue_remove\<close>.\<close>

definition callback_code :: "(nat \<Rightarrow> queue_type \<Rightarrow> host_mem \<Rightarrow> host_mem) \<Rightarrow> u32 \<Rightarrow> bool" where
  "callback_code cb code \<longleftrightarrow> (\<forall>c ty h m. cb c ty (h, m) =
     (vsc_cmd_put c (dec_qdepth ty h),
      case scsi_cmd (cmd_of h c) of None \<Rightarrow> m | Some sc \<Rightarrow> complete code sc m))"

lemma callback_codes:
  "callback_code vsc_abort_cmd_callback (push_bit 16 DID_SOFT_ERROR)"
  "callback_code vsc_requeue_cmd_callback (push_bit 16 DID_REQUEUE)"
  by (auto simp: callback_code_def vsc_abort_cmd_callback_def vsc_requeue_cmd_callback_def complete_def dec_qdepth_def
      Let_def split: queue_type.splits option.splits)

lemma dec_qdepth_eq: "(case ty of VSC_LIST_REQQ \<Rightarrow> h\<lparr>Qdepth := Qdepth h - 1\<rparr> | VSC_LIST_COMQ \<Rightarrow> h | VSC_LIST_RSPQ \<Rightarrow> h) = dec_qdepth ty h"
  by (cases ty) (simp_all add: dec_qdepth_def)

lemma solo_callback:
  assumes "callback_code cb code"
  shows "solo self [Callback ty code c] (h, m) s' \<longleftrightarrow>
     s' = apfst (vsc_cmd_put c) (cb c ty (vsc_cmd_get c h, m))"
  using assms
  by (auto simp: callback_code_def solo_Cons do_callback_def dec_qdepth_eq Let_def complete_def
      unlink_frame(5) split: option.splits)

lemma solo_drain_round:
  assumes "callback_code cb code" "in_queue ty h = c # cs" "solo self [Drain ty code] (drain_step cb c ty (h, m)) s'"
  shows "solo self [Drain ty code] (h, m) s'"
proof -
  have "drain_step cb c ty (h, m) = apfst (vsc_cmd_put c) (cb c ty (vsc_cmd_get c (unlink c h), m))"
    by (cases "cb c ty (vsc_cmd_get c (unlink c h), m)") (simp add: drain_step_def unlink_def Let_def)
  then have "solo self [Callback ty code c] (unlink c h, m) (drain_step cb c ty (h, m))"
    unfolding solo_callback [OF assms(1)] .
  with assms(3) have "solo self ([Callback ty code c] @ [Drain ty code]) (unlink c h, m) s'"
    unfolding solo_append by blast
  then show ?thesis
    using assms(2) by (subst solo_Cons) (simp add: do_drain_def unlink_def Let_def)
qed

lemma drain_step_queue:
  assumes "callback_code cb code" "in_queue ty h = c # cs"
  shows "in_queue ty (fst (drain_step cb c ty (h, m))) = cs"
proof -
  have "in_queue ty (fst (drain_step cb c ty (h, m))) = remove1 c (in_queue ty h)"
    using assms(1) by (cases ty)
      (simp_all add: drain_step_def callback_code_def vsc_frame Let_def split_beta, simp_all add: removeQ_def)
  with assms(2) show ?thesis by simp
qed

lemma solo_drain:
  assumes cb: "callback_code cb code"
  shows "\<exists>s'. drain_queue (in_queue ty) ty cb (h, m) = Some s' \<and> solo self [Drain ty code] (h, m) s'"
proof (induction "in_queue ty h" arbitrary: h m)
  case Nil
  then show ?case by (subst drain_queue.simps) (simp add: solo_Cons do_drain_def)
next
  case (Cons c cs)
  have q: "in_queue ty h = c # cs" using Cons.hyps(2) by simp
  obtain g n where g: "drain_step cb c ty (h, m) = (g, n)" by (cases "drain_step cb c ty (h, m)")
  have "cs = in_queue ty g" using drain_step_queue [OF cb q, of m] g by simp
  from Cons.hyps(1) [OF this, of n] obtain s' where
    s': "drain_queue (in_queue ty) ty cb (g, n) = Some s'" "solo self [Drain ty code] (g, n) s'" by blast
  have "drain_queue (in_queue ty) ty cb (h, m) = Some s'"
    using s'(1) by (subst drain_queue.simps) (simp add: q g)
  moreover have "solo self [Drain ty code] (h, m) s'"
    by (rule solo_drain_round [OF cb q]) (use s'(2) g in simp)
  ultimately show ?case by blast
qed

lemma solo_drain_all:
  assumes cb: "callback_code cb code"
  shows "solo self (drain_all code) (h, m) s' \<longleftrightarrow> (\<exists>r. vsc_each_queue_remove cb (h, m) = Some (r, s'))"
proof -
  obtain h1 m1 where 1: "drain_queue reqQ VSC_LIST_REQQ cb (h, m) = Some (h1, m1)"
    "solo self [Drain VSC_LIST_REQQ code] (h, m) (h1, m1)"
    using solo_drain [OF cb, of VSC_LIST_REQQ h m self] by auto
  obtain h2 m2 where 2: "drain_queue cmpQ VSC_LIST_COMQ cb (h1, m1) = Some (h2, m2)"
    "solo self [Drain VSC_LIST_COMQ code] (h1, m1) (h2, m2)"
    using solo_drain [OF cb, of VSC_LIST_COMQ h1 m1 self] by auto
  obtain t where 3: "drain_queue rspQ VSC_LIST_RSPQ cb (h2, m2) = Some t"
    "solo self [Drain VSC_LIST_RSPQ code] (h2, m2) t"
    using solo_drain [OF cb, of VSC_LIST_RSPQ h2 m2 self] by auto
  have run: "vsc_each_queue_remove cb (h, m) = Some (0, t)"
    using 1(1) 2(1) 3(1) by (simp add: vsc_each_queue_remove_def)
  have "solo self ([Drain VSC_LIST_REQQ code] @ [Drain VSC_LIST_COMQ code] @ [Drain VSC_LIST_RSPQ code]) (h, m) t"
    using 1(2) 2(2) 3(2) unfolding solo_append by blast
  then have t: "solo self (drain_all code) (h, m) t" by (simp add: drain_all_def)
  then have "solo self (drain_all code) (h, m) s' \<longleftrightarrow> s' = t" using solo_unique by blast
  then show ?thesis using run by auto
qed

lemma solo_finish_abort:
  "solo self [Finish_abort c sc] (h, m) s' \<longleftrightarrow>
     s' = (if c \<in> set (allQ h)
           then (vsc_cmd_put c (vsc_cmd_put c (unlink c h)), complete (push_bit 16 DID_ABORT) sc m)
           else (vsc_cmd_put c h, m))"
  by (auto simp: solo_Cons do_finish_abort_def cmd_unlinked_def unlink_def complete_def Let_def)

subsection \<open>The invariant\<close>

text \<open>
  The invariant of a host without \<open>Qdepth\<close>: a drain decrements it some time after it took the buffer, and an
  abort of a command in \<open>reqQ\<close> never does.
\<close>

definition core_inv :: "nat multiset \<Rightarrow> vsc_ctrl_info \<Rightarrow> bool" where
  "core_inv H h \<longleftrightarrow> host_inv H (h\<lparr>Qdepth := of_nat (length (reqQ h))\<rparr>)"

lemma Qdepth_simps [simp]:
  "allQ (h\<lparr>Qdepth := x\<rparr>) = allQ h" "inflight (h\<lparr>Qdepth := x\<rparr>) = inflight h" "cmd_used (h\<lparr>Qdepth := x\<rparr>) = cmd_used h"
  by (simp_all add: allQ_def inflight_def cmd_used_def)

lemma core_inv_alt:
  "core_inv H h \<longleftrightarrow> cmd_pool_ok h \<and> queues_ok h \<and> refs_ok H h \<and> io_running h = of_nat (length (allQ h))"
  by (simp add: core_inv_def host_inv_defs)

lemma core_inv_host: "host_inv H h \<Longrightarrow> core_inv H h"
  by (simp add: core_inv_alt host_inv_def counters_ok_def)

lemma core_inv_dec [simp]: "core_inv H (h\<lparr>Qdepth := x\<rparr>) = core_inv H h"
  by (simp add: core_inv_def)

lemma core_inv_dec_qdepth [simp]: "core_inv H (dec_qdepth ty h) = core_inv H h"
  by (simp add: dec_qdepth_def)

lemma core_linked: "core_inv H h \<Longrightarrow> c \<in> set (allQ h) \<Longrightarrow>
    c < nr_cmds h \<and> c < length (cmd_pool_tbl h) \<and> c \<in> cmd_used h \<and> (\<exists>sc. scsi_cmd (cmd_of h c) = Some sc)"
  using host_inv_linked [of H "h\<lparr>Qdepth := of_nat (length (reqQ h))\<rparr>" c] by (simp add: core_inv_def)

lemma core_held: "core_inv H h \<Longrightarrow> c \<in># H \<Longrightarrow> c < nr_cmds h \<and> c \<in> cmd_used h"
  using host_inv_held [of H "h\<lparr>Qdepth := of_nat (length (reqQ h))\<rparr>" c] by (simp add: core_inv_def)

lemma core_distinct: "core_inv H h \<Longrightarrow> distinct (allQ h)"
  by (simp add: core_inv_alt queues_ok_def)

lemma Qdepth_commute:
  "vsc_cmd_get c (h\<lparr>Qdepth := x\<rparr>) = (vsc_cmd_get c h)\<lparr>Qdepth := x\<rparr>"
  "vsc_cmd_put c (h\<lparr>Qdepth := x\<rparr>) = (vsc_cmd_put c h)\<lparr>Qdepth := x\<rparr>"
  "unlink c (h\<lparr>Qdepth := x\<rparr>) = (unlink c h)\<lparr>Qdepth := x\<rparr>"
  "vsc_cmd_alloc (h\<lparr>Qdepth := x\<rparr>) = map_option (\<lambda>(r, h'). (r, h'\<lparr>Qdepth := x\<rparr>)) (vsc_cmd_alloc h)"
  by (simp_all add: vsc_cmd_get_def vsc_cmd_put_def unlink_def removeQ_def upd_cmd_def Let_def)
    (cases "pool_alloc (cmd_pool_bits h) (nr_cmds h)"; auto simp: vsc_cmd_alloc_def upd_cmd_def Let_def split: option.splits)

lemma core_get: "core_inv H h \<Longrightarrow> c \<in> cmd_used h \<Longrightarrow> core_inv (add_mset c H) (vsc_cmd_get c h)"
  using vsc_cmd_get_inv [of H "h\<lparr>Qdepth := of_nat (length (reqQ h))\<rparr>" c]
  by (simp add: core_inv_def Qdepth_commute vsc_frame)

lemma core_put: "core_inv (add_mset c H) h \<Longrightarrow> core_inv H (vsc_cmd_put c h)"
  using vsc_cmd_put_inv [of c H "h\<lparr>Qdepth := of_nat (length (reqQ h))\<rparr>"]
  by (simp add: core_inv_def Qdepth_commute vsc_frame)

lemma core_unlink:
  assumes inv: "core_inv H h" and c: "c \<in> set (allQ h)"
  shows "core_inv (add_mset c H) (unlink c h)"
proof -
  let ?h = "h\<lparr>Qdepth := of_nat (length (reqQ h))\<rparr>"
  obtain ty where ty: "c \<in> set (in_queue ty h)"
    using c unfolding allQ_def by (metis in_queue_simps Un_iff set_append)
  then have "c \<in> set (in_queue ty ?h)" by (cases ty) simp_all
  with inv have "host_inv (add_mset c H) (dec_qdepth ty (unlink c ?h))"
    unfolding core_inv_def by (rule unlink_dec_inv(1))
  then have "core_inv (add_mset c H) (dec_qdepth ty (unlink c ?h))" by (rule core_inv_host)
  then show ?thesis by (simp add: Qdepth_commute)
qed

lemma core_alloc:
  assumes inv: "core_inv H h" and alloc: "vsc_cmd_alloc h = Some (Some c, h')"
  shows "core_inv (add_mset c H) h'" "c \<notin> set (allQ h)" "c \<notin># H" "allQ h' = allQ h" "\<forall>j. j \<noteq> c \<longrightarrow> cmd_of h' j = cmd_of h j"
proof -
  let ?q = "\<lambda>h'. h'\<lparr>Qdepth := of_nat (length (reqQ h))\<rparr>"
  have "vsc_cmd_alloc (?q h) = Some (Some c, ?q h')"
    using alloc by (simp add: Qdepth_commute)
  note a = vsc_cmd_alloc_inv [OF inv [unfolded core_inv_def] this]
  show "c \<notin> set (allQ h)" "c \<notin># H" "allQ h' = allQ h" "\<forall>j. j \<noteq> c \<longrightarrow> cmd_of h' j = cmd_of h j"
    using a(2,4,5,12) by simp_all
  show "core_inv (add_mset c H) h'" using core_inv_host [OF a(1)] by simp
qed

lemma core_enqueue:
  assumes inv: "core_inv (add_mset c H) h" and c: "c \<notin> set (allQ h)" and sc: "scsi_cmd (cmd_of h c) = Some sc"
  shows "core_inv H (h\<lparr>reqQ := addQ (reqQ h) c, Qdepth := Qdepth h + 1, io_running := io_running h + 1\<rparr>)"
proof -
  let ?h = "h\<lparr>Qdepth := of_nat (length (reqQ h))\<rparr>"
  have "host_inv H (?h\<lparr>reqQ := addQ (reqQ ?h) c, Qdepth := Qdepth ?h + 1, io_running := io_running ?h + 1\<rparr>)"
    by (rule vsc_enqueue_linked [OF inv [unfolded core_inv_def]]) (use c sc in simp_all)
  from core_inv_host [OF this] show ?thesis by (simp add: core_inv_alt host_inv_defs allQ_def cmd_used_def)
qed

text \<open>Moving buffers between the queues.\<close>

lemma core_move:
  assumes "core_inv H h" "same_buffers h h'" "mset (allQ h') = mset (allQ h)" "io_running h' = io_running h"
  shows "core_inv H h'"
  unfolding core_inv_def
  by (rule host_inv_move [OF assms(1) [unfolded core_inv_def]])
    (use assms(2-4) in \<open>simp_all add: same_buffers_def\<close>)

text \<open>
  What an action that is still to be done owns: a reference to a buffer, and a command that nobody else
  will complete.
\<close>

fun act_refs :: "action \<Rightarrow> nat multiset" where
  "act_refs (Enqueue c sc) = {#c#}"
| "act_refs (Callback ty code c) = {#c#}"
| "act_refs (Finish_abort c sc) = {#c#}"
| "act_refs (Put c) = {#c#}"
| "act_refs _ = {#}"

fun act_owes :: "vsc_ctrl_info \<Rightarrow> action \<Rightarrow> nat multiset" where
  "act_owes h (Enqueue c sc) = {#sc#}"
| "act_owes h (Callback ty code c) = {#the (scsi_cmd (cmd_of h c))#}"
| "act_owes h (Complete sc out) = {#sc#}"
| "act_owes h _ = {#}"

fun act_ok :: "vsc_ctrl_info \<Rightarrow> midlayer \<Rightarrow> action \<Rightarrow> bool" where
  "act_ok h m (Alloc sc) \<longleftrightarrow> cmnd (scmds m sc) \<noteq> []"
| "act_ok h m (Enqueue c sc) \<longleftrightarrow> c \<notin> set (allQ h) \<and> cmnd (scmds m sc) \<noteq> []"
| "act_ok h m (Callback ty code c) \<longleftrightarrow> scsi_cmd (cmd_of h c) \<noteq> None"
| "act_ok h m (Finish_abort c sc) \<longleftrightarrow> scsi_cmd (cmd_of h c) = Some sc"
| "act_ok h m _ \<longleftrightarrow> True"

definition refs_of :: "action multiset \<Rightarrow> nat multiset" where
  "refs_of A = (\<Sum>a\<in>#A. act_refs a)"

definition owes_of :: "vsc_ctrl_info \<Rightarrow> action multiset \<Rightarrow> nat multiset" where
  "owes_of h A = (\<Sum>a\<in>#A. act_owes h a)"

lemma of_simps [simp]:
  "refs_of {#} = {#}" "refs_of (add_mset b A) = act_refs b + refs_of A" "refs_of (A + B) = refs_of A + refs_of B"
  "owes_of h {#} = {#}" "owes_of h (add_mset b A) = act_owes h b + owes_of h A"
  "owes_of h (A + B) = owes_of h A + owes_of h B"
  by (simp_all add: refs_of_def owes_of_def)

text \<open>A buffer that is about to be appended is known to one program only.\<close>

definition race_inv :: "vsc_ctrl_info \<Rightarrow> midlayer \<Rightarrow> action multiset \<Rightarrow> bool" where
  "race_inv h m A \<longleftrightarrow> core_inv (refs_of A) h \<and> cdbs_ok h m \<and> (\<forall>a\<in>#A. act_ok h m a) \<and>
     (\<forall>c sc. Enqueue c sc \<in># A \<longrightarrow> count (refs_of A) c = 1)"

text \<open>Every command that was accepted: in a queue, owed by a program, or completed.\<close>

definition race_total :: "vsc_ctrl_info \<Rightarrow> midlayer \<Rightarrow> action multiset \<Rightarrow> nat multiset" where
  "race_total h m A = inflight h + owes_of h A + completed m"

text \<open>
  What one action \<open>b\<close> does to the host when the others own the references \<open>H\<close>: \<open>N\<close> are the actions that
  follow, \<open>M\<close> the commands it accepted.
\<close>

definition act_step ::
  "nat multiset \<Rightarrow> action \<Rightarrow> vsc_ctrl_info \<Rightarrow> midlayer \<Rightarrow> action multiset \<Rightarrow> vsc_ctrl_info \<Rightarrow> midlayer \<Rightarrow> nat multiset \<Rightarrow> bool"
  where
  "act_step H b h m N h' m' M \<longleftrightarrow>
     core_inv (refs_of N + H) h' \<and> cdbs_ok h' m' \<and> (\<forall>a\<in>#N. act_ok h' m' a) \<and>
     (\<forall>c\<in>#H. scsi_cmd (cmd_of h' c) = scsi_cmd (cmd_of h c)) \<and> (\<forall>s. cmnd (scmds m' s) = cmnd (scmds m s)) \<and>
     (\<forall>c\<in>#H. c \<in> set (allQ h') \<longrightarrow> c \<in> set (allQ h)) \<and>
     (\<forall>c\<in>#H. c \<in># refs_of N \<longrightarrow> c \<in># act_refs b \<or> c \<in> set (allQ h)) \<and>
     (\<forall>c sc. Enqueue c sc \<in># N \<longrightarrow> count (refs_of N + H) c = 1) \<and>
     inflight h' + owes_of h' N + completed m' = inflight h + act_owes h b + completed m + M"

lemma in_refs_of: "a \<in># A \<Longrightarrow> c \<in># act_refs a \<Longrightarrow> c \<in># refs_of A"
  by (metis of_simps(2) mset_add union_iff)

lemma act_ok_mono:
  assumes "act_ok h m a" "\<And>c. c \<in># act_refs a \<Longrightarrow> scsi_cmd (cmd_of h' c) = scsi_cmd (cmd_of h c)"
    and "\<And>s. cmnd (scmds m' s) = cmnd (scmds m s)" "\<And>c. c \<in># act_refs a \<Longrightarrow> c \<in> set (allQ h') \<Longrightarrow> c \<in> set (allQ h)"
  shows "act_ok h' m' a"
  using assms by (cases a) auto

lemma act_owes_cong:
  assumes "\<And>c. c \<in># refs_of A \<Longrightarrow> scsi_cmd (cmd_of h' c) = scsi_cmd (cmd_of h c)"
  shows "owes_of h' A = owes_of h A"
  using assms
proof (induction A)
  case (add a A)
  then have "act_owes h' a = act_owes h a" by (cases a) simp_all
  then show ?case using add by simp
qed simp

lemma race_inv_act:
  assumes inv: "race_inv h m (add_mset b A)" and st: "act_step (refs_of A) b h m N h' m' M"
  shows "race_inv h' m' (N + A)" "race_total h' m' (N + A) = race_total h m (add_mset b A) + M"
proof -
  from st have core: "core_inv (refs_of N + refs_of A) h'" and cdb: "cdbs_ok h' m'" and N: "\<forall>a\<in>#N. act_ok h' m' a"
    and sc: "\<And>c. c \<in># refs_of A \<Longrightarrow> scsi_cmd (cmd_of h' c) = scsi_cmd (cmd_of h c)"
    and cm: "\<And>s. cmnd (scmds m' s) = cmnd (scmds m s)"
    and q: "\<And>c. c \<in># refs_of A \<Longrightarrow> c \<in> set (allQ h') \<Longrightarrow> c \<in> set (allQ h)"
    and new: "\<And>c. c \<in># refs_of A \<Longrightarrow> c \<in># refs_of N \<Longrightarrow> c \<in># act_refs b \<or> c \<in> set (allQ h)"
    and one: "\<And>c sc. Enqueue c sc \<in># N \<Longrightarrow> count (refs_of N + refs_of A) c = 1"
    and fl: "inflight h' + owes_of h' N + completed m' = inflight h + act_owes h b + completed m + M"
    by (auto simp: act_step_def)
  have "act_ok h' m' a" if "a \<in># A" for a
    by (rule act_ok_mono [of h m]) (use inv that in_refs_of [OF that] sc cm q in \<open>auto simp: race_inv_def\<close>)
  moreover have "count (refs_of (N + A)) c = 1" if e: "Enqueue c s \<in># N + A" for c s
  proof (cases "Enqueue c s \<in># N")
    case False
    with e have a: "Enqueue c s \<in># A" by simp
    then have r: "c \<in># refs_of A" by (rule in_refs_of) simp
    have "count (act_refs b) c + count (refs_of A) c = 1" and nq: "c \<notin> set (allQ h)"
      using inv a by (auto simp: race_inv_def)
    moreover have "0 < count (refs_of A) c" using r by (simp only: count_greater_zero_iff)
    ultimately have "count (act_refs b) c = 0" "count (refs_of A) c = 1" by linarith+
    with nq have "c \<notin># refs_of N" using new [OF r] by (auto simp: count_eq_zero_iff)
    then show ?thesis using \<open>count (refs_of A) c = 1\<close> by (simp add: count_eq_zero_iff)
  qed (use one in auto)
  ultimately show "race_inv h' m' (N + A)" using core cdb N by (auto simp: race_inv_def)
  have "owes_of h' A = owes_of h A" by (rule act_owes_cong [OF sc])
  then have "race_total h' m' (N + A) = (inflight h' + owes_of h' N + completed m') + owes_of h A"
    by (simp add: race_total_def add_ac)
  then show "race_total h' m' (N + A) = race_total h m (add_mset b A) + M"
    unfolding fl by (simp add: race_total_def add_ac)
qed

subsection \<open>Every action keeps it\<close>

text \<open>What each action may rely on.\<close>

definition act_pre :: "nat multiset \<Rightarrow> action \<Rightarrow> vsc_ctrl_info \<Rightarrow> midlayer \<Rightarrow> bool" where
  "act_pre H b h m \<longleftrightarrow> core_inv (act_refs b + H) h \<and> cdbs_ok h m \<and> act_ok h m b \<and>
     (\<forall>c sc. b = Enqueue c sc \<longrightarrow> c \<notin># H)"

text \<open>An action that leaves the queues and the pool alone.\<close>

lemma act_step_still:
  assumes "core_inv (refs_of N + H) h'" "cdbs_ok h m" "\<forall>a\<in>#N. act_ok h' m' a" "allQ h' = allQ h"
    and "\<And>c. scsi_cmd (cmd_of h' c) = scsi_cmd (cmd_of h c)" "\<And>s. cmnd (scmds m' s) = cmnd (scmds m s)"
    and "refs_of N \<subseteq># act_refs b + act_refs b" "\<And>c sc. Enqueue c sc \<notin># N"
    and "owes_of h' N + completed m' = act_owes h b + completed m"
  shows "act_step H b h m N h' m' {#}"
proof -
  have "c \<in># act_refs b" if "c \<in># refs_of N" for c using assms(7) that by (auto dest: mset_subset_eqD)
  moreover have "inflight h' = inflight h" using assms(4,5) by (rule inflight_cong)
  moreover have "cdbs_ok h' m'" using assms(2,4-6) by (simp add: cdbs_ok_def)
  ultimately show ?thesis using assms by (simp add: act_step_def add_ac)
qed

lemma step_put:
  assumes "act_pre H (Put c) h m"
  shows "act_step H (Put c) h m {#} (vsc_cmd_put c h) m {#}"
  using assms core_put [of c H h] by (intro act_step_still) (simp_all add: act_pre_def vsc_frame)

lemma set_outcome_cmnd [simp]: "cmnd (set_outcome out sc) = cmnd sc"
  by (cases out) (simp_all add: set_rsp_result_eq)

lemma done_cmnd [simp]: "cmnd (scmds (scsi_done sc (upd_sc sc (set_outcome out) m)) s) = cmnd (scmds m s)"
  by (simp add: scsi_done_def upd_sc_def)

lemma step_complete:
  assumes "act_pre H (Complete sc out) h m"
  shows "act_step H (Complete sc out) h m {#} h (scsi_done sc (upd_sc sc (set_outcome out) m)) {#}"
  using assms by (intro act_step_still) (simp_all add: act_pre_def)

lemma step_mark:
  assumes "act_pre H (Mark c) h m" "do_mark c (h, m) = Some (N, h', m')"
  shows "act_step H (Mark c) h m (mset N) h' m' {#}"
proof -
  let ?h = "upd_cmd c (\<lambda>x. x\<lparr>cstat := CMD_STAT_READ_COMP\<rparr>) h"
  have e: "N = []" "h' = ?h" "m' = m" using assms(2) by (auto simp: do_mark_def bind_eq_Some_conv)
  have q: "allQ ?h = allQ h" "io_running ?h = io_running h" by (simp_all add: upd_cmd_def allQ_def)
  have "core_inv H ?h"
    by (rule core_move [OF _ same_buffers_upd_stat]) (use assms(1) q in \<open>simp_all add: act_pre_def\<close>)
  then show ?thesis
    unfolding e using assms(1) q by (intro act_step_still) (simp_all add: act_pre_def upd_cstat_fields)
qed

lemma step_callback:
  assumes pre: "act_pre H (Callback ty code c) h m" and run: "do_callback ty code c (h, m) = (N, h', m')"
  shows "act_step H (Callback ty code c) h m (mset N) h' m' {#}"
proof -
  have core: "core_inv (add_mset c H) h" using pre by (simp add: act_pre_def)
  obtain sc where sc: "scsi_cmd (cmd_of h c) = Some sc" using pre by (auto simp: act_pre_def)
  let ?h = "dec_qdepth ty (vsc_cmd_get c h)"
  have cmd: "cmd_of ?h j = cmd_of (vsc_cmd_get c h) j" for j by (simp add: dec_qdepth_def)
  have e: "N = [Complete sc (Code code), Put c, Put c]" "h' = ?h" "m' = m"
    using run sc by (simp_all add: do_callback_def dec_qdepth_eq Let_def cmd vsc_frame)
  have "c \<in> cmd_used h" using core_held [OF core] by simp
  then have "core_inv (add_mset c (add_mset c H)) ?h" using core_get [OF core] by simp
  then show ?thesis
    unfolding e using pre sc
    by (intro act_step_still) (simp_all add: act_pre_def cmd vsc_frame allQ_def add_ac)
qed

text \<open>Taking a buffer out of its queue: the queue's reference and its command pass to the program.\<close>

lemma act_step_taken:
  assumes core: "core_inv (act_refs b + H) h" and cdb: "cdbs_ok h m" and c: "c \<in> set (allQ h)" "scsi_cmd (cmd_of h c) = Some sc"
    and h': "h' = unlink c h \<or> h' = upd_cmd c (\<lambda>x. x\<lparr>cstat := st\<rparr>) (unlink c h)"
    and N: "\<forall>a\<in>#N. act_ok h' m a" "refs_of N = add_mset c (act_refs b)" "owes_of h' N = add_mset sc (act_owes h b)"
      "\<And>c sc. Enqueue c sc \<notin># N"
  shows "act_step H b h m N h' m {#}"
proof -
  have d: "distinct (allQ h)" by (rule core_distinct [OF core])
  have q: "allQ h' = remove1 c (allQ h)" using h' allQ_unlink [OF d] by (auto simp: upd_cmd_def allQ_def)
  have s: "scsi_cmd (cmd_of h' j) = scsi_cmd (cmd_of h j)" for j using h' by (auto simp: upd_cstat_fields)
  have "core_inv (add_mset c (act_refs b + H)) (unlink c h)" by (rule core_unlink [OF core c(1)])
  moreover from this have "core_inv (add_mset c (act_refs b + H)) (upd_cmd c (\<lambda>x. x\<lparr>cstat := st\<rparr>) (unlink c h))"
    by (rule core_move [OF _ same_buffers_upd_stat]) (simp_all add: upd_cmd_def allQ_def)
  ultimately have "core_inv (refs_of N + H) h'" using h' N(2) by auto
  moreover have "inflight h = add_mset sc (inflight h')"
  proof -
    have "inflight h' = inflight (unlink c h)"
      by (rule inflight_cong) (use q s d in \<open>simp_all add: allQ_unlink\<close>)
    then show ?thesis using inflight_unlink [OF d c] by simp
  qed
  moreover have "cdbs_ok h' m" using cdb q s d by (simp add: cdbs_ok_def set_remove1_eq)
  ultimately show ?thesis using N q s d c(1) by (auto simp: act_step_def set_remove1_eq)
qed

lemma step_drain:
  assumes pre: "act_pre H (Drain ty code) h m" and run: "do_drain ty code (h, m) = (N, h', m')"
  shows "act_step H (Drain ty code) h m (mset N) h' m' {#}"
proof (cases "in_queue ty h")
  case Nil
  then have "N = []" "h' = h" "m' = m" using run by (simp_all add: do_drain_def)
  then show ?thesis using pre by (intro act_step_still) (simp_all add: act_pre_def)
next
  case (Cons c cs)
  then have e: "N = [Callback ty code c, Drain ty code]" "h' = unlink c h" "m' = m"
    using run by (simp_all add: do_drain_def unlink_def Let_def)
  have core: "core_inv H h" using pre by (simp add: act_pre_def)
  have c: "c \<in> set (allQ h)" using Cons by (cases ty) (auto simp: allQ_def)
  obtain sc where sc: "scsi_cmd (cmd_of h c) = Some sc" using core_linked [OF core c] by blast
  show ?thesis
    unfolding e by (rule act_step_taken [where c = c and sc = sc]) (use pre c sc in \<open>simp_all add: act_pre_def\<close>)
qed

lemma step_finish_abort:
  assumes pre: "act_pre H (Finish_abort c sc) h m" and run: "do_finish_abort c sc (h, m) = (N, h', m')"
  shows "act_step H (Finish_abort c sc) h m (mset N) h' m' {#}"
proof (cases "c \<in> set (allQ h)")
  case False
  then have "N = [Put c]" "h' = h" "m' = m" using run by (simp_all add: do_finish_abort_def cmd_unlinked_def)
  then show ?thesis using pre by (intro act_step_still) (simp_all add: act_pre_def)
next
  case True
  then have e: "N = [Put c, Complete sc (Code (push_bit 16 DID_ABORT)), Put c]" "h' = unlink c h" "m' = m"
    using run by (simp_all add: do_finish_abort_def cmd_unlinked_def unlink_def Let_def)
  show ?thesis
    unfolding e by (rule act_step_taken [where c = c and sc = sc]) (use pre True in \<open>simp_all add: act_pre_def\<close>)
qed

lemma step_answer:
  assumes pre: "act_pre H (Answer msg) h m"
  obtains N h' where "do_answer msg (h, m) = Some (N, h', m)" "act_step H (Answer msg) h m (mset N) h' m {#}"
proof -
  let ?c = "unat (rsp_tag msg)"
  let ?h = "upd_cmd ?c (\<lambda>x. x\<lparr>cstat := CMD_STAT_RESP\<rparr>) (unlink ?c h)"
  let ?no = "nr_cmds h \<le> ?c \<or> cstat (cmd_of h ?c) \<noteq> CMD_STAT_READ_COMP \<or> cmd_sn (cmd_of h ?c) \<noteq> rsp_cmd_sn msg \<or>
    cmd_unlinked ?c h"
  have core: "core_inv H h" and cdb: "cdbs_ok h m" using pre by (simp_all add: act_pre_def)
  show thesis
  proof (cases ?no)
    case True
    then have "do_answer msg (h, m) = Some ([], h, m)" by (auto simp: do_answer_def Let_def)
    moreover have "act_step H (Answer msg) h m (mset []) h m {#}"
      using core cdb by (intro act_step_still) simp_all
    ultimately show thesis by (rule that)
  next
    case False
    then have c: "?c \<in> set (allQ h)" by (simp add: cmd_unlinked_def)
    obtain sc where sc: "scsi_cmd (cmd_of h ?c) = Some sc" using core_linked [OF core c] by blast
    then have "cmnd (scmds m sc) \<noteq> []" using cdb c by (auto simp: cdbs_ok_def)
    moreover have "scsi_cmd (cmd_of (upd_cmd ?c (\<lambda>x. x\<lparr>cstat := CMD_STAT_RESP\<rparr>) (removeQ ?c h)) ?c) = Some sc"
      using sc by (simp add: upd_cstat_fields) (simp add: removeQ_def)
    ultimately have "do_answer msg (h, m) = Some ([Complete sc (Answered msg), Put ?c], ?h, m)"
      using False by (simp add: do_answer_def Let_def) (simp add: unlink_def upd_cmd_def removeQ_def)
    moreover have "act_step H (Answer msg) h m (mset [Complete sc (Answered msg), Put ?c]) ?h m {#}"
      by (rule act_step_taken [where c = ?c and sc = sc]) (use core cdb c sc in auto)
    ultimately show thesis by (rule that)
  qed
qed

lemma step_alloc:
  assumes pre: "act_pre H (Alloc sc) h m"
  obtains N h' where "do_alloc sc (h, m) = Some (N, h', m)"
    "act_step H (Alloc sc) h m (mset N) h' m (if N = [] then {#} else {#sc#})"
proof -
  have core: "core_inv H h" and cdb: "cdbs_ok h m" and ne: "cmnd (scmds m sc) \<noteq> []" using pre by (simp_all add: act_pre_def)
  have ok: "cmd_pool_ok h" using core by (simp add: core_inv_alt)
  then obtain r h1 where al: "vsc_cmd_alloc h = Some (r, h1)" using cpool.alloc_returns by blast
  show thesis
  proof (cases r)
    case None
    then have "h1 = h" using cpool.alloc_None [OF ok] al by auto
    then have "do_alloc sc (h, m) = Some ([], h, m)" using al None by (simp add: do_alloc_def)
    moreover have "act_step H (Alloc sc) h m (mset []) h m {#}"
      using core cdb by (intro act_step_still) simp_all
    ultimately show thesis using that [of "[]" h] by simp
  next
    case (Some c)
    note a = core_alloc [OF core al [unfolded Some]]
    have cmd: "cmd_of h1 j = cmd_of h j" if "j \<in># H \<or> j \<in> set (allQ h)" for j
      using a(2,3,5) that by metis
    have "inflight h1 = inflight h"
      unfolding inflight_def a(4) by (intro image_mset_cong) (simp add: cmd)
    moreover have "cdbs_ok h1 m" using cdb cmd a(4) by (simp add: cdbs_ok_def)
    ultimately have "act_step H (Alloc sc) h m (mset [Enqueue c sc, Start_io]) h1 m {#sc#}"
      using a(1-4) cmd ne count_eq_zero_iff [of H c] by (auto simp: act_step_def)
    moreover have "do_alloc sc (h, m) = Some ([Enqueue c sc, Start_io], h1, m)" using al Some by (simp add: do_alloc_def)
    ultimately show thesis using that [of "[Enqueue c sc, Start_io]" h1] by simp
  qed
qed

lemma step_enqueue:
  assumes pre: "act_pre H (Enqueue c sc) h m" and run: "do_enqueue self c sc (h, m) = (N, h', m')"
  shows "act_step H (Enqueue c sc) h m (mset N) h' m' {#}"
proof -
  let ?g = "upd_cmd c (\<lambda>x. x\<lparr>scsi_cmd := Some sc\<rparr>) h"
  let ?h = "?g\<lparr>reqQ := addQ (reqQ ?g) c, Qdepth := Qdepth ?g + 1, io_running := io_running ?g + 1\<rparr>"
  let ?m = "upd_sc sc (\<lambda>s. s\<lparr>host_scribble := Some (self, c)\<rparr>) m"
  have e: "N = []" "h' = ?h" "m' = ?m" using run by (simp_all add: do_enqueue_def Let_def)
  have core: "core_inv (add_mset c H) h" and nq: "c \<notin> set (allQ h)" and nH: "c \<notin># H" and cdb: "cdbs_ok h m"
    and ne: "cmnd (scmds m sc) \<noteq> []" using pre by (auto simp: act_pre_def)
  have len: "c < length (cmd_pool_tbl h)"
    using core_held [OF core, of c] core by (simp add: core_inv_alt cmd_pool_ok_def)
  have g: "allQ ?g = allQ h" "scsi_cmd (cmd_of ?g c) = Some sc" "\<And>j. j \<noteq> c \<Longrightarrow> cmd_of ?g j = cmd_of h j"
    using len by (simp_all add: upd_cmd_def allQ_def)
  have cg: "core_inv (add_mset c H) ?g"
  proof -
    have "cmd_used ?g = cmd_used h" by (simp add: upd_cmd_def cmd_used_def)
    moreover have "cmd_index (cmd_of ?g j) = cmd_index (cmd_of h j)" "crefcnt (cmd_of ?g j) = crefcnt (cmd_of h j)"
      "scsi_cmd (cmd_of ?g j) = None \<longleftrightarrow> j \<noteq> c \<and> scsi_cmd (cmd_of h j) = None" for j
      using len by (cases "j = c"; simp add: upd_cmd_def)+
    moreover have "nr_cmds ?g = nr_cmds h" "length (cmd_pool_tbl ?g) = length (cmd_pool_tbl h)" "cmd_pool_bits ?g = cmd_pool_bits h"
      "io_running ?g = io_running h" by (simp_all add: upd_cmd_def)
    ultimately show ?thesis
      using core g(1) nq by (simp add: core_inv_alt cmd_pool_ok_def queues_ok_def refs_ok_def)
  qed
  have "core_inv H ?h" by (rule core_enqueue [OF cg]) (use g nq in simp_all)
  moreover have all: "set (allQ ?h) = insert c (set (allQ h))" by (auto simp: allQ_def addQ_def upd_cmd_def)
  moreover have scs: "scsi_cmd (cmd_of ?h j) = (if j = c then Some sc else scsi_cmd (cmd_of h j))" for j
    using g(2,3) by simp
  moreover have "inflight ?h = add_mset sc (inflight h)"
  proof -
    have "mset (allQ ?h) = add_mset c (mset (allQ h))" by (simp add: allQ_def addQ_def upd_cmd_def)
    moreover have "image_mset (\<lambda>i. the (scsi_cmd (cmd_of ?h i))) (mset (allQ h)) = inflight h"
      unfolding inflight_def scs by (rule image_mset_cong) (use nq in auto)
    ultimately show ?thesis using g(2) by (simp add: inflight_def)
  qed
  moreover have cm: "cmnd (scmds ?m s) = cmnd (scmds m s)" for s by (simp add: upd_sc_def)
  moreover have "cdbs_ok ?h ?m"
    unfolding cdbs_ok_def all cm scs using cdb ne nq by (auto simp: cdbs_ok_def)
  ultimately show ?thesis unfolding e using nH by (simp add: act_step_def)
qed

lemma act_step_moved:
  assumes core: "core_inv H h" and cdb: "cdbs_ok h m" and same: "same_buffers h h'"
    and q: "mset (allQ h') = mset (allQ h)" "io_running h' = io_running h"
    and N: "\<forall>a\<in>#N. act_ok h' m a \<and> act_refs a = {#} \<and> act_owes h' a = {#}" and b: "act_refs b = {#}" "act_owes h b = {#}"
  shows "act_step H b h m N h' m {#}"
proof -
  have "refs_of N = {#}" "owes_of h' N = {#}" using N by (simp_all add: refs_of_def owes_of_def)
  moreover have "Enqueue c sc \<notin># N" for c sc using N by force
  moreover have "set (allQ h') = set (allQ h)" using q(1) by (rule mset_eq_setD)
  moreover have "core_inv H h'" by (rule core_move [OF core same q])
  moreover have "inflight h' = inflight h" by (rule inflight_move [OF same q(1)])
  ultimately show ?thesis
    using cdb same N b by (simp add: act_step_def cdbs_ok_def same_buffers_def)
qed

lemma step_start_io:
  assumes pre: "act_pre H Start_io h m" and run: "do_start_io (h, m) = (N, h', m')"
  shows "act_step H Start_io h m (mset N) h' m' {#}"
proof (cases "reqQ h")
  case Nil
  then have "N = []" "h' = h" "m' = m" using run by (simp_all add: do_start_io_def)
  then show ?thesis using pre by (intro act_step_still) (simp_all add: act_pre_def)
next
  case (Cons c q)
  then have e: "N = [Start_io]" "h' = start_io_step c h" "m' = m" using run by (simp_all add: do_start_io_def)
  have core: "core_inv H h" and cdb: "cdbs_ok h m" using pre by (simp_all add: act_pre_def)
  let ?q = "\<lambda>x. x\<lparr>Qdepth := of_nat (length (reqQ h))\<rparr>"
  have req: "reqQ (?q h) = c # q" using Cons by simp
  note f = start_io_step_facts [OF core [unfolded core_inv_def] req]
  have g: "start_io_step c (?q h) = (start_io_step c h)\<lparr>Qdepth := of_nat (length (reqQ h)) - 1\<rparr>"
    by (simp add: start_io_step_def removeQ_def upd_cmd_def wake_up_queue_def waitqueue_active_def Let_def)
  have "reqQ (start_io_step c h) = q" "cmpQ (start_io_step c h) = cmpQ h @ [c]" "rspQ (start_io_step c h) = rspQ h"
    "io_running (start_io_step c h) = io_running h" "same_buffers h (start_io_step c h)"
    using f(1-4,6) unfolding g by (simp_all add: same_buffers_def)
  then show ?thesis unfolding e using Cons core cdb by (intro act_step_moved) (simp_all add: allQ_def)
qed

lemma step_take:
  assumes pre: "act_pre H Take_batch h m" and run: "do_take (h, m) = (N, h', m')"
  shows "act_step H Take_batch h m (mset N) h' m' {#}"
proof (cases "cmpQ h = []")
  case True
  then have "N = []" "h' = h" "m' = m" using run by (simp_all add: do_take_def)
  then show ?thesis using pre by (intro act_step_still) (simp_all add: act_pre_def)
next
  case False
  have core: "core_inv H h" and cdb: "cdbs_ok h m" using pre by (simp_all add: act_pre_def)
  let ?h = "h\<lparr>cmpQ := drop 4 (cmpQ h), rspQ := rspQ h @ take 4 (cmpQ h), get_cmd_times := get_cmd_times h + 1,
        get_cmd_total := get_cmd_total h + of_nat (min (length (cmpQ h)) 4)\<rparr>"
  have "get_multi_take h = (take 4 (cmpQ h), length (cmpQ h) - 4, ?h)"
    using core_distinct [OF core] by (simp add: get_multi_take_def take_cmds_eq MAX_BATCH_SCSI_CMD_COUNT_def)
  then have e: "N = map Mark (take 4 (cmpQ h))" "h' = ?h" "m' = m"
    using run False by (simp_all add: do_take_def)
  have "mset (take 4 (cmpQ h)) + mset (drop 4 (cmpQ h)) = mset (cmpQ h)"
    by (metis append_take_drop_id mset_append)
  then have q: "mset (allQ ?h) = mset (allQ h)" by (simp add: allQ_def add_ac)
  show ?thesis
    unfolding e by (rule act_step_moved [OF core cdb _ q]) (auto simp: same_buffers_def)
qed

text \<open>Every action but a reader's can be taken, and what it does is a step.\<close>

fun accepted :: "action \<Rightarrow> action list \<Rightarrow> nat multiset" where
  "accepted (Alloc sc) new = (if new = [] then {#} else {#sc#})"
| "accepted b new = {#}"

lemma act_steps:
  assumes pre: "act_pre H b h m" and run: "act self b (h, m) = Some (N, h', m')"
  shows "act_step H b h m (mset N) h' m' (accepted b N)"
proof (cases b)
  case (Alloc sc)
  obtain N1 h1 where a: "do_alloc sc (h, m) = Some (N1, h1, m)"
    "act_step H (Alloc sc) h m (mset N1) h1 m (if N1 = [] then {#} else {#sc#})"
    by (rule step_alloc [OF pre [unfolded Alloc]])
  have "N1 = N" "h1 = h'" "m' = m" using a(1) run Alloc by simp_all
  then show ?thesis using a(2) Alloc by simp
next
  case (Enqueue c sc)
  then show ?thesis using step_enqueue [OF pre [unfolded Enqueue]] run by simp
next
  case Start_io
  then show ?thesis using step_start_io [OF pre [unfolded Start_io]] run by simp
next
  case Take_batch
  then show ?thesis using step_take [OF pre [unfolded Take_batch]] run by simp
next
  case (Mark c)
  then show ?thesis using step_mark [OF pre [unfolded Mark]] run by simp
next
  case (Answer msg)
  obtain N1 h1 where a: "do_answer msg (h, m) = Some (N1, h1, m)" "act_step H (Answer msg) h m (mset N1) h1 m {#}"
    by (rule step_answer [OF pre [unfolded Answer]])
  have "N1 = N" "h1 = h'" "m' = m" using a(1) run Answer by simp_all
  then show ?thesis using a(2) Answer by simp
next
  case (Drain ty code)
  then show ?thesis using step_drain [OF pre [unfolded Drain]] run by simp
next
  case (Callback ty code c)
  then show ?thesis using step_callback [OF pre [unfolded Callback]] run by simp
next
  case (Finish_abort c sc)
  then show ?thesis using step_finish_abort [OF pre [unfolded Finish_abort]] run by simp
next
  case (Complete sc out)
  then show ?thesis using step_complete [OF pre [unfolded Complete]] run by auto
next
  case (Put c)
  then show ?thesis using step_put [OF pre [unfolded Put]] run by auto
qed

lemma act_returns:
  assumes "act_pre H b h m" "\<And>c. b \<noteq> Mark c"
  shows "act self b (h, m) \<noteq> None"
proof (cases b)
  case (Alloc sc)
  obtain N h' where "do_alloc sc (h, m) = Some (N, h', m)" by (rule step_alloc [OF assms(1) [unfolded Alloc]])
  then show ?thesis using Alloc by simp
next
  case (Answer msg)
  obtain N h' where "do_answer msg (h, m) = Some (N, h', m)" by (rule step_answer [OF assms(1) [unfolded Answer]])
  then show ?thesis using Answer by simp
qed (use assms(2) in simp_all)

subsection \<open>Any number of programs\<close>

text \<open>The actions of all programs.\<close>

definition acts :: "action list multiset \<Rightarrow> action multiset" where
  "acts T = (\<Sum>p\<in>#T. mset p)"

lemma acts_simps [simp]: "acts {#} = {#}" "acts (add_mset p T) = mset p + acts T"
  by (simp_all add: acts_def)

text \<open>
  One action of one program, or a new program: the middle layer submits a command, the target reads or answers,
  the queues are drained, or an abort takes its reference to a command in a queue, for which the target will report
  success.
\<close>

inductive race_step ::
  "nat \<Rightarrow> nat multiset \<Rightarrow> host_mem \<times> action list multiset \<Rightarrow> host_mem \<times> action list multiset \<Rightarrow> bool"
  for self where
  race_act: "act self b s = Some (new, s') \<Longrightarrow>
    race_step self (accepted b new) (s, add_mset (b # p) T) (s', add_mset (new @ p) T)"
| race_submit: "cmnd (scmds m sc) \<noteq> [] \<Longrightarrow> race_step self {#} ((h, m), T) ((h, m), add_mset [Alloc sc] T)"
| race_read: "race_step self {#} (s, T) (s, add_mset [Take_batch] T)"
| race_answer: "race_step self {#} (s, T) (s, add_mset [Answer msg] T)"
| race_drain: "race_step self {#} (s, T) (s, add_mset (drain_all code) T)"
| race_abort: "c \<in> set (allQ h) \<Longrightarrow> scsi_cmd (cmd_of h c) = Some sc \<Longrightarrow>
    race_step self {#} ((h, m), T) ((vsc_cmd_get c h, m), add_mset [Finish_abort c sc] T)"

inductive race_run ::
  "nat \<Rightarrow> nat multiset \<Rightarrow> host_mem \<times> action list multiset \<Rightarrow> host_mem \<times> action list multiset \<Rightarrow> bool"
  for self where
  race_idle: "race_run self {#} x x"
| race_more: "race_run self M x y \<Longrightarrow> race_step self N y z \<Longrightarrow> race_run self (M + N) x z"

lemma race_pre:
  assumes "race_inv h m (add_mset b A)"
  shows "act_pre (refs_of A) b h m"
proof -
  have "c \<notin># refs_of A" if "b = Enqueue c sc" for c sc
    using assms that by (auto simp: race_inv_def not_in_iff)
  then show ?thesis using assms by (auto simp: race_inv_def act_pre_def)
qed

lemma race_inv_spawn:
  assumes "race_inv h m A" "act_refs b = {#}" "act_owes h b = {#}" "act_ok h m b" "\<And>c sc. b \<noteq> Enqueue c sc"
  shows "race_inv h m (add_mset b A)" "race_total h m (add_mset b A) = race_total h m A"
  using assms by (simp_all add: race_inv_def race_total_def) metis

lemma race_step_inv:
  assumes "race_step self M ((h, m), T) ((h', m'), T')" "race_inv h m (acts T)"
  shows "race_inv h' m' (acts T') \<and> race_total h' m' (acts T') = race_total h m (acts T) + M"
  using assms(1)
proof (cases rule: race_step.cases)
  case (race_act b new p U)
  let ?A = "mset p + acts U"
  have inv: "race_inv h m (add_mset b ?A)" using assms(2) race_act by simp
  have "act_step (refs_of ?A) b h m (mset new) h' m' M"
    using act_steps [OF race_pre [OF inv]] race_act by simp
  from race_inv_act [OF inv this] show ?thesis using race_act by (simp add: add_ac)
next
  case (race_abort c sc)
  have core: "core_inv (refs_of (acts T)) h" using assms(2) by (simp add: race_inv_def)
  have used: "c \<in> cmd_used h" using core_linked [OF core race_abort(5)] by simp
  have q: "allQ h' = allQ h" "scsi_cmd (cmd_of h' j) = scsi_cmd (cmd_of h j)" for j
    using race_abort by (simp_all add: vsc_frame)
  have "core_inv (add_mset c (refs_of (acts T))) h'" using core_get [OF core used] race_abort by simp
  moreover have "act_ok h' m a" if "a \<in># acts T" for a
    by (rule act_ok_mono [of h m]) (use assms(2) that q in \<open>auto simp: race_inv_def\<close>)
  moreover have "count (add_mset c (refs_of (acts T))) j = 1" if e: "Enqueue j s \<in># acts T" for j s
  proof -
    have "j \<notin> set (allQ h)" "count (refs_of (acts T)) j = 1" using assms(2) e by (auto simp: race_inv_def)
    then show ?thesis using race_abort(5) by auto
  qed
  moreover have "cdbs_ok h' m" using assms(2) q by (simp add: race_inv_def cdbs_ok_def)
  ultimately have "race_inv h' m' (acts T')"
    using race_abort q by (auto simp: race_inv_def)
  moreover have "owes_of h' (acts T) = owes_of h (acts T)" by (rule act_owes_cong) (rule q)
  moreover have "inflight h' = inflight h" by (rule inflight_cong) (rule q)+
  ultimately show ?thesis using race_abort by (simp add: race_total_def)
next
  case (race_drain code)
  have "race_inv h m (add_mset (Drain a code) (add_mset (Drain b code) (add_mset (Drain d code) (acts T)))) \<and>
     race_total h m (add_mset (Drain a code) (add_mset (Drain b code) (add_mset (Drain d code) (acts T)))) =
     race_total h m (acts T)" for a b d
    by (intro conjI race_inv_spawn) (simp_all add: race_inv_spawn assms(2))
  then show ?thesis using race_drain by (simp add: drain_all_def)
qed (use assms(2) race_inv_spawn in auto)

lemma race_run_inv:
  assumes "race_run self M x y" "x = ((h, m), T)" "y = ((h', m'), T')" "race_inv h m (acts T)"
  shows "race_inv h' m' (acts T') \<and> race_total h' m' (acts T') = race_total h m (acts T) + M"
  using assms
proof (induction arbitrary: h' m' T' rule: race_run.induct)
  case (race_more M x y N z)
  obtain g n U where y: "y = ((g, n), U)" by (metis prod.collapse)
  from race_more.IH [OF race_more.prems(1) y race_more.prems(3)]
  have IH: "race_inv g n (acts U)" "race_total g n (acts U) = race_total h m (acts T) + M" by simp_all
  from race_step_inv [OF race_more.hyps(2) [unfolded y race_more.prems(2)] IH(1)] IH(2)
  show ?case by (simp add: add_ac)
qed simp

subsection \<open>Putting back what was completed\<close>

lemma putback_cmpQ:
  "distinct (cs @ cmpQ h) \<Longrightarrow> cmpQ (get_multi_putback cs h) = rev cs @ cmpQ h"
proof (induction cs arbitrary: h)
  case (Cons c cs)
  let ?h = "let h2 = removeQ c (upd_cmd c (\<lambda>x. x\<lparr>cstat := CMD_STAT_REQUEST\<rparr>) h) in h2\<lparr>cmpQ := c # cmpQ h2\<rparr>"
  have q: "cmpQ ?h = c # cmpQ h" using Cons.prems by (simp add: removeQ_def upd_cmd_def remove1_idem)
  have "get_multi_putback (c # cs) h = get_multi_putback cs ?h" by (simp add: get_multi_putback_def Let_def)
  moreover have "distinct (cs @ cmpQ ?h)" unfolding q using Cons.prems by auto
  ultimately show ?case using Cons.IH [of ?h] q by simp
qed (simp add: get_multi_putback_def)

lemma putback_scsi_cmd: "scsi_cmd (cmd_of (get_multi_putback cs h) j) = scsi_cmd (cmd_of h j)"
proof (induction cs arbitrary: h)
  case (Cons c cs)
  let ?h = "let h2 = removeQ c (upd_cmd c (\<lambda>x. x\<lparr>cstat := CMD_STAT_REQUEST\<rparr>) h) in h2\<lparr>cmpQ := c # cmpQ h2\<rparr>"
  have "get_multi_putback (c # cs) h = get_multi_putback cs ?h" by (simp add: get_multi_putback_def Let_def)
  moreover have "scsi_cmd (cmd_of ?h j) = scsi_cmd (cmd_of h j)"
    by (simp add: removeQ_def Let_def) (simp add: upd_cstat_fields)
  ultimately show ?case using Cons.IH [of ?h] by simp
qed (simp add: get_multi_putback_def)

subsection \<open>Properties\<close>



text \<open>
  (C31) A read does not own the commands of its batch while it fills and copies the messages. If a drain completes
  them meanwhile and the copy fails, the read puts the freed buffers back into \<open>cmpQ\<close>: each
  completed command is in flight again, in a buffer that is free. And if the buffer was allocated again
  in between, the read follows the null pointer of the new owner. A comment says that this has no serious consequence.
\<close>

theorem failed_read_revives_completed:
  assumes inv: "host_inv {#} h" and take: "get_multi_take h = (c_arr, left_count, h1)"
    and fill: "fill_msgs command_size c_arr m h1 stk = Some (msgs, h2)"
    and drain: "vsc_each_queue_remove vsc_abort_cmd_callback (h2, m) = Some (0, h3, m3)"
    and c: "c \<in> set c_arr"
  shows "the (scsi_cmd (cmd_of h c)) \<in># completed m3 \<and>
     the (scsi_cmd (cmd_of h c)) \<in># inflight (get_multi_putback c_arr h3) \<and>
     c \<in> set (cmpQ (get_multi_putback c_arr h3)) \<and> c \<notin> cmd_used h3 \<and>
     (\<forall>h4. vsc_cmd_alloc h3 = Some (Some c, h4) \<longrightarrow> act self (Mark c) (h4, m3) = None)"
proof -
  have t: "c_arr = take 4 (cmpQ h)" "h1 = h\<lparr>cmpQ := drop 4 (cmpQ h), rspQ := rspQ h @ take 4 (cmpQ h),
      get_cmd_times := get_cmd_times h + 1, get_cmd_total := get_cmd_total h + of_nat (min (length (cmpQ h)) 4)\<rparr>"
    using take unfolding get_multi_take_eq [OF inv] by auto
  have h2: "h2 = batch_taken h" using fill_msgs_state [OF fill] t by (simp add: batch_taken_def)
  have inv2: "host_inv {#} h2" unfolding h2 by (rule batch_taken_inv(1) [OF inv])
  have c2: "c \<in> set (allQ h2)" using c t(1) by (simp add: h2 batch_taken_def allQ_def)
  have s2: "scsi_cmd (cmd_of h2 j) = scsi_cmd (cmd_of h j)" for j
    using same_buffers_mark [of h CMD_STAT_READ_COMP "take 4 (cmpQ h)"]
    by (simp add: h2 batch_taken_def same_buffers_def)
  obtain g n where g: "vsc_each_queue_remove vsc_abort_cmd_callback (h2, m) = Some (0, g, n)" "host_inv {#} g"
    "allQ g = []" "done_log n = done_log m @ map (\<lambda>i. (the (scsi_cmd (cmd_of h2 i)), push_bit 16 DID_SOFT_ERROR)) (allQ h2)"
    "\<And>j. scsi_cmd (cmd_of g j) = scsi_cmd (cmd_of h2 j)"
    by (rule abort_cb.each_queue_remove [OF inv2, of m]) blast
  have e: "h3 = g" "m3 = n" using g(1) drain by simp_all
  have "distinct c_arr" using core_distinct [OF core_inv_host [OF inv]] unfolding t(1) by (simp add: allQ_def)
  moreover have "cmpQ h3 = []" using g(3) by (simp add: e allQ_def)
  ultimately have put: "c \<in> set (cmpQ (get_multi_putback c_arr h3))"
    using c putback_cmpQ [of c_arr h3] by simp
  then have "the (scsi_cmd (cmd_of (get_multi_putback c_arr h3) c)) \<in># inflight (get_multi_putback c_arr h3)"
    by (auto simp: inflight_def allQ_def)
  then have "the (scsi_cmd (cmd_of h c)) \<in># inflight (get_multi_putback c_arr h3)"
    by (simp add: putback_scsi_cmd e g(5) s2)
  moreover have "the (scsi_cmd (cmd_of h c)) \<in># completed m3"
    using c2 by (auto simp: completed_def e g(4) s2 image_iff)
  moreover have "c \<notin> cmd_used h3" using g(2,3) cmd_used_lt [of c h3] by (auto simp: e host_inv_defs)
  moreover have "act self (Mark c) (h4, m3) = None" if alloc: "vsc_cmd_alloc h3 = Some (Some c, h4)" for h4
  proof -
    have "cmd_pool_ok h3" using g(2) e by (simp add: host_inv_def)
    then obtain bits where b: "c < nr_cmds h3" "h4 = upd_cmd c (\<lambda>x. x\<lparr>cmd_index := of_nat c, cstat := CMD_STAT_INIT,
        scsi_cmd := None, cmd_sn := ucast (h_cmd_sn h3 + 1), crefcnt := 1\<rparr>)
        (h3\<lparr>cmd_pool_bits := bits, h_cmd_sn := h_cmd_sn h3 + 1\<rparr>)"
      by (rule vsc_cmd_alloc_cases) (use alloc in auto)
    have "c < length (cmd_pool_tbl h3)" using b(1) g(2) e by (simp add: host_inv_defs)
    then have "scsi_cmd (cmd_of h4 c) = None" by (simp add: b(2) upd_cmd_def)
    then show ?thesis by (simp add: do_mark_def)
  qed
  ultimately show ?thesis using put by blast
qed

subsection \<open>At concrete states\<close>


text \<open>The batch of one command, drained and put back.\<close>

theorem failed_read_revives_completed_witness:
  "\<exists>w h2 h3 m3. vsc_scsi_queue_command 5 example_world = Some (0, w) \<and>
     vsc_each_queue_remove vsc_abort_cmd_callback (h2, mid w) = Some (0, h3, m3) \<and>
     5 \<in># completed m3 \<and> 5 \<in># inflight (get_multi_putback [0] h3) \<and> 0 \<notin> cmd_used h3"
proof -
  obtain w where w: "vsc_scsi_queue_command 5 example_world = Some (0, w)" "host_inv {#} (hosts w 0)"
    "cmpQ (hosts w 0) = [0]"
    "\<forall>c\<in>set (take 4 (cmpQ (hosts w 0))).
       cdb_fits (\<lambda>_. 10) (scmds (mid w) (the (scsi_cmd (cmd_of (hosts w 0) c))))"
    by (rule example_readable)
  have fl: "inflight (hosts w 0) = {#5#}" "allQ (hosts w 0) = [0]"
    by (rule example_queued, use w(1) in simp)+
  let ?h = "hosts w 0" and ?m = "mid w"
  obtain h1 where t: "get_multi_take ?h = ([0], 0, h1)" "cmd_pool_tbl h1 = cmd_pool_tbl ?h"
    using get_multi_take_eq [OF w(2)] w(3) by simp
  obtain sc where sc: "scsi_cmd (cmd_of ?h 0) = Some sc" using host_inv_linked [OF w(2), of 0] fl(2) by auto
  then have "sc = 5" using fl by (simp add: inflight_def)
  have "\<forall>c\<in>set [0]. \<exists>sc. scsi_cmd (cmd_of h1 c) = Some sc \<and> cdb_fits (\<lambda>_. 10) (scmds ?m sc)"
    using w(3,4) sc t(2) by simp
  from fill_msgs_eq [OF this, of example_stk] obtain msgs h2 where
    f: "fill_msgs (\<lambda>_. 10) [0] ?m h1 example_stk = Some (msgs, h2)" using example_stk_ok(1) by auto
  have "h2 = batch_taken ?h"
    using fill_msgs_state [OF f] get_multi_take_eq [OF w(2)] t(1) w(3) by (auto simp: batch_taken_def)
  then have "host_inv {#} h2" using batch_taken_inv(1) [OF w(2)] by simp
  then obtain h3 m3 where d: "vsc_each_queue_remove vsc_abort_cmd_callback (h2, ?m) = Some (0, h3, m3)"
    using abort_cb.each_queue_remove [of "{#}" h2 ?m] by metis
  from failed_read_revives_completed [OF w(2) t(1) f d, of 0] sc \<open>sc = 5\<close> d w(1) show ?thesis by auto
qed

end
