(* ===== verification/Vsc_Module.thy ===== *)
theory Vsc_Module
  imports Vsc_Files
begin

text \<open>
  The module: its parameters (\<open>vsc_log.c\<close>, the write side of the proc files), loading
  (\<open>vsc_init\<close>) and unloading (\<open>vsc_exit\<close>). What the kernel's creation calls return is an argument.
\<close>

subsection \<open>Parameters\<close>

definition VSC_TYPE_COUNT :: int where "VSC_TYPE_COUNT = 3"

text \<open>
  \<open>strtoul\<close> is \<open>simple_strtoul(val, &endp, 0)\<close>: the value and the number of characters read. The log level
  goes through an \<open>int\<close>. The results are the return value and the new level or switch.
\<close>

definition vsc_set_log_level ::
  "(byte list \<Rightarrow> u64 \<times> nat) \<Rightarrow> byte list option \<Rightarrow> int \<Rightarrow> int \<times> int" where
  "vsc_set_log_level strtoul val log_level =
     (case val of
        None \<Rightarrow> (- EINVAL, log_level)
      | Some val \<Rightarrow>
          (let (v, used) = strtoul val; l = sint (ucast v :: u32) in
           if used = 0 then (- EINVAL, log_level)
           else if VSC_TYPE_COUNT \<le> l then (- EINVAL, log_level)
           else (0, l)))"

definition vsc_set_trace_swtich ::
  "(byte list \<Rightarrow> u64 \<times> nat) \<Rightarrow> byte list option \<Rightarrow> u64 \<Rightarrow> int \<times> u64" where
  "vsc_set_trace_swtich strtoul val trace_switch =
     (case val of
        None \<Rightarrow> (- EINVAL, trace_switch)
      | Some val \<Rightarrow>
          (let (l, used) = strtoul val in
           if used = 0 then (- EINVAL, trace_switch) else (0, l)))"

text \<open>
  Writing to the proc file of a host. \<open>stk\<close> is what the 128 bytes on the stack hold; a longer write
  overruns them. The code without \<open>__VSC_LATENCY_DEBUG__\<close>.
\<close>

definition vsc_seq_write ::
  "byte list \<Rightarrow> u64 \<Rightarrow> nat \<Rightarrow> umem \<Rightarrow> vsc_world \<Rightarrow> (int \<times> vsc_world) option" where
  "vsc_seq_write stk user_ptr len um w =
     (if 128 < len then None
      else
        (let (left, bs) = copy_from_user user_ptr len um; buf = bs @ drop len stk in
         if left \<noteq> 0 then Some (- EFAULT, w)
         else
           Some (int len,
             if buf ! 0 = 0x34 then w\<lparr>io_per_host := 4, io_per_host_shift := 2\<rparr>
             else if buf ! 0 = 0x32 then w\<lparr>io_per_host := 2, io_per_host_shift := 1\<rparr>
             else if buf ! 0 = 0x31 then w\<lparr>io_per_host := 1, io_per_host_shift := 0\<rparr>
             else if buf ! 0 = 0x30 then w\<lparr>io_per_host := 0\<rparr>
             else w)))"

subsection \<open>Loading and unloading\<close>

record module_env =
  me_proc :: bool
  me_major :: int
  me_cls :: "int + nat"
  me_dev :: "int + nat"
  me_slab :: bool
  me_pool :: bool

text \<open>The hosts and the globals of the module; the last three are pointers that are not \<open>NULL\<close>.\<close>

record vsc_module =
  m_sys :: vsc_sys
  vsc_class :: "(int + nat) option"
  proc_vsc_root :: bool
  scsi_buf_slab :: bool
  scsi_buf_pool :: bool

definition io_shift :: "vsc_world \<Rightarrow> nat option" where
  "io_shift w =
     (if io_per_host w = 0 then Some (io_per_host_shift w)
      else if io_per_host w = 1 then Some 0
      else if io_per_host w = 2 then Some 1
      else if io_per_host w = 4 then Some 2
      else None)"

definition vsc_init :: "module_env \<Rightarrow> vsc_module \<Rightarrow> int \<times> vsc_module \<times> kcall list" where
  "vsc_init E M =
     (case io_shift (sys (m_sys M)) of
        None \<Rightarrow> (- EINVAL, M, [])
      | Some shift \<Rightarrow>
          (let M1 = M\<lparr>m_sys := (m_sys M)\<lparr>sys := (sys (m_sys M))\<lparr>io_per_host_shift := shift, g_host_mgr_list := []\<rparr>\<rparr>,
                      proc_vsc_root := me_proc E\<rparr>
           in
           if \<not> me_proc E then (- EFAULT, M1, [])
           else if vsc_sym_init \<noteq> 0
           then (vsc_sym_init, M1\<lparr>proc_vsc_root := False\<rparr>, [Create Proc_root, Destroy Proc_root])
           else
             let (retval, c, calls) = vsc_ioctl_init (me_major E) (me_cls E) (me_dev E) (vsc_class M1);
                 M2 = M1\<lparr>vsc_class := c\<rparr>
             in
             if retval \<noteq> 0
             then (retval, M2\<lparr>proc_vsc_root := False\<rparr>, Create Proc_root # calls @ [Destroy Proc_root])
             else
               let (c', undo) = vsc_ioctl_exit c; M3 = M2\<lparr>scsi_buf_slab := me_slab E\<rparr> in
               if \<not> me_slab E
               then (retval, M3\<lparr>vsc_class := c', proc_vsc_root := False\<rparr>,
                     Create Proc_root # calls @ undo @ [Destroy Proc_root])
               else
                 let M4 = M3\<lparr>scsi_buf_pool := me_pool E\<rparr> in
                 if \<not> me_pool E
                 then (retval, M4\<lparr>vsc_class := c', proc_vsc_root := False\<rparr>,
                       Create Proc_root # calls @ [Create Slab, Destroy Slab] @ undo @ [Destroy Proc_root])
                 else (0, M4, Create Proc_root # calls @ [Create Slab, Create Pool])))"

definition vsc_exit :: "vsc_module \<Rightarrow> (vsc_module \<times> kcall list) option" where
  "vsc_exit M =
     do { s \<leftarrow> vsc_remove_all_host (m_sys M);
          let (c, undo) = vsc_ioctl_exit (vsc_class M);
          Some (M\<lparr>m_sys := s, vsc_class := c, scsi_buf_slab := False, scsi_buf_pool := False\<rparr>,
            (if scsi_buf_pool M then [Destroy Pool] else []) @
            (if scsi_buf_slab M then [Destroy Slab] else []) @ undo @
            (if proc_vsc_root M then [Destroy Proc_root] else [])) }"

subsection \<open>Parameters stay valid, the log level does not\<close>

text \<open>The setting of \<open>io_per_host\<close> and its shift agree, as the dispatch of commands needs.\<close>

definition io_setting_ok :: "vsc_world \<Rightarrow> bool" where
  "io_setting_ok w \<longleftrightarrow> io_per_host w = 0 \<or> io_per_host w = 2 ^ io_per_host_shift w \<and> io_per_host_shift w \<le> 2"

lemma seq_write_setting:
  assumes "vsc_seq_write stk p len um w = Some (r, w')" "io_setting_ok w"
  shows "io_setting_ok w'"
  using assms by (auto simp: vsc_seq_write_def io_setting_ok_def Let_def split_beta split: if_splits)

lemma init_setting:
  assumes "vsc_init E M = (0, M', calls)"
  shows "io_setting_ok (sys (m_sys M'))"
  using assms
  by (auto simp: vsc_init_def io_shift_def io_setting_ok_def Let_def split_beta split: if_splits option.splits)

lemma negative_log_level:
  "vsc_set_log_level (\<lambda>_. (0xFFFFFFFF, 10)) (Some val) lvl = (0, - 1)"
  by (simp add: vsc_set_log_level_def VSC_TYPE_COUNT_def)

subsection \<open>What is created is destroyed\<close>

text \<open>
  Running the calls from what exists: destroying something that does not exist is an error of the
  kernel's, \<open>None\<close>.
\<close>

fun run_kcalls :: "kcall list \<Rightarrow> kres set \<Rightarrow> kres set option" where
  "run_kcalls [] R = Some R"
| "run_kcalls (Create x # cs) R = run_kcalls cs (insert x R)"
| "run_kcalls (Destroy x # cs) R = (if x \<in> R then run_kcalls cs (R - {x}) else None)"

lemma run_kcalls_append:
  "run_kcalls (cs @ ds) R = Option.bind (run_kcalls cs R) (run_kcalls ds)"
  by (induction cs R rule: run_kcalls.induct) auto

text \<open>
  (C40) Loading: with a valid \<open>io_per_host\<close>, a failing \<open>proc_mkdir\<close> or \<open>device_create\<close> is reported and nothing
  remains. When \<open>register_chrdev\<close> or \<open>class_create\<close> fails the error is reported, but the code destroys
  a device that was never created. When the slab or the pool of request buffers cannot be created,
  everything is destroyed and yet \<open>vsc_init\<close> returns 0: the module stays loaded without a device, and
  unloading it destroys everything a second time. Otherwise it returns 0, all six objects
  exist, and unloading the module destroys each once.
\<close>

theorem module_load_unload:
  assumes valid: "io_shift (sys (m_sys M)) = Some shift" and run: "vsc_init E M = (r, M', calls)"
    and fresh: "vsc_class M = None" "\<not> scsi_buf_slab M" "\<not> scsi_buf_pool M"
    and errs: "\<And>e. me_cls E = Inl e \<or> me_dev E = Inl e \<Longrightarrow> e < 0"
  shows "if \<not> me_proc E then r = - EFAULT \<and> run_kcalls calls {} = Some {}
     else if me_major E < 0 \<or> isl (me_cls E) then r < 0 \<and> run_kcalls calls {} = None
     else if isl (me_dev E) then r < 0 \<and> run_kcalls calls {} = Some {}
     else if me_slab E \<and> me_pool E
     then r = 0 \<and> run_kcalls calls {} = Some UNIV \<and>
       (\<exists>M'' ex. vsc_exit M' = Some (M'', ex) \<and> run_kcalls ex UNIV = Some {})
     else r = 0 \<and> run_kcalls calls {} = Some {} \<and>
       (\<exists>M'' ex. vsc_exit M' = Some (M'', ex) \<and> run_kcalls ex {} = None)"
proof -
  note defs = Let_def vsc_init_def vsc_ioctl_init_def ioctl_unwind_def vsc_ioctl_exit_def IS_ERR_def vsc_sym_init_ok valid fresh
  have gone: "vsc_exit M' = Some (M'\<lparr>m_sys := m_sys M', vsc_class := None, scsi_buf_slab := False, scsi_buf_pool := False\<rparr>,
      (if scsi_buf_pool M' then [Destroy Pool] else []) @ (if scsi_buf_slab M' then [Destroy Slab] else []) @
      [Destroy Dev, Destroy Cls, Destroy Chrdev] @ (if proc_vsc_root M' then [Destroy Proc_root] else []))"
    if "g_host_mgr_list (sys (m_sys M')) = []"
    using that by (simp add: vsc_exit_def vsc_remove_all_host_def vsc_ioctl_exit_def)
  have univ: "UNIV = {Proc_root, Chrdev, Cls, Dev, Slab, Pool}"
    using kres.exhaust by auto
  show ?thesis
  proof (cases "me_cls E")
    case (Inl e)
    then show ?thesis using run errs [of e] by (cases "me_proc E"; cases "me_major E < 0") (auto simp: defs)
  next
    case cls: (Inr k)
    show ?thesis
    proof (cases "me_dev E")
      case (Inl e)
      then show ?thesis using run errs [of e] cls by (cases "me_proc E"; cases "me_major E < 0") (auto simp: defs)
    next
      case (Inr k')
      then show ?thesis using run cls gone univ
        by (cases "me_proc E"; cases "me_major E < 0"; cases "me_slab E"; cases "me_pool E") (auto simp: defs)
    qed
  qed
qed

definition example_module :: vsc_module where
  "example_module = \<lparr>m_sys = empty_sys, vsc_class = None, proc_vsc_root = False, scsi_buf_slab = False,
     scsi_buf_pool = False\<rparr>"

text \<open>Everything succeeds but the pool.\<close>

definition example_module_env :: module_env where
  "example_module_env = \<lparr>me_proc = True, me_major = 240, me_cls = Inr 1, me_dev = Inr 2, me_slab = True, me_pool = False\<rparr>"

theorem module_load_unload_witness:
  "\<exists>M' calls. vsc_init example_module_env example_module = (0, M', calls) \<and> run_kcalls calls {} = Some {}"
proof -
  obtain r M' calls where run: "vsc_init example_module_env example_module = (r, M', calls)" by (metis prod_cases3)
  have pre: "io_shift (sys (m_sys example_module)) = Some 2" "vsc_class example_module = None"
    "\<not> scsi_buf_slab example_module" "\<not> scsi_buf_pool example_module"
    "\<And>e. me_cls example_module_env = Inl e \<or> me_dev example_module_env = Inl e \<Longrightarrow> e < 0"
    by (simp_all add: example_module_def example_module_env_def io_shift_def empty_sys_def example_world_def)
  have env: "me_proc example_module_env" "\<not> me_major example_module_env < 0" "\<not> isl (me_cls example_module_env)"
    "\<not> isl (me_dev example_module_env)" "\<not> me_pool example_module_env"
    by (simp_all add: example_module_env_def)
  from module_load_unload [OF pre(1) run pre(2-5)] env run show ?thesis by simp
qed

end
