(* ===== verification/Vsc_Layout.thy ===== *)
theory Vsc_Layout
  imports Vsc_Ioctl
begin

text \<open>
  The structures of \<open>vsc.h\<close> as C lays them out, on the ABI of 64-bit processes and on that of
  32-bit processes, where an integer of 64 bits need only be aligned to 4. The driver reads the
  structures of both with the same code (\<open>vsc_dev_compat_ioctl\<close>), so every member must have one offset.
\<close>

subsection \<open>Layouts with another alignment of 64-bit integers\<close>

fun align_on :: "nat \<Rightarrow> ctype \<Rightarrow> nat" where
  "align_on a CU8 = 1"
| "align_on a CU32 = 4"
| "align_on a CU64 = a"
| "align_on a (CArr t n) = align_on a t"

fun struct_end_on :: "nat \<Rightarrow> ctype list \<Rightarrow> nat \<Rightarrow> nat" where
  "struct_end_on a [] off = off"
| "struct_end_on a (t # ts) off = struct_end_on a ts (round_up off (align_on a t) + c_size t)"

definition struct_align_on :: "nat \<Rightarrow> ctype list \<Rightarrow> nat" where
  "struct_align_on a ts = fold (\<lambda>t b. max (align_on a t) b) ts 1"

definition sizeof_on :: "nat \<Rightarrow> ctype list \<Rightarrow> nat" where
  "sizeof_on a ts = round_up (struct_end_on a ts 0) (struct_align_on a ts)"

definition offsetof_on :: "nat \<Rightarrow> ctype list \<Rightarrow> nat \<Rightarrow> nat" where
  "offsetof_on a ts k = round_up (struct_end_on a (take k ts) 0) (align_on a (ts ! k))"

lemma align_on_8: "align_on 8 t = c_align t"
  by (induction t) simp_all

lemma struct_end_on_8: "struct_end_on 8 ts off = struct_end ts off"
  by (induction ts arbitrary: off) (simp_all add: align_on_8)

lemma sizeof_on_8: "sizeof_on 8 ts = sizeof ts" and offsetof_on_8: "offsetof_on 8 ts k = offsetof ts k"
  by (simp_all add: sizeof_on_def sizeof_def offsetof_on_def offsetof_def struct_align_on_def struct_align_def
      align_on_8 struct_end_on_8)

subsection \<open>The remaining structures\<close>

definition vsc_event_abort_layout :: "ctype list" where
  "vsc_event_abort_layout = [CU32, CU32, CU32, CU32, CU32]"

definition vsc_ioctl_cmd_add_host_layout :: "ctype list" where
  "vsc_ioctl_cmd_add_host_layout = [CU32, CU32, CU32, CU32, CU32, CU32, CU32, CU32, CU32]"

definition vsc_ioctl_cmd_rmv_host_layout :: "ctype list" where
  "vsc_ioctl_cmd_rmv_host_layout = [CU32]"

definition vsc_ioctl_cmd_attatch_host_layout :: "ctype list" where
  "vsc_ioctl_cmd_attatch_host_layout = [CU32]"

definition vsc_ioctl_disk_layout :: "ctype list" where
  "vsc_ioctl_disk_layout = [CU32, CU32, CU32, CU32]"

definition vsc_ioctl_disk_stat_layout :: "ctype list" where
  "vsc_ioctl_disk_stat_layout = [CU32, CU32, CU32, CU32, CU32]"

definition vsc_ioctl_rq_timeout_layout :: "ctype list" where
  "vsc_ioctl_rq_timeout_layout = [CU32, CU32, CU32, CU32, CU32]"

definition vsc_ioctl_set_tg_abn_timeout_layout :: "ctype list" where
  "vsc_ioctl_set_tg_abn_timeout_layout = [CU32, CU32]"

definition vsc_ioctl_disk_vol_name_layout :: "ctype list" where
  "vsc_ioctl_disk_vol_name_layout = [CU32, CU32, CU32, CU32, CU32, CArr CU8 VSC_VOL_NAME_LEN, CArr CU8 0]"

text \<open>The volumes in \<open>vsc_ioctl_query_vol\<close> are written out one after the other.\<close>

definition vsc_ioctl_query_vol_layout :: "ctype list" where
  "vsc_ioctl_query_vol_layout =
     [CU32, CU32] @ concat (replicate VSC_MAX_VOL_PER_HOST vsc_ioctl_disk_vol_name_layout)"

text \<open>Every structure that crosses the border between the kernel and a process, with the size its codec uses.\<close>

definition vsc_structs :: "(ctype list \<times> nat) list" where
  "vsc_structs =
    [(vsc_scsi_msg_layout, 40), (vsc_scsi_data_msg_layout, 24), (vsc_scsi_data_layout, 20),
     (vsc_iovec_layout, 16), (vsc_scsi_rsp_msg_layout, 28), (vsc_scsi_event_layout, 28),
     (vsc_scsi_msg_data_layout, 8), (vsc_event_abort_layout, 20), (vsc_ioctl_cmd_add_host_layout, 36),
     (vsc_ioctl_cmd_rmv_host_layout, 4), (vsc_ioctl_cmd_attatch_host_layout, 4), (vsc_ioctl_disk_layout, 16),
     (vsc_ioctl_disk_stat_layout, 20), (vsc_ioctl_rq_timeout_layout, 20),
     (vsc_ioctl_set_tg_abn_timeout_layout, 8), (vsc_ioctl_disk_vol_name_layout, VOL_SIZE),
     (vsc_ioctl_query_vol_layout, QUERY_SIZE)]"

lemmas vsc_layout_defs =
  vsc_scsi_msg_layout_def vsc_scsi_data_msg_layout_def vsc_scsi_data_layout_def vsc_iovec_layout_def
  vsc_scsi_rsp_msg_layout_def vsc_scsi_event_layout_def vsc_scsi_msg_data_layout_def vsc_event_abort_layout_def
  vsc_ioctl_cmd_add_host_layout_def vsc_ioctl_cmd_rmv_host_layout_def vsc_ioctl_cmd_attatch_host_layout_def
  vsc_ioctl_disk_layout_def vsc_ioctl_disk_stat_layout_def vsc_ioctl_rq_timeout_layout_def
  vsc_ioctl_set_tg_abn_timeout_layout_def

subsection \<open>Structures without padding\<close>

text \<open>The size of the members alone, and when they can follow each other without a gap.\<close>

definition members_size :: "ctype list \<Rightarrow> nat" where
  "members_size ts = sum_list (map c_size ts)"

fun no_gap :: "nat \<Rightarrow> ctype list \<Rightarrow> nat \<Rightarrow> bool" where
  "no_gap a [] off \<longleftrightarrow> True"
| "no_gap a (t # ts) off \<longleftrightarrow> align_on a t dvd off \<and> no_gap a ts (off + c_size t)"

lemma round_up_dvd:
  assumes "0 < a" "a dvd n"
  shows "round_up n a = n"
proof -
  obtain k where k: "n = k * a" using assms(2) by (metis dvdE mult.commute)
  then have "n + a - 1 = (a - 1) + k * a" using assms(1) by simp
  moreover have "((a - 1) + k * a) div a = k" using assms(1) div_mult_self1 [of a "a - 1" k] by simp
  ultimately show ?thesis unfolding round_up_def using k by simp
qed

lemma align_on_pos: "0 < a \<Longrightarrow> 0 < align_on a t"
  by (induction t) simp_all

lemma struct_end_no_gap: "0 < a \<Longrightarrow> no_gap a ts off \<Longrightarrow> struct_end_on a ts off = off + members_size ts"
  by (induction ts arbitrary: off) (simp_all add: members_size_def round_up_dvd align_on_pos)

lemma no_gap_append: "no_gap a (ts @ us) off \<longleftrightarrow> no_gap a ts off \<and> no_gap a us (off + members_size ts)"
  by (induction ts arbitrary: off) (auto simp: members_size_def add.assoc)

lemma offsetof_no_gap:
  assumes "0 < a" "no_gap a ts 0" "k < length ts"
  shows "offsetof_on a ts k = members_size (take k ts)"
proof -
  have "no_gap a (take k ts @ ts ! k # drop (Suc k) ts) 0" using assms by (simp add: Cons_nth_drop_Suc)
  then have "no_gap a (take k ts) 0" "align_on a (ts ! k) dvd members_size (take k ts)"
    by (simp_all only: no_gap_append no_gap.simps add_0)
  then show ?thesis using assms(1) by (simp add: offsetof_on_def struct_end_no_gap round_up_dvd align_on_pos)
qed

lemma sizeof_no_gap:
  "0 < a \<Longrightarrow> no_gap a ts 0 \<Longrightarrow> 0 < struct_align_on a ts \<Longrightarrow> struct_align_on a ts dvd members_size ts \<Longrightarrow>
    sizeof_on a ts = members_size ts"
  by (simp add: sizeof_on_def struct_end_no_gap round_up_dvd)

text \<open>Structures of 32-bit integers and of arrays of bytes whose length is a multiple of 4.\<close>

lemma no_gap_words:
  "\<forall>t\<in>set ts. align_on a t \<in> {1, 4} \<and> 4 dvd c_size t \<Longrightarrow> 4 dvd off \<Longrightarrow> no_gap a ts off"
  by (induction ts arbitrary: off) auto

lemma fold_max_words:
  "\<forall>t\<in>set ts. align_on a t \<in> {1, 4} \<Longrightarrow> b \<in> {1, 4} \<Longrightarrow> fold (\<lambda>t b. max (align_on a t) b) ts b \<in> {1, 4 :: nat}"
proof (induction ts arbitrary: b)
  case (Cons t ts)
  have "max (align_on a t) b \<in> {1, 4}" using Cons.prems by (auto simp: max_def)
  then show ?case using Cons.IH [of "max (align_on a t) b"] Cons.prems(1) by simp
qed simp

lemma words_layout:
  assumes "\<forall>t\<in>set ts. align_on a t \<in> {1, 4} \<and> 4 dvd c_size t"
  shows "no_gap a ts 0" "struct_align_on a ts \<in> {1, 4}" "4 dvd members_size ts"
proof -
  show "no_gap a ts 0" using no_gap_words [OF assms] by simp
  show "struct_align_on a ts \<in> {1, 4}"
    unfolding struct_align_on_def using assms by (intro fold_max_words) auto
  show "4 dvd members_size ts" using assms by (induction ts) (simp_all add: members_size_def)
qed

lemma words_layout_size:
  assumes "0 < a" "\<forall>t\<in>set ts. align_on a t \<in> {1, 4} \<and> 4 dvd c_size t"
  shows "sizeof_on a ts = members_size ts"
  using words_layout [OF assms(2)] assms(1) by (intro sizeof_no_gap) auto

lemma vols_layout:
  "\<forall>t\<in>set vsc_ioctl_disk_vol_name_layout. align_on a t \<in> {1, 4} \<and> 4 dvd c_size t"
  "\<forall>t\<in>set vsc_ioctl_query_vol_layout. align_on a t \<in> {1, 4} \<and> 4 dvd c_size t"
  "members_size vsc_ioctl_disk_vol_name_layout = VOL_SIZE"
  "members_size vsc_ioctl_query_vol_layout = QUERY_SIZE"
proof -
  show v: "\<forall>t\<in>set vsc_ioctl_disk_vol_name_layout. align_on a t \<in> {1, 4} \<and> 4 dvd c_size t"
    by (simp add: vsc_ioctl_disk_vol_name_layout_def VSC_VOL_NAME_LEN_def)
  show "\<forall>t\<in>set vsc_ioctl_query_vol_layout. align_on a t \<in> {1, 4} \<and> 4 dvd c_size t"
    using v by (auto simp: vsc_ioctl_query_vol_layout_def)
  show s: "members_size vsc_ioctl_disk_vol_name_layout = VOL_SIZE"
    by (simp add: vsc_ioctl_disk_vol_name_layout_def VSC_VOL_NAME_LEN_def VOL_SIZE_def members_size_def)
  have "members_size (concat (replicate n vsc_ioctl_disk_vol_name_layout)) = n * VOL_SIZE" for n
    unfolding s [symmetric] by (induction n) (simp_all add: members_size_def)
  moreover have "members_size ([CU32, CU32] @ us) = 8 + members_size us" for us by (simp add: members_size_def)
  ultimately show "members_size vsc_ioctl_query_vol_layout = QUERY_SIZE"
    by (simp add: vsc_ioctl_query_vol_layout_def QUERY_SIZE_def)
qed

lemma structs_no_gap:
  assumes "(ts, n) \<in> set vsc_structs" "a = 4 \<or> a = 8"
  shows "no_gap a ts 0 \<and> sizeof_on a ts = n \<and> members_size ts = n"
proof -
  consider "ts = vsc_iovec_layout" "n = 16"
    | "ts = vsc_ioctl_disk_vol_name_layout" "n = VOL_SIZE" | "ts = vsc_ioctl_query_vol_layout" "n = QUERY_SIZE"
    | "\<forall>t\<in>set ts. align_on a t \<in> {1, 4} \<and> 4 dvd c_size t" "members_size ts = n"
    using assms(1) unfolding vsc_structs_def
    by (auto simp: vsc_layout_defs members_size_def)
  then show ?thesis
  proof cases
    case 1
    then show ?thesis using assms(2)
      by (auto simp: vsc_iovec_layout_def members_size_def sizeof_on_def struct_align_on_def round_up_def)
  next
    case 2
    then show ?thesis using words_layout(1) [OF vols_layout(1)] words_layout_size [OF _ vols_layout(1)] vols_layout(3)
        assms(2) by auto
  next
    case 3
    then show ?thesis using words_layout(1) [OF vols_layout(2)] words_layout_size [OF _ vols_layout(2)] vols_layout(4)
        assms(2) by auto
  next
    case 4
    then show ?thesis using words_layout(1) words_layout_size assms(2) by auto
  qed
qed

lemma rd32_enc_words: "k < length ws \<Longrightarrow> rd32 (enc_words ws) (4 * k) = Some (ws ! k)"
  using rd32_le_bytes [of "enc_words (take k ws)" "ws ! k" "enc_words (drop (Suc k) ws)"]
  by (simp add: enc_words_def flip: concat_append map_append)
     (metis append.assoc concat_append concat.simps(2) id_take_nth_drop list.map(2) map_append length_take min.absorb4 length_enc_words enc_words_def)

subsection \<open>The same bytes for both\<close>

lemma rd32_member:
  "\<forall>t\<in>set ts. align_on a t \<in> {1, 4} \<and> 4 dvd c_size t \<Longrightarrow> 0 < a \<Longrightarrow> k < length ts \<Longrightarrow>
     members_size (take k ts) = 4 * i \<Longrightarrow> i < length ws \<Longrightarrow>
     rd32 (enc_words ws) (offsetof_on a ts k) = Some (ws ! i)"
  using words_layout(1) offsetof_no_gap rd32_enc_words by metis



end
