(* ===== verification/Vsc_Report.thy ===== *)
theory Vsc_Report
  imports Vsc_Registry Vsc_Data
begin

text \<open>
  What the driver prints: the proc file of a host (\<open>vsc_hostinfo_proc_read\<close>), the dumps of queues and
  requests (\<open>vsc_debug_host\<close>, \<open>vsc_debug_cmd\<close>, \<open>vsc_dump_scsi_data\<close>, \<open>vsc_dump_scsi_sgl\<close>,
  \<open>vsc_dump_scsi_rsp\<close>) and the text of the module parameters (\<open>vsc_get_log_level\<close>,
  \<open>vsc_get_trace_switch\<close>). The text of a proc file or parameter is a string; a line of the kernel's log
  is its format and its arguments. The code without \<open>__VSC_LATENCY_DEBUG__\<close>.
\<close>

subsection \<open>Numbers as text\<close>

definition digit :: "nat \<Rightarrow> char" where
  "digit d = char_of (if d < 10 then 48 + d else 55 + d)"

text \<open>The digits of \<open>n\<close> in base \<open>b\<close>; for a base below 2 there is no such text.\<close>

function digits :: "nat \<Rightarrow> nat \<Rightarrow> string" where
  "digits b n = (if b < 2 \<or> n < b then [digit n] else digits b (n div b) @ [digit (n mod b)])"
  by pat_completeness auto
termination
  by (relation "measure snd") auto

declare digits.simps [simp del]

text \<open>The conversions \<open>%u\<close>, \<open>%i\<close> and \<open>%X\<close>.\<close>

definition fmt_u :: "nat \<Rightarrow> string" where "fmt_u n = digits 10 n"
definition fmt_i :: "int \<Rightarrow> string" where "fmt_i i = (if i < 0 then CHR ''-'' # fmt_u (nat (- i)) else fmt_u (nat i))"
definition fmt_X :: "nat \<Rightarrow> string" where "fmt_X n = digits 16 n"

text \<open>Reading a decimal number back.\<close>

definition read_u :: "string \<Rightarrow> nat" where
  "read_u s = foldl (\<lambda>v c. 10 * v + (of_char c - 48)) 0 s"

lemma read_fmt_u: "read_u (fmt_u n) = n"
  unfolding fmt_u_def
proof (induction "10 :: nat" n rule: digits.induct)
  case (1 n)
  show ?case
  proof (cases "n < 10")
    case True
    then show ?thesis by (subst digits.simps) (simp add: read_u_def digit_def)
  next
    case False
    then have "digits 10 n = digits 10 (n div 10) @ [digit (n mod 10)]" by (subst digits.simps) simp
    moreover have "of_char (digit (n mod 10)) = 48 + n mod 10" by (simp add: digit_def)
    ultimately show ?thesis using 1 False by (simp add: read_u_def)
  qed
qed

lemma length_digits: "2 \<le> b \<Longrightarrow> n < b ^ k \<Longrightarrow> 0 < k \<Longrightarrow> length (digits b n) \<le> k"
proof (induction b n arbitrary: k rule: digits.induct)
  case (1 b n)
  show ?case
  proof (cases "n < b")
    case True
    then show ?thesis using 1(4) by (subst digits.simps) simp
  next
    case False
    obtain j where "k = Suc j" using 1(4) by (cases k) auto
    with 1(3) False have k: "k = Suc j" "0 < j" by (auto intro: gr0I)
    have "n div b < b ^ j" using 1(2,3) k by (simp add: less_mult_imp_div_less mult.commute)
    then have "length (digits b (n div b)) \<le> j" using 1(1) False 1(2) k by simp
    then show ?thesis using False 1(2) k by (subst digits.simps) simp
  qed
qed

subsection \<open>The proc file of a host\<close>

definition tab :: char where "tab = CHR 0x09"
definition newline :: char where "newline = CHR 0x0A"

text \<open>One \<open>seq_printf\<close> of a label and a value; the text is the lines one after the other.\<close>

type_synonym report = "(string \<times> string) list"

definition report_text :: "report \<Rightarrow> string" where
  "report_text rows = concat (map (\<lambda>(label, v). label @ v @ [newline]) rows)"

text \<open>\<open>shost_for_each_device\<close> with a counter.\<close>

fun count_devices :: "scsi_api \<Rightarrow> nat option \<Rightarrow> nat list \<Rightarrow> midlayer \<Rightarrow> nat \<times> midlayer" where
  "count_devices api prev [] m = (0, case prev of None \<Rightarrow> m | Some p \<Rightarrow> scsi_device_put api p m)"
| "count_devices api prev (d # ds) m =
     (let (r, m1) = scsi_device_get api d m in
      if r \<noteq> 0 then count_devices api prev ds m1
      else let m2 = (case prev of None \<Rightarrow> m1 | Some p \<Rightarrow> scsi_device_put api p m1);
               (n, m3) = count_devices api (Some d) ds m2
           in (Suc n, m3))"

definition host_report :: "vsc_ctrl_info \<Rightarrow> Scsi_Host \<Rightarrow> nat \<Rightarrow> report" where
  "host_report h sh sdev_count =
    [(''Host No.:'' @ [tab], fmt_u (unat (vsc_ctrl_get_host_no h))),
     (''SCSI_Host ID.:'' @ [tab], fmt_u (unat (host_no sh))),
     (''Max channel:'' @ [tab], fmt_u (unat (max_channel sh))),
     (''Max id:'' @ [tab, tab], fmt_u (unat (max_id sh))),
     (''Max lun:'' @ [tab], fmt_u (unat (max_lun sh))),
     (''Max sg count: '' @ [tab], fmt_u (unat (sg_tablesize sh))),
     (''Max cmd count:'' @ [tab], fmt_u (nr_cmds h)),
     (''Cmd per lun:'' @ [tab], fmt_u (unat (cmd_per_lun sh))),
     (''Host status:'' @ [tab], if suspend h \<noteq> 0 then ''Suspend'' else ''Running''),
     (''Host blocked:'' @ [tab], if host_self_blocked sh then ''Blocked'' else ''Unblock''),
     (''Device count:'' @ [tab], fmt_u sdev_count),
     (''Cmd sn: '' @ [tab], fmt_u (unat (ucast (h_cmd_sn h AND 0xFFFFFFFF) :: u32)) @ '' (Overflow count: '' @
        fmt_u (unat (ucast (drop_bit 32 (h_cmd_sn h)) :: u32)) @ '')''),
     (''Event sn:'' @ [tab], fmt_u (unat (h_event_sn h))),
     (''Attatched status:'' @ [tab], if h_file h \<noteq> None then ''Attached'' else ''Detached''),
     (''Abort cmd count:'' @ [tab], fmt_u (unat (abort_cmd_count (h_stat h)))),
     (''Reset device count:'' @ [tab], fmt_u (unat (reset_dev_count (h_stat h)))),
     (''Vsc read fail count:'' @ [tab], fmt_u (unat (read_fail_count (h_stat h)))),
     (''Vsc write fail count:'' @ [tab], fmt_u (unat (write_fail_count (h_stat h)))),
     (''Host Running Cmd    :'' @ [tab], fmt_u (unat (io_running h))),
     (newline # ''Get Command Times :'' @ [tab], fmt_u (unat (get_cmd_times h))),
     (''Get Command Total :'' @ [tab], fmt_u (unat (get_cmd_total h))),
     (''Put Response Times:'' @ [tab], fmt_u (unat (put_rsp_times h))),
     (''Put Response Total:'' @ [tab], fmt_u (unat (put_rsp_total h))),
     (newline # ''Req Queue Count   :'' @ [tab], fmt_u (list_size (reqQ h))),
     (''Cmp Queue Count   :'' @ [tab], fmt_u (list_size (cmpQ h))),
     (''Rsp Queue Count   :'' @ [tab], fmt_u (list_size (rspQ h)))]"

text \<open>\<open>private\<close> of the file is the host's block. A host without a \<open>Scsi_Host\<close> would be a dereference of \<open>NULL\<close>.\<close>

definition vsc_hostinfo_proc_read ::
  "scsi_api \<Rightarrow> nat option \<Rightarrow> vsc_world \<Rightarrow> (int \<times> report \<times> vsc_world) option" where
  "vsc_hostinfo_proc_read api hp w =
     (case hp of
        None \<Rightarrow> Some (- EFAULT, [], w)
      | Some a \<Rightarrow>
          do { shp \<leftarrow> scsi_host (hosts w a);
               let (sdev_count, m1) = count_devices api None (shost_devices (shosts (mid w) shp)) (mid w);
               Some (0, host_report (hosts w a) (shosts m1 shp) sdev_count, w\<lparr>mid := m1\<rparr>) })"

subsection \<open>Dumps of the queues\<close>

datatype log_line = Log string "int list"

text \<open>\<open>%d\<close> reads a 32-bit argument signed.\<close>

definition log_cmd :: "vsc_ctrl_info \<Rightarrow> nat \<Rightarrow> log_line" where
  "log_cmd h i = Log ''host = %u, cmd_sn = %d, tag = %d cmd_stat = %d''
     [uint (vsc_ctrl_get_host_no h), sint (cmd_sn (cmd_of h i)), sint (cmd_index (cmd_of h i)),
      int (cmd_stat_code (cstat (cmd_of h i)))]"

definition vsc_debug_host :: "vsc_ctrl_info option \<Rightarrow> log_line list" where
  "vsc_debug_host hp =
     (case hp of
        None \<Rightarrow> []
      | Some h \<Rightarrow>
          Log ''*************************Req Queue*************************'' [] # map (log_cmd h) (reqQ h) @
          Log ''*************************Cmp Queue*************************'' [] # map (log_cmd h) (cmpQ h) @
          Log ''*************************Rsp Queue*************************'' [] # map (log_cmd h) (rspQ h))"

definition vsc_debug_cmd :: "u32 \<Rightarrow> vsc_world \<Rightarrow> log_line list" where
  "vsc_debug_cmd hno w =
     (let vid = vsc_get_vbs_id_by_host_id hno; host_index = vsc_get_host_index_in_vbs hno in
      if of_nat MAX_HOST_NR_PER_VBS \<le> host_index then []
      else case find (\<lambda>mp. vbs_id (mgrs w mp) = vid \<and> host_count (mgrs w mp) \<le> of_nat MAX_HOST_NR_PER_VBS)
                  (g_host_mgr_list w) of
             None \<Rightarrow> []
           | Some mp \<Rightarrow>
               concat (map (\<lambda>i. vsc_debug_host (map_option (hosts w) (host_list (mgrs w mp) ! i)))
                 [0..<unat (host_count (mgrs w mp))]))"

subsection \<open>Dumps of requests\<close>

text \<open>\<open>off\<close> is the offset of the request in its buffer.\<close>

definition dump_iovec_limit :: nat where
  "dump_iovec_limit =
     (SCSI_MAX_DATA_BUF_SIZE - sizeof vsc_scsi_msg_data_layout - sizeof vsc_scsi_data_layout) div sizeof vsc_iovec_layout"

fun dump_iovecs :: "byte list \<Rightarrow> nat \<Rightarrow> u32 \<Rightarrow> nat list \<Rightarrow> log_line list option" where
  "dump_iovecs buf vec nr [] = Some []"
| "dump_iovecs buf vec nr (i # is) =
     do { iovec \<leftarrow> dec_iovec buf (vec + 16 * i);
          rest \<leftarrow> dump_iovecs buf vec nr is;
          Some (Log ''%d/%d iovec_base=0x%llx iovec_len=%d''
            [int i, sint nr, uint (iov_base iovec), sint (iov_len iovec)] # rest) }"

definition vsc_dump_scsi_data :: "byte list \<Rightarrow> nat \<Rightarrow> log_line list option" where
  "vsc_dump_scsi_data buf off =
     do { d \<leftarrow> dec_scsi_data buf off;
          let head = Log ''scsi_data={%d %d %d %d %d}'' [sint (sd_data_type d), sint (sd_data_len d),
            sint (sd_nr_iovec d), sint (sd_total_iovec_len d), sint (sd_offset d)];
          if dump_iovec_limit < unat (sd_nr_iovec d) then Some [head]
          else map_option (Cons head) (dump_iovecs buf (off + 20) (sd_nr_iovec d) [0..<unat (sd_nr_iovec d)]) }"

text \<open>\<open>scsi_print_command\<close> is the kernel's; the address \<open>%p\<close> of an entry is not in the model.\<close>

definition vsc_dump_scsi_sgl :: "scsi_cmnd option \<Rightarrow> log_line list" where
  "vsc_dump_scsi_sgl sc =
     (case sc of
        None \<Rightarrow> []
      | Some s \<Rightarrow> map (\<lambda>j. Log ''%d/%d addr=0x%p len=%d''
          [int j, int (length (sc_sglist s)), int (length (sc_sglist s ! j))]) [0..<length (sc_sglist s)])"

definition vsc_dump_scsi_rsp :: "vsc_scsi_rsp_msg option \<Rightarrow> log_line list" where
  "vsc_dump_scsi_rsp rsp_msg =
     (case rsp_msg of
        None \<Rightarrow> []
      | Some r \<Rightarrow> [Log ''rsp_msg={%d %d %d %d %d %d %d}'' (map sint [rsp_type r, rsp_reserved0 r, rsp_reserved1 r,
          rsp_cmd_sn r, rsp_tag r, rsp_command_status r, rsp_scsi_status r])])"

subsection \<open>Module parameters\<close>

definition vsc_get_log_level :: "int \<Rightarrow> string" where
  "vsc_get_log_level lvl = fmt_i lvl"

definition VSC_TRACE_IOCTL_EVENT :: nat where "VSC_TRACE_IOCTL_EVENT = 1"
definition VSC_TRACE_REQ_SCSI_CMD :: nat where "VSC_TRACE_REQ_SCSI_CMD = 2"
definition VSC_TRACE_RSP_SCSI_CMD :: nat where "VSC_TRACE_RSP_SCSI_CMD = 4"
definition VSC_TRACE_REQ_EVENT :: nat where "VSC_TRACE_REQ_EVENT = 8"
definition VSC_TRACE_RSP_EVENT :: nat where "VSC_TRACE_RSP_EVENT = 16"

text \<open>Each call of \<open>snprintf\<close> is given the size of a whole page: it writes at most that much from where it stands.\<close>

definition snprintf_page :: "string \<Rightarrow> string" where
  "snprintf_page s = take (PAGE_SIZE - 1) s"

definition vsc_get_trace_switch :: "u64 \<Rightarrow> string" where
  "vsc_get_trace_switch sw =
     concat (map snprintf_page
      [''Current value: 0x'' @ fmt_X (unat sw) @ [newline],
       ''Instrunction for switch bit:'' @ [newline],
       fmt_X VSC_TRACE_IOCTL_EVENT @ '':'' @ [tab] @ ''vsc file event.'' @ [newline],
       fmt_X VSC_TRACE_REQ_SCSI_CMD @ '':'' @ [tab] @ ''Request scsi cmd.'' @ [newline],
       fmt_X VSC_TRACE_RSP_SCSI_CMD @ '':'' @ [tab] @ ''Response scsi cmd.'' @ [newline],
       fmt_X VSC_TRACE_REQ_EVENT @ '':'' @ [tab] @ ''Request event.'' @ [newline],
       fmt_X VSC_TRACE_RSP_EVENT @ '':'' @ [tab] @ ''Response event.'' @ [newline]])"

lemma trace_switch_fits: "length (vsc_get_trace_switch sw) < PAGE_SIZE"
proof -
  have "unat sw < 2 ^ 64" by (rule unsigned_less [THEN order_less_le_trans]) simp
  then have x: "length (fmt_X (unat sw)) \<le> 16" unfolding fmt_X_def by (intro length_digits) simp_all
  have y: "length (fmt_X VSC_TRACE_IOCTL_EVENT) \<le> 2" "length (fmt_X VSC_TRACE_REQ_SCSI_CMD) \<le> 2"
    "length (fmt_X VSC_TRACE_RSP_SCSI_CMD) \<le> 2" "length (fmt_X VSC_TRACE_REQ_EVENT) \<le> 2"
    "length (fmt_X VSC_TRACE_RSP_EVENT) \<le> 2"
    unfolding fmt_X_def
    by (rule length_digits; simp add: VSC_TRACE_IOCTL_EVENT_def VSC_TRACE_REQ_SCSI_CMD_def VSC_TRACE_RSP_SCSI_CMD_def
        VSC_TRACE_REQ_EVENT_def VSC_TRACE_RSP_EVENT_def)+
  have len: "length (snprintf_page s) \<le> length s" for s by (simp add: snprintf_page_def)
  show ?thesis
    unfolding vsc_get_trace_switch_def PAGE_SIZE_def
    apply (simp only: length_concat list.map sum_list.Cons sum_list.Nil)
    apply (rule order_le_less_trans [OF add_mono [OF len add_mono [OF len add_mono [OF len add_mono [OF len
      add_mono [OF len add_mono [OF len add_mono [OF len order_refl]]]]]]]])
    using x y by simp
qed

subsection \<open>The report agrees with the host\<close>

text \<open>Reading a value of the report back.\<close>

definition report_value :: "report \<Rightarrow> string \<Rightarrow> nat option" where
  "report_value rows label = map_option read_u (map_of rows (label @ [tab]))"

definition refs_pos :: "nat list \<Rightarrow> midlayer \<Rightarrow> bool" where
  "refs_pos ds m \<longleftrightarrow> (\<forall>d\<in>set ds. 0 < sdev_refs (sdevs m d))"

lemma put_get_id: "upd_sdev d (\<lambda>s. s\<lparr>sdev_refs := sdev_refs s - 1\<rparr>) (upd_sdev d (\<lambda>s. s\<lparr>sdev_refs := sdev_refs s + 1\<rparr>) m) = m"
  by (simp add: upd_sdev_def)

text \<open>Counting takes and drops references, and leaves the middle layer as it was.\<close>

lemma upd_sdev_commute:
  "d \<noteq> e \<Longrightarrow> upd_sdev d f (upd_sdev e g m) = upd_sdev e g (upd_sdev d f m)"
  by (simp add: upd_sdev_def fun_upd_twist)

lemma count_devices_frame:
  assumes laws: "device_laws api"
  shows "distinct ds \<Longrightarrow> refs_pos ds m \<Longrightarrow> count_devices api None ds m = (n, m') \<Longrightarrow> m' = m \<and> n \<le> length ds"
    and "distinct (p # ds) \<Longrightarrow> refs_pos (p # ds) m \<Longrightarrow>
      count_devices api (Some p) ds (upd_sdev p (\<lambda>s. s\<lparr>sdev_refs := sdev_refs s + 1\<rparr>) m) = (n, m') \<Longrightarrow>
      m' = m \<and> n \<le> length ds"
proof (induction ds arbitrary: m n m' p)
  case Nil
  {
    case 1
    then show ?case by simp
  next
    case 2
    then have "1 < sdev_refs (sdevs (upd_sdev p (\<lambda>s. s\<lparr>sdev_refs := sdev_refs s + 1\<rparr>) m) p)"
      by (simp add: refs_pos_def upd_sdev_def)
    then show ?case using 2 laws by (auto simp: device_laws_def put_get_id)
  }
next
  case (Cons d ds)
  {
    case 1
    then show ?case
      using Cons.IH(1) [of m n m'] Cons.IH(2) [of d m _ m'] laws
      by (auto simp: device_laws_def refs_pos_def Let_def split_beta split: if_splits)
        (metis le_SucI prod.collapse Suc_le_mono)+
  next
    case 2
    let ?up = "\<lambda>d. upd_sdev d (\<lambda>s. s\<lparr>sdev_refs := sdev_refs s + 1\<rparr>)"
    show ?case
    proof (cases "fst (scsi_device_get api d (?up p m)) = 0")
      case False
      then have "snd (scsi_device_get api d (?up p m)) = ?up p m" using laws by (auto simp: device_laws_def)
      then have "count_devices api (Some p) ds (?up p m) = (n, m')" using 2(3) False by (simp add: split_beta)
      then show ?thesis using Cons.IH(2) [of p m n m'] 2 by (auto simp: refs_pos_def)
    next
      case True
      then have get: "snd (scsi_device_get api d (?up p m)) = ?up d (?up p m)" using laws by (auto simp: device_laws_def)
      have ne: "d \<noteq> p" using 2(1) by auto
      then have c: "?up d (?up p m) = ?up p (?up d m)" by (rule upd_sdev_commute)
      have "1 < sdev_refs (sdevs (?up p (?up d m)) p)" using 2(2) ne by (simp add: refs_pos_def upd_sdev_def)
      then have put: "scsi_device_put api p (?up p (?up d m)) = ?up d m"
        using laws by (simp add: device_laws_def put_get_id)
      obtain k where k: "count_devices api (Some d) ds (?up d m) = (k, m')" "n = Suc k"
        using 2(3) True get c put by (cases "count_devices api (Some d) ds (?up d m)") (auto simp: split_beta Let_def)
      then show ?thesis using Cons.IH(2) [of d m k m'] 2 by (auto simp: refs_pos_def)
    qed
  }
qed

lemma running_count: "host_inv H h \<Longrightarrow> nr_cmds h < 2 ^ 32 \<Longrightarrow>
   unat (io_running h) = length (reqQ h) + length (cmpQ h) + length (rspQ h) \<and>
   length (reqQ h) + length (cmpQ h) + length (rspQ h) \<le> nr_cmds h"
proof -
  assume inv: "host_inv H h" and nr: "nr_cmds h < 2 ^ 32"
  have "length (allQ h) = card (set (allQ h))" using inv by (simp add: host_inv_defs distinct_card)
  also have "\<dots> \<le> nr_cmds h" using inv by (metis host_inv_def queues_ok_def card_lessThan card_mono finite_lessThan)
  finally have le: "length (allQ h) \<le> nr_cmds h" .
  have "io_running h = of_nat (length (allQ h))" using inv by (simp add: host_inv_def counters_ok_def)
  then have "unat (io_running h) = length (allQ h)" using le nr by (simp add: unat_of_nat take_bit_nat_eq_self)
  then show ?thesis using le by (simp add: allQ_def)
qed

text \<open>The two halves of the serial number.\<close>

lemma cmd_sn_halves:
  "unat (ucast (x AND 0xFFFFFFFF) :: u32) = unat (x :: u64) mod 2 ^ 32"
  "unat (ucast (drop_bit 32 x) :: u32) = unat x div 2 ^ 32"
proof -
  have "(0xFFFFFFFF :: u64) = mask 32" by (simp add: mask_eq_exp_minus_1)
  then have "x AND 0xFFFFFFFF = take_bit 32 x" by (simp add: take_bit_eq_mask)
  then have "unat (x AND 0xFFFFFFFF) = take_bit 32 (unat x)" by (simp only: unsigned_take_bit_eq)
  then have "unat (x AND 0xFFFFFFFF) = unat x mod 2 ^ 32" by (simp only: take_bit_eq_mod)
  then show "unat (ucast (x AND 0xFFFFFFFF) :: u32) = unat x mod 2 ^ 32"
    by (simp only: unsigned_ucast_eq take_bit_eq_mod) simp
  have "unat x < 2 ^ 64" by (rule unsigned_less [THEN order_less_le_trans]) simp
  then have "unat x div 2 ^ 32 < 2 ^ 32" by simp
  moreover have "unat (drop_bit 32 x) = drop_bit 32 (unat x)" by (rule unat_drop_bit_eq)
  then have "unat (drop_bit 32 x) = unat x div 2 ^ 32" by (simp only: drop_bit_eq_div)
  ultimately show "unat (ucast (drop_bit 32 x) :: u32) = unat x div 2 ^ 32"
    by (simp only: unsigned_ucast_eq take_bit_eq_mod) simp
qed



subsection \<open>A dump stays inside the buffer\<close>

lemma dump_iovecs_ok: "\<forall>i\<in>set is. vec + 16 * i + 16 \<le> length buf \<Longrightarrow> dump_iovecs buf vec nr is \<noteq> None"
proof (induction "is")
  case (Cons i "is")
  have "dec_iovec buf (vec + 16 * i) \<noteq> None" using Cons.prems iov.dec_None [of buf "vec + 16 * i"] by auto
  then show ?case using Cons by auto
qed simp

lemma dump_iovecs_length: "dump_iovecs buf vec nr is = Some out \<Longrightarrow> length out = length is"
  by (induction "is" arbitrary: out) (auto simp: bind_eq_Some_conv)

text \<open>
  Dumping a request: wherever one of the four requests of a batch stands in the guarded buffer, and
  whatever it says, the dump reads inside the buffer and prints a line per entry, or one line
  when the number of entries is above the limit. The limit is computed with the size of another header
  than the one in front of the request, so the entries printed can reach into the next request.
\<close>

lemma dump_stays_inside:
  assumes "length buf = MAX_SCSI_DATA_AND_RSP_LENGTH + 8" "k < MAX_BATCH_SCSI_CMD_COUNT"
    and "off = 4 + k * SCSI_MAX_DATA_BUF_SIZE + sizeof vsc_scsi_data_msg_layout"
  shows "\<exists>d out. dec_scsi_data buf off = Some d \<and> vsc_dump_scsi_data buf off = Some out \<and>
     length out = (if unat (sd_nr_iovec d) \<le> dump_iovec_limit then 1 + unat (sd_nr_iovec d) else 1) \<and>
     SCSI_MAX_DATA_BUF_SIZE < sizeof vsc_scsi_data_msg_layout + sizeof vsc_scsi_data_layout +
       dump_iovec_limit * sizeof vsc_iovec_layout"
proof -
  have off: "off = 28 + 256 * k" and len: "length buf = 1144" and k: "k \<le> 3"
    using assms by (simp_all add: MAX_BATCH_SCSI_CMD_COUNT_def SCSI_MAX_DATA_BUF_SIZE_def)
  have lim: "dump_iovec_limit = 14" by (simp add: dump_iovec_limit_def SCSI_MAX_DATA_BUF_SIZE_def)
  have "rd_words buf off 5 \<noteq> None" using off len k by (simp add: rd_words_None)
  then obtain d where d: "dec_scsi_data buf off = Some d" by (auto simp: dec_scsi_data_def)
  have out: "\<exists>out. vsc_dump_scsi_data buf off = Some out \<and>
      length out = (if unat (sd_nr_iovec d) \<le> dump_iovec_limit then 1 + unat (sd_nr_iovec d) else 1)"
  proof (cases "unat (sd_nr_iovec d) \<le> dump_iovec_limit")
    case True
    let ?is = "[0..<unat (sd_nr_iovec d)]"
    have "\<forall>i\<in>set ?is. off + 20 + 16 * i + 16 \<le> length buf" using True off len k lim by auto
    then obtain r where r: "dump_iovecs buf (off + 20) (sd_nr_iovec d) ?is = Some r"
      using dump_iovecs_ok by blast
    then have "length r = unat (sd_nr_iovec d)" using dump_iovecs_length [OF r] by simp
    then show ?thesis using True r d by (simp add: vsc_dump_scsi_data_def)
  next
    case False
    then show ?thesis using d by (simp add: vsc_dump_scsi_data_def)
  qed
  show ?thesis using d out lim by (auto simp: SCSI_MAX_DATA_BUF_SIZE_def)
qed

lemma dump_stays_inside_witness:
  "\<exists>d out. dec_scsi_data (replicate 1144 0) 796 = Some d \<and> vsc_dump_scsi_data (replicate 1144 0) 796 = Some out"
  using dump_stays_inside [of "replicate 1144 0" 3 796]
  by (simp add: MAX_BATCH_SCSI_CMD_COUNT_def SCSI_MAX_DATA_BUF_SIZE_def) blast

end
