(* ===== verification/Vsc_Mount.thy ===== *)
theory Vsc_Mount
  imports Vsc_State
begin

text \<open>
  The check whether a device is mounted (\<open>vsc_find_dev_in_mnt_info\<close>, \<open>vsc_check_if_dev_mounted\<close>): it reads
  \<open>/proc/self/mounts\<close> in pieces, puts the lines together in a buffer of one page, and looks at the first
  word of each. The C library functions the code uses are written out; the file is the sequence of what
  the reads return.
\<close>

subsection \<open>Strings\<close>

text \<open>A C string ends before its first zero byte.\<close>

definition cstr :: "byte list \<Rightarrow> byte list" where
  "cstr s = takeWhile (\<lambda>b. b \<noteq> 0) s"

text \<open>The kernel's \<open>isspace\<close>.\<close>

definition isspace :: "byte \<Rightarrow> bool" where
  "isspace b \<longleftrightarrow> b = 0x20 \<or> 9 \<le> b \<and> b \<le> 13 \<or> b = 0xA0"

text \<open>\<open>sscanf\<close> with \<open>n\<close> conversions \<open>%s\<close>: the words it stores.\<close>

fun sscanf_s :: "nat \<Rightarrow> byte list \<Rightarrow> byte list list" where
  "sscanf_s 0 s = []"
| "sscanf_s (Suc n) s =
     (let t = dropWhile isspace s in
      if t = [] then []
      else takeWhile (\<lambda>b. \<not> isspace b) t # sscanf_s n (dropWhile (\<lambda>b. \<not> isspace b) t))"

text \<open>\<open>strncmp(a, b, n) == 0\<close>.\<close>

definition strncmp_eq :: "byte list \<Rightarrow> byte list \<Rightarrow> nat \<Rightarrow> bool" where
  "strncmp_eq a b n \<longleftrightarrow> take n (cstr a) = take n (cstr b)"

definition NAME_MAX :: nat where "NAME_MAX = 255"

subsection \<open>One line\<close>

text \<open>
  \<open>kmalloc k\<close> tells whether the \<open>k\<close>-th allocation succeeds; the functions pass on the number of
  the next one. A word that does not fit its buffer with the zero behind it is written outside: \<open>None\<close>.
\<close>

definition vsc_find_dev_in_mnt_info ::
  "(nat \<Rightarrow> bool) \<Rightarrow> nat \<Rightarrow> byte list option \<Rightarrow> byte list option \<Rightarrow> (int \<times> nat) option" where
  "vsc_find_dev_in_mnt_info kmalloc k line name =
     (case (line, name) of
        (Some line, Some name) \<Rightarrow>
          if \<not> kmalloc k then Some (- ENOMEM, k + 1)
          else if \<not> kmalloc (k + 1) then Some (- ENOMEM, k + 2)
          else
            (let ws = sscanf_s 2 (cstr line) in
             if (0 < length ws \<and> NAME_MAX \<le> length (ws ! 0)) \<or> (1 < length ws \<and> PAGE_SIZE \<le> length (ws ! 1)) then None
             else if length ws \<noteq> 2 then Some (- ENOENT, k + 2)
             else if \<not> strncmp_eq (ws ! 0) name NAME_MAX then Some (- ENOENT, k + 2)
             else Some (0, k + 2))
      | _ \<Rightarrow> Some (- EINVAL, k))"

subsection \<open>The file\<close>

text \<open>The variables of the reading loop; \<open>ms_next\<close> is the number of the next allocation.\<close>

record mnt_scan =
  ms_line :: "byte list"
  ms_linelen :: nat
  ms_ret :: int
  ms_found :: bool
  ms_next :: nat

text \<open>The inner loop, over the bytes of one piece that are left.\<close>

fun mnt_chunk :: "(nat \<Rightarrow> bool) \<Rightarrow> byte list \<Rightarrow> byte list \<Rightarrow> mnt_scan \<Rightarrow> mnt_scan option" where
  "mnt_chunk kmalloc name [] s = Some s"
| "mnt_chunk kmalloc name (b # bs) s =
     (if PAGE_SIZE - 1 \<le> ms_linelen s then Some (s\<lparr>ms_linelen := 0\<rparr>)
      else
        let l = (ms_line s)[ms_linelen s := b] in
        if b = 10 then
          let l' = l[ms_linelen s + 1 := 0] in
          do { (ret, k) \<leftarrow> vsc_find_dev_in_mnt_info kmalloc (ms_next s) (Some l') (Some name);
               let s' = s\<lparr>ms_line := l', ms_linelen := 0, ms_ret := ret, ms_next := k\<rparr>;
               if ret = 0 then Some (s'\<lparr>ms_found := True\<rparr>) else mnt_chunk kmalloc name bs s' }
        else mnt_chunk kmalloc name bs (s\<lparr>ms_line := l, ms_linelen := ms_linelen s + 1\<rparr>))"

text \<open>
  The outer loop. A read returns an error or bytes, no more than it was asked for; behind the last
  element of the list is the end of the file.
\<close>

fun mnt_reads :: "(nat \<Rightarrow> bool) \<Rightarrow> byte list \<Rightarrow> (int + byte list) list \<Rightarrow> mnt_scan \<Rightarrow> mnt_scan option" where
  "mnt_reads kmalloc name [] s = Some s"
| "mnt_reads kmalloc name (Inl e # rs) s = Some s"
| "mnt_reads kmalloc name (Inr buff # rs) s =
     (if buff = [] then Some s
      else if PAGE_SIZE - 1 < length buff then None
      else do { s' \<leftarrow> mnt_chunk kmalloc name buff s;
                if ms_found s' then Some s' else mnt_reads kmalloc name rs s' })"

text \<open>
  What the kernel answers: allocations, the result of \<open>filp_open\<close> (an error, or whether the file is
  regular and has a read operation), the reads. \<open>mt_page\<close> is what the buffer for the line holds at first.
\<close>

record mnt_env =
  mt_kmalloc :: "nat \<Rightarrow> bool"
  mt_open :: "int + bool \<times> bool"
  mt_reads :: "(int + byte list) list"
  mt_page :: "byte list"

definition vsc_check_if_dev_mounted :: "mnt_env \<Rightarrow> byte list option \<Rightarrow> int option" where
  "vsc_check_if_dev_mounted E name =
     (case name of
        None \<Rightarrow> Some (- EINVAL)
      | Some name \<Rightarrow>
          if \<not> mt_kmalloc E 0 then Some (- ENOMEM)
          else if \<not> mt_kmalloc E 1 then Some (- ENOMEM)
          else
            (case mt_open E of
               Inl e \<Rightarrow> Some (- EACCES)
             | Inr (isreg, has_read) \<Rightarrow>
                 if \<not> isreg then Some (- EACCES)
                 else if \<not> has_read then Some (- EIO)
                 else map_option ms_ret (mnt_reads (mt_kmalloc E) name (mt_reads E)
                        \<lparr>ms_line = mt_page E, ms_linelen = 0, ms_ret = - ENOENT, ms_found = False, ms_next = 2\<rparr>)))"

subsection \<open>What a line says\<close>

text \<open>
  A line names a device as mounted: blanks, the name, blanks, and a second word.
\<close>

definition mount_entry :: "byte list \<Rightarrow> byte list \<Rightarrow> bool" where
  "mount_entry name l \<longleftrightarrow>
     (\<exists>a b c. l = a @ name @ b @ c \<and> list_all isspace a \<and>
        name \<noteq> [] \<and> list_all (\<lambda>x. \<not> isspace x) name \<and>
        b \<noteq> [] \<and> list_all isspace b \<and> c \<noteq> [] \<and> \<not> isspace (hd c))"

text \<open>A text cut behind each newline: the whole lines, and what stands behind the last.\<close>

fun cut_lines :: "byte list \<Rightarrow> byte list \<Rightarrow> byte list list \<times> byte list" where
  "cut_lines p [] = ([], p)"
| "cut_lines p (b # bs) =
     (if b = 10 then (let (ls, r) = cut_lines [] bs in ((p @ [10]) # ls, r)) else cut_lines (p @ [b]) bs)"

lemma cut_lines_append:
  "cut_lines p (xs @ ys) =
     (fst (cut_lines p xs) @ fst (cut_lines (snd (cut_lines p xs)) ys), snd (cut_lines (snd (cut_lines p xs)) ys))"
  by (induction p xs rule: cut_lines.induct) (auto simp: split_beta Let_def)

lemma cut_lines_concat: "concat (fst (cut_lines p xs)) @ snd (cut_lines p xs) = p @ xs"
  by (induction p xs rule: cut_lines.induct) (auto simp: split_beta Let_def)

lemma takeWhile_dropWhile_hd:
  "dropWhile P xs \<noteq> [] \<Longrightarrow> \<not> P (hd (dropWhile P xs))"
  by (rule hd_dropWhile)

lemma list_all_takeWhile: "list_all P (takeWhile P xs)"
  by (auto simp: list_all_iff dest: set_takeWhileD)

text \<open>Two conversions find the name exactly when the line is an entry for it.\<close>

lemma dropWhile_blanks: "list_all P a \<Longrightarrow> (xs \<noteq> [] \<Longrightarrow> \<not> P (hd xs)) \<Longrightarrow> dropWhile P (a @ xs) = xs"
  by (induction a) (auto, cases xs, auto)

lemma takeWhile_word: "list_all P a \<Longrightarrow> (xs \<noteq> [] \<Longrightarrow> \<not> P (hd xs)) \<Longrightarrow> takeWhile P (a @ xs) = a"
  by (induction a) (auto, cases xs, auto)

lemma sscanf_2:
  "sscanf_s 2 l =
     (let t = dropWhile isspace l; r = dropWhile isspace (dropWhile (\<lambda>b. \<not> isspace b) t) in
      if t = [] then []
      else takeWhile (\<lambda>b. \<not> isspace b) t # (if r = [] then [] else [takeWhile (\<lambda>b. \<not> isspace b) r]))"
  by (simp only: numeral_2_eq_2 sscanf_s.simps Let_def)

lemma sscanf_entry: "length (sscanf_s 2 l) = 2 \<and> sscanf_s 2 l ! 0 = name \<longleftrightarrow> mount_entry name l"
proof
  assume s: "length (sscanf_s 2 l) = 2 \<and> sscanf_s 2 l ! 0 = name"
  let ?t = "dropWhile isspace l"
  let ?r = "dropWhile (\<lambda>b. \<not> isspace b) ?t"
  have tr: "?t \<noteq> [] \<and> dropWhile isspace ?r \<noteq> [] \<and> name = takeWhile (\<lambda>b. \<not> isspace b) ?t"
    using s unfolding sscanf_2 Let_def
    by (cases "?t = []"; cases "dropWhile isspace ?r = []") (simp_all del: dropWhile_eq_Nil_conv)
  note t = conjunct1 [OF tr] and r = conjunct1 [OF conjunct2 [OF tr]] and n = conjunct2 [OF conjunct2 [OF tr]]
  have "\<not> isspace (hd ?t)" using t by (rule takeWhile_dropWhile_hd)
  then have "name \<noteq> []" using t n by (cases ?t) auto
  moreover have "?r \<noteq> []" using r by (metis dropWhile.simps(1))
  then have "isspace (hd ?r)" using takeWhile_dropWhile_hd [of "\<lambda>b. \<not> isspace b" ?t] by simp
  then have "takeWhile isspace ?r \<noteq> []" using \<open>?r \<noteq> []\<close> by (cases ?r) auto
  moreover have "l = takeWhile isspace l @ name @ takeWhile isspace ?r @ dropWhile isspace ?r"
    unfolding n takeWhile_dropWhile_id by simp
  moreover have "list_all (\<lambda>x. \<not> isspace x) name" unfolding n by (rule list_all_takeWhile)
  ultimately show "mount_entry name l"
    unfolding mount_entry_def using r list_all_takeWhile takeWhile_dropWhile_hd [OF r]
    by (intro exI [of _ "takeWhile isspace l"] exI [of _ "takeWhile isspace ?r"] exI [of _ "dropWhile isspace ?r"])
      (intro conjI; assumption?; simp)
next
  assume "mount_entry name l"
  then obtain a b c where l: "l = a @ name @ b @ c" and a: "list_all isspace a" and n: "name \<noteq> []"
    "list_all (\<lambda>x. \<not> isspace x) name" and b: "b \<noteq> []" "list_all isspace b" and c: "c \<noteq> []" "\<not> isspace (hd c)"
    by (auto simp: mount_entry_def)
  have hn: "\<not> isspace (hd name)" and hb: "isspace (hd b)" using n b by (simp_all add: list_all_iff)
  have "dropWhile isspace l = name @ b @ c" unfolding l using a n(1) hn by (intro dropWhile_blanks) auto
  moreover have "takeWhile (\<lambda>x. \<not> isspace x) (name @ b @ c) = name"
    using n b hb by (intro takeWhile_word) auto
  moreover have "dropWhile (\<lambda>x. \<not> isspace x) (name @ b @ c) = b @ c"
    using n b hb by (intro dropWhile_blanks) auto
  moreover have "dropWhile isspace (b @ c) = c" using b c by (intro dropWhile_blanks) auto
  ultimately show "length (sscanf_s 2 l) = 2 \<and> sscanf_s 2 l ! 0 = name"
    using n c by (simp add: sscanf_2 Let_def del: dropWhile_eq_Nil_conv)
qed

text \<open>A line the code can handle: no zero byte, a first word that fits its buffer, and fewer bytes than a page.\<close>

definition line_fits :: "byte list \<Rightarrow> bool" where
  "line_fits l \<longleftrightarrow> 0 \<notin> set l \<and> length l < PAGE_SIZE \<and>
     length (takeWhile (\<lambda>b. \<not> isspace b) (dropWhile isspace l)) < NAME_MAX"

lemma sscanf_set: "w \<in> set (sscanf_s n l) \<Longrightarrow> set w \<subseteq> set l \<and> length w \<le> length l"
proof (induction n arbitrary: l)
  case (Suc n)
  let ?t = "dropWhile isspace l"
  have len: "length (dropWhile P xs) \<le> length xs" "length (takeWhile P xs) \<le> length xs" for P and xs :: "byte list"
    by (simp_all add: length_dropWhile_le length_takeWhile_le)
  have sets: "set (dropWhile P xs) \<subseteq> set xs" "set (takeWhile P xs) \<subseteq> set xs" for P and xs :: "byte list"
    by (auto dest: set_dropWhileD set_takeWhileD)
  from Suc.prems consider "w = takeWhile (\<lambda>b. \<not> isspace b) ?t" | "w \<in> set (sscanf_s n (dropWhile (\<lambda>b. \<not> isspace b) ?t))"
    by (auto simp: Let_def simp del: dropWhile_eq_Nil_conv split: if_splits)
  then show ?case
  proof cases
    case 1
    show ?thesis unfolding 1 by (meson len sets order_trans)
  next
    case 2
    show ?thesis using Suc.IH [OF 2] by (meson len sets order_trans)
  qed
qed simp

lemma cstr_id: "0 \<notin> set s \<Longrightarrow> cstr s = s"
  by (simp add: cstr_def takeWhile_eq_all_conv) metis

lemma cstr_terminated: "0 \<notin> set s \<Longrightarrow> cstr (s @ 0 # t) = s"
  by (induction s) (simp_all add: cstr_def)

lemma find_dev_line:
  assumes mem: "\<forall>i. kmalloc i" and fits: "line_fits (cstr line)" and name: "0 \<notin> set name"
  shows "vsc_find_dev_in_mnt_info kmalloc k (Some line) (Some name) =
    Some (if mount_entry name (cstr line) then 0 else - ENOENT, k + 2)"
proof -
  let ?l = "cstr line"
  let ?ws = "sscanf_s 2 ?l"
  have short: "length (?ws ! 0) < NAME_MAX" if "0 < length ?ws"
    using fits that by (auto simp: line_fits_def sscanf_2 Let_def simp del: dropWhile_eq_Nil_conv)
  have page: "length (?ws ! 1) < PAGE_SIZE" if "1 < length ?ws"
    using sscanf_set [OF nth_mem [OF that]] fits by (auto simp: line_fits_def)
  have eq: "strncmp_eq (?ws ! 0) name NAME_MAX \<longleftrightarrow> ?ws ! 0 = name" if n: "0 < length ?ws"
  proof -
    have "0 \<notin> set (?ws ! 0)" using sscanf_set [OF nth_mem [OF n]] fits by (auto simp: line_fits_def)
    then have "strncmp_eq (?ws ! 0) name NAME_MAX \<longleftrightarrow> ?ws ! 0 = take NAME_MAX name"
      using short [OF n] name by (simp add: strncmp_eq_def cstr_id)
    also have "\<dots> \<longleftrightarrow> ?ws ! 0 = name"
      using short [OF n] by (metis length_take min_def nat_less_le take_all)
    finally show ?thesis .
  qed
  have fits: "\<not> ((0 < length ?ws \<and> NAME_MAX \<le> length (?ws ! 0)) \<or> (1 < length ?ws \<and> PAGE_SIZE \<le> length (?ws ! 1)))"
    using short page by linarith
  show ?thesis
  proof (cases "length ?ws = 2")
    case True
    then show ?thesis using fits eq sscanf_entry [of ?l name]
      by (simp add: vsc_find_dev_in_mnt_info_def mem Let_def del: numeral_2_eq_2)
  next
    case False
    then show ?thesis using fits sscanf_entry [of ?l name]
      by (simp add: vsc_find_dev_in_mnt_info_def mem Let_def)
  qed
qed

subsection \<open>The loops read the lines of the file\<close>

definition all_fit :: "byte list \<Rightarrow> byte list \<Rightarrow> bool" where
  "all_fit p bs \<longleftrightarrow> list_all line_fits (fst (cut_lines p bs)) \<and> length (snd (cut_lines p bs)) < PAGE_SIZE"

lemma cut_lines_grow: "length p \<le> length (hd (fst (cut_lines p bs) @ [snd (cut_lines p bs)]))"
  by (induction p bs rule: cut_lines.induct) (auto simp: split_beta Let_def)

lemma all_fit_pending: "all_fit p bs \<Longrightarrow> length p < PAGE_SIZE"
  using cut_lines_grow [of p bs]
  by (cases "fst (cut_lines p bs)") (auto simp: all_fit_def line_fits_def)

lemma all_fit_append: "all_fit p (xs @ ys) \<Longrightarrow> all_fit p xs \<and> all_fit (snd (cut_lines p xs)) ys"
  using all_fit_pending [of "snd (cut_lines p xs)" ys]
  by (auto simp: all_fit_def cut_lines_append [of p xs ys])

lemma all_fit_Cons:
  "all_fit p (b # bs) \<Longrightarrow> length p < PAGE_SIZE - 1 \<and>
     (if b = 10 then line_fits (p @ [10]) \<and> all_fit [] bs else all_fit (p @ [b]) bs)"
  using all_fit_pending [of "p @ [b]" bs]
  by (auto simp: all_fit_def line_fits_def split_beta Let_def split: if_splits)

text \<open>Between two bytes of the file: \<open>p\<close> is the beginning of the line at work.\<close>

definition scanning :: "byte list \<Rightarrow> mnt_scan \<Rightarrow> bool" where
  "scanning p s \<longleftrightarrow> length (ms_line s) = PAGE_SIZE \<and> ms_linelen s = length p \<and> take (length p) (ms_line s) = p \<and>
     \<not> ms_found s \<and> ms_ret s = - ENOENT"

text \<open>What the loops have found when they stop: the device, or no entry and the rest of the text pending.\<close>

definition scanned :: "byte list \<Rightarrow> byte list list \<times> byte list \<Rightarrow> mnt_scan \<Rightarrow> bool" where
  "scanned name lr s \<longleftrightarrow>
     (if list_ex (mount_entry name) (fst lr) then ms_found s \<and> ms_ret s = 0 else scanning (snd lr) s)"

lemma take_update_end: "length p < length xs \<Longrightarrow> take (length p) xs = p \<Longrightarrow> take (length (p @ [b])) (xs[length p := b]) = p @ [b]"
  by (simp add: take_Suc_conv_app_nth)

lemma mnt_chunk_scans:
  assumes mem: "\<forall>i. kmalloc i" and name: "0 \<notin> set name"
  shows "scanning p s \<Longrightarrow> all_fit p bs \<Longrightarrow> \<exists>s'. mnt_chunk kmalloc name bs s = Some s' \<and> scanned name (cut_lines p bs) s'"
proof (induction bs arbitrary: p s)
  case Nil
  then show ?case by (simp add: scanned_def)
next
  case (Cons b bs)
  note fit = all_fit_Cons [OF Cons.prems(2)]
  let ?l = "(ms_line s)[ms_linelen s := b]"
  have line: "length ?l = PAGE_SIZE" "take (length p + 1) ?l = p @ [b]" and len: "ms_linelen s = length p"
    using Cons.prems(1) fit take_update_end [of p "ms_line s" b] by (auto simp: scanning_def)
  have room: "\<not> PAGE_SIZE - 1 \<le> ms_linelen s" using fit len by simp
  show ?case
  proof (cases "b = 10")
    case False
    have "scanning (p @ [b]) (s\<lparr>ms_line := ?l, ms_linelen := ms_linelen s + 1\<rparr>)"
      using Cons.prems(1) line len by (simp add: scanning_def)
    from Cons.IH [OF this] fit False room show ?thesis by (simp add: Let_def)
  next
    case True
    let ?l' = "?l[ms_linelen s + 1 := 0]"
    have "cstr ?l' = p @ [10]"
    proof -
      have i: "length p + 1 < length ?l" using fit line(1) by auto
      have "?l' = take (length p + 1) ?l @ 0 # drop (length p + 2) ?l"
        using i unfolding len by (simp add: upd_conv_take_nth_drop)
      then have "?l' = (p @ [10]) @ 0 # drop (length p + 2) ?l" using line(2) True by simp
      then show ?thesis using cstr_terminated [of "p @ [10]"] fit True by (simp add: line_fits_def)
    qed
    then have find: "vsc_find_dev_in_mnt_info kmalloc (ms_next s) (Some ?l') (Some name) =
        Some (if mount_entry name (p @ [10]) then 0 else - ENOENT, ms_next s + 2)"
      using find_dev_line [OF mem _ name, of ?l' "ms_next s"] fit True by simp
    show ?thesis
    proof (cases "mount_entry name (p @ [10])")
      case entry: True
      then show ?thesis using room find True by (simp add: Let_def split_beta scanned_def)
    next
      case no: False
      let ?s = "s\<lparr>ms_line := ?l', ms_linelen := 0, ms_ret := - ENOENT, ms_next := ms_next s + 2\<rparr>"
      have "scanning [] ?s" using Cons.prems(1) by (simp add: scanning_def)
      from Cons.IH [OF this] fit True obtain s' where
        "mnt_chunk kmalloc name bs ?s = Some s'" "scanned name (cut_lines [] bs) s'" by auto
      then show ?thesis using room find True no by (simp add: Let_def split_beta scanned_def)
    qed
  qed
qed

lemma mnt_reads_scan:
  assumes mem: "\<forall>i. kmalloc i" and name: "0 \<notin> set name"
  shows "scanning p s \<Longrightarrow> all_fit p (concat cs) \<Longrightarrow> \<forall>c\<in>set cs. c \<noteq> [] \<and> length c \<le> PAGE_SIZE - 1 \<Longrightarrow>
    \<exists>s'. mnt_reads kmalloc name (map Inr cs) s = Some s' \<and> scanned name (cut_lines p (concat cs)) s'"
proof (induction cs arbitrary: p s)
  case Nil
  then show ?case by (simp add: scanned_def)
next
  case (Cons c cs)
  let ?r = "snd (cut_lines p c)"
  have fit: "all_fit p c" "all_fit ?r (concat cs)"
    using all_fit_append Cons.prems(2) by auto
  obtain s1 where s1: "mnt_chunk kmalloc name c s = Some s1" and sc: "scanned name (cut_lines p c) s1"
    using mnt_chunk_scans [OF mem name Cons.prems(1) fit(1)] by blast
  have c: "c \<noteq> []" "\<not> PAGE_SIZE - 1 < length c" using Cons.prems(3) by auto
  show ?case
  proof (cases "list_ex (mount_entry name) (fst (cut_lines p c))")
    case True
    then show ?thesis using s1 sc c by (auto simp: scanned_def cut_lines_append)
  next
    case False
    then have "scanning ?r s1" using sc by (simp add: scanned_def)
    from Cons.IH [OF this fit(2)] Cons.prems(3) obtain s' where
      s': "mnt_reads kmalloc name (map Inr cs) s1 = Some s'" "scanned name (cut_lines ?r (concat cs)) s'" by auto
    have "\<not> ms_found s1" using \<open>scanning ?r s1\<close> by (simp add: scanning_def)
    then show ?thesis using s1 s' c False by (auto simp: scanned_def cut_lines_append)
  qed
qed

text \<open>
  (C25) The buffered search is a search of the lines: whatever pieces the file is read in, the check
  returns 0 exactly when one of the complete lines of the whole text is an entry for the device, and
  \<open>-ENOENT\<close> otherwise, as long as every line is shorter than a page and its first word shorter than a name.
\<close>

theorem mounted_check_equals_lines:
  assumes mem: "\<forall>i. mt_kmalloc E i" and opened: "mt_open E = Inr (True, True)" and page: "length (mt_page E) = PAGE_SIZE"
    and reads: "mt_reads E = map Inr cs" "\<forall>c\<in>set cs. c \<noteq> [] \<and> length c \<le> PAGE_SIZE - 1"
    and fits: "list_all line_fits (fst (cut_lines [] (concat cs)))" "length (snd (cut_lines [] (concat cs))) < PAGE_SIZE"
    and name: "0 \<notin> set name"
  shows "vsc_check_if_dev_mounted E (Some name) =
    Some (if list_ex (mount_entry name) (fst (cut_lines [] (concat cs))) then 0 else - ENOENT)"
proof -
  let ?s = "\<lparr>ms_line = mt_page E, ms_linelen = 0, ms_ret = - ENOENT, ms_found = False, ms_next = 2\<rparr>"
  have "scanning [] ?s" using page by (simp add: scanning_def)
  then obtain s' where "mnt_reads (mt_kmalloc E) name (map Inr cs) ?s = Some s'"
    "scanned name (cut_lines [] (concat cs)) s'"
    using mnt_reads_scan [OF mem name _ _ reads(2), of "[]" ?s] fits by (auto simp: all_fit_def)
  then show ?thesis
    by (auto simp: vsc_check_if_dev_mounted_def mem opened reads(1) scanned_def scanning_def)
qed

text \<open>Two lines in two pieces; the device is named by the second.\<close>

definition example_mounts :: mnt_env where
  "example_mounts = \<lparr>mt_kmalloc = (\<lambda>_. True), mt_open = Inr (True, True),
     mt_reads = map Inr [[0x61, 0x20], [0x62, 10, 0x63, 0x20, 0x64, 10]], mt_page = replicate PAGE_SIZE 0\<rparr>"

theorem mounted_check_equals_lines_witness: "vsc_check_if_dev_mounted example_mounts (Some [0x63]) = Some 0"
proof -
  have cut: "cut_lines [] (concat [[0x61, 0x20], [0x62, 10, 0x63, 0x20, 0x64, 10]]) =
      ([[0x61, 0x20, 0x62, 10], [0x63, 0x20, 0x64, 10]], [])" by simp
  have entry: "mount_entry [0x63] [0x63, 0x20, 0x64, 10]"
    by (simp add: sscanf_entry [symmetric] sscanf_2 Let_def isspace_def)
  have fits: "list_all line_fits [[0x61, 0x20, 0x62, 10], [0x63, 0x20, 0x64, 10]]"
    by (simp add: line_fits_def isspace_def PAGE_SIZE_def NAME_MAX_def)
  show ?thesis
    using mounted_check_equals_lines [of example_mounts "[[0x61, 0x20], [0x62, 10, 0x63, 0x20, 0x64, 10]]" "[0x63]"]
      entry fits unfolding cut by (simp add: example_mounts_def PAGE_SIZE_def)
qed

text \<open>
  Without that bound it is not: a line of 4095 bytes that ends with a piece takes the whole next piece
  with it, the entries in there included.
\<close>

lemma long_line_drops_piece:
  assumes mem: "\<forall>i. mt_kmalloc E i" and opened: "mt_open E = Inr (True, True)" and page: "length (mt_page E) = PAGE_SIZE"
    and reads: "mt_reads E = [Inr (replicate (PAGE_SIZE - 1) 0x61), Inr bs]" and bs: "length bs \<le> PAGE_SIZE - 1"
    and name: "0 \<notin> set name"
  shows "vsc_check_if_dev_mounted E (Some name) = Some (- ENOENT)"
proof -
  let ?s = "\<lparr>ms_line = mt_page E, ms_linelen = 0, ms_ret = - ENOENT, ms_found = False, ms_next = 2\<rparr>"
  let ?c = "replicate (PAGE_SIZE - 1) (0x61 :: byte)"
  have cut: "cut_lines p (replicate n 0x61) = ([], p @ replicate n 0x61)" for p n
    by (induction n arbitrary: p) simp_all
  have "scanning [] ?s" using page by (simp add: scanning_def)
  moreover have "all_fit [] ?c" by (simp add: all_fit_def cut PAGE_SIZE_def)
  ultimately obtain s' where s': "mnt_chunk (mt_kmalloc E) name ?c ?s = Some s'" "scanned name (cut_lines [] ?c) s'"
    using mnt_chunk_scans [OF mem name] by blast
  then have sc: "scanning ?c s'" by (simp add: scanned_def cut)
  then have "mnt_chunk (mt_kmalloc E) name bs s' = Some s' \<or> mnt_chunk (mt_kmalloc E) name bs s' = Some (s'\<lparr>ms_linelen := 0\<rparr>)"
    by (cases bs) (auto simp: scanning_def)
  moreover have "?c \<noteq> []" "length ?c = PAGE_SIZE - 1" by (simp_all add: PAGE_SIZE_def)
  ultimately show ?thesis using s'(1) sc bs
    by (auto simp: vsc_check_if_dev_mounted_def mem opened reads scanning_def simp del: replicate_empty)
qed

end
