(* ===== verification/Vsc_Progress.thy ===== *)
theory Vsc_Progress
  imports Vsc_Entry
begin

text \<open>
  The driver together with a target that works: the target reads a batch, decodes the messages in its
  own memory, answers each of them with the tag and serial number it found there, and reads again.
  The target is not part of the driver; it is the smallest one that follows the protocol of
  \<open>vsc.h\<close>.
\<close>

subsection \<open>The target\<close>

definition answer_to :: "vsc_msg_cdb \<Rightarrow> vsc_scsi_rsp_msg" where
  "answer_to x = \<lparr>rsp_type = VSC_MSG_TYPE_SCSI_CMD, rsp_reserved0 = 0, rsp_reserved1 = 0, rsp_cmd_sn = msg_cmd_sn (smsg x),
     rsp_tag = msg_tag (smsg x), rsp_command_status = CMD_SUCCESS, rsp_scsi_status = 0\<rparr>"

text \<open>The first answer announces how many there are; the buffer always has room for four.\<close>

definition announce :: "vsc_scsi_rsp_msg list \<Rightarrow> vsc_scsi_rsp_msg list" where
  "announce rs = (case rs of [] \<Rightarrow> [] | r # rs' \<Rightarrow> r\<lparr>rsp_reserved0 := of_nat (length rs)\<rparr> # rs')"

definition answer_bytes :: "vsc_scsi_rsp_msg list \<Rightarrow> byte list" where
  "answer_bytes rs = concat (map (\<lambda>r. enc_words (vsc_scsi_rsp_msg_words r)) (announce rs)) @ replicate (112 - 28 * length rs) 0"

definition decode_batch :: "byte list \<Rightarrow> vsc_msg_cdb list option" where
  "decode_batch bs = those (map (\<lambda>i. dec_msg_cdb bs (i * 56)) [0..<length bs div 56])"

text \<open>
  One round after the other, until a read fails; \<open>stk\<close> is what the driver's message array holds in that round.
\<close>

fun target_loop ::
  "(byte list \<Rightarrow> nat) \<Rightarrow> u64 \<Rightarrow> vsc_msg_cdb list list \<Rightarrow> data_state \<Rightarrow> data_state option" where
  "target_loop command_size user_ptr [] st = Some st"
| "target_loop command_size user_ptr (stk # stks) (h, m, um) =
     do { (r, h1, um1) \<leftarrow> vsc_get_multi_scsi_cmd_and_cdb command_size stk m user_ptr 224 h um;
          if r < 0 then Some (h1, m, um1)
          else do { msgs \<leftarrow> decode_batch (ubytes user_ptr (nat r) um1);
                    (_, h2, m2) \<leftarrow> vsc_response_multi_scsi_cmd (answer_bytes (map answer_to msgs)) 0 112 h1 m;
                    target_loop command_size user_ptr stks (h2, m2, um1) } }"

subsection \<open>A batch of answers\<close>

lemma announce_nth:
  "i < length rs \<Longrightarrow> rsp_tag (announce rs ! i) = rsp_tag (rs ! i) \<and> rsp_cmd_sn (announce rs ! i) = rsp_cmd_sn (rs ! i) \<and>
     rsp_command_status (announce rs ! i) = rsp_command_status (rs ! i) \<and> rsp_scsi_status (announce rs ! i) = rsp_scsi_status (rs ! i)"
  by (cases rs; cases i) (simp_all add: announce_def)

lemma announce_head: "rs \<noteq> [] \<Longrightarrow> rsp_reserved0 (announce rs ! 0) = of_nat (length rs)"
  by (cases rs) (simp_all add: announce_def)

lemma length_announce [simp]: "length (announce rs) = length rs"
  by (simp add: announce_def split: list.split)

lemma answer_bytes_dec:
  assumes "i < length rs"
  shows "dec_rsp_msg (answer_bytes rs) (28 * i) = Some (announce rs ! i)"
  using rmsg.cd.dec_array [of i "announce rs" "[]" "replicate (112 - 28 * length rs) 0"] assms
  by (simp add: answer_bytes_def dec_rsp_msg_def mult.commute)

text \<open>Answers to outstanding buffers are accepted one after the other.\<close>

definition ok_done :: "vsc_ctrl_info \<Rightarrow> nat \<Rightarrow> nat \<times> u32" where
  "ok_done h c = (the (scsi_cmd (cmd_of h c)), 0)"

lemma rsp_loop_answers:
  assumes "host_inv H h" "phases_ok h" "cdbs_ok h m" "distinct cs" "set cs \<subseteq> set (rspQ h)"
    and "\<And>i. i < length cs \<Longrightarrow> \<exists>r. dec_rsp_msg buf (off + 28 * i) = Some r \<and> unat (rsp_tag r) = cs ! i \<and>
       rsp_cmd_sn r = cmd_sn (cmd_of h (cs ! i)) \<and> rsp_command_status r = CMD_SUCCESS \<and> rsp_scsi_status r = 0"
  shows "\<exists>m'. rsp_loop buf (length cs) off 0 h m = Some (Inr 0, fold answered cs h, m') \<and>
     host_inv H (fold answered cs h) \<and> phases_ok (fold answered cs h) \<and> cdbs_ok (fold answered cs h) m' \<and>
     done_log m' = done_log m @ map (ok_done h) cs \<and> (\<forall>sc. cmnd (scmds m' sc) = cmnd (scmds m sc))"
  using assms
proof (induction cs arbitrary: h m off)
  case Nil
  then show ?case by simp
next
  case (Cons c cs)
  obtain r where r: "dec_rsp_msg buf off = Some r" "unat (rsp_tag r) = c" "rsp_cmd_sn r = cmd_sn (cmd_of h c)"
    "rsp_command_status r = CMD_SUCCESS" "rsp_scsi_status r = 0"
    using Cons.prems(6) [of 0] by auto
  have c: "c \<in> set (rspQ h)" "c \<in> set (allQ h)" using Cons.prems(5) by (auto simp: allQ_def)
  obtain sc where sc: "scsi_cmd (cmd_of h c) = Some sc" using host_inv_linked [OF Cons.prems(1) c(2)] by auto
  let ?h = "answered c h" and ?m = "scsi_done sc (upd_sc sc (set_rsp_result r) m)"
  have run: "vsc_response_scsi_cmd_new r h m = Some (0, ?h, ?m)"
    using response_eq [OF Cons.prems(1-3), of r] r c sc by (simp add: answerable_def)
  note a = answered_inv [OF Cons.prems(1,2) c(1) sc]
  have cm: "\<forall>sc. cmnd (scmds ?m sc) = cmnd (scmds m sc)"
    by (simp add: scsi_done_def upd_sc_def set_rsp_result_eq)
  have cdb: "cdbs_ok ?h ?m"
    using Cons.prems(3) a(4) cm set_remove1_subset [of c "allQ h"] by (auto simp: cdbs_ok_def)
  have "distinct (rspQ h)" using Cons.prems(1) by (simp add: host_inv_defs allQ_def)
  then have sub: "set cs \<subseteq> set (rspQ ?h)" using Cons.prems(4,5) by (auto simp: set_remove1_eq)
  have dec: "\<exists>r. dec_rsp_msg buf (off + 28 + 28 * i) = Some r \<and> unat (rsp_tag r) = cs ! i \<and>
       rsp_cmd_sn r = cmd_sn (cmd_of ?h (cs ! i)) \<and> rsp_command_status r = CMD_SUCCESS \<and> rsp_scsi_status r = 0"
    if "i < length cs" for i
    using Cons.prems(6) [of "Suc i"] that by (simp add: algebra_simps)
  obtain m' where m': "rsp_loop buf (length cs) (off + 28) 0 ?h ?m = Some (Inr 0, fold answered cs ?h, m')"
    "host_inv H (fold answered cs ?h)" "phases_ok (fold answered cs ?h)" "cdbs_ok (fold answered cs ?h) m'"
    "done_log m' = done_log ?m @ map (ok_done ?h) cs" "\<forall>sc. cmnd (scmds m' sc) = cmnd (scmds ?m sc)"
    using Cons.IH [OF a(1,2) cdb _ sub dec] Cons.prems(4) by auto
  have "c_int (0 + 0) = 0" by (simp add: c_int_def)
  moreover have "done_log ?m = done_log m @ [ok_done h c]"
    using r(4,5) sc by (simp add: scsi_done_def upd_sc_def set_rsp_result_eq status_host_byte_def ok_done_def)
  moreover have "ok_done ?h = ok_done h" by (simp add: ok_done_def fun_eq_iff)
  ultimately show ?case using m' run r(1) cm by simp
qed

lemma fold_answered_queues:
  "reqQ (fold answered cs h) = fold remove1 cs (reqQ h)" "cmpQ (fold answered cs h) = fold remove1 cs (cmpQ h)"
  "rspQ (fold answered cs h) = fold remove1 cs (rspQ h)" "scsi_cmd (cmd_of (fold answered cs h) j) = scsi_cmd (cmd_of h j)"
  by (induction cs arbitrary: h) simp_all

lemma fold_remove1_notin: "set cs \<inter> set q = {} \<Longrightarrow> fold remove1 cs q = q"
  by (induction cs) (simp_all add: remove1_idem)

subsection \<open>One round\<close>

lemma batch_taken_cmds:
  "scsi_cmd (cmd_of (batch_taken h) c) = scsi_cmd (cmd_of h c)" "cmd_sn (cmd_of (batch_taken h) c) = cmd_sn (cmd_of h c)"
proof -
  have "batch_taken h = (fold (\<lambda>c. upd_cmd c (\<lambda>c. c\<lparr>cstat := CMD_STAT_READ_COMP\<rparr>)) (take 4 (cmpQ h)) h)
      \<lparr>cmpQ := drop 4 (cmpQ h), rspQ := rspQ h @ take 4 (cmpQ h), get_cmd_times := get_cmd_times h + 1,
       get_cmd_total := get_cmd_total h + of_nat (min (length (cmpQ h)) 4)\<rparr>"
    by (simp add: batch_taken_def fold_upd_stat)
  moreover have "scsi_cmd (cmd_of (fold (\<lambda>c. upd_cmd c (cstat_update f)) q g) j) = scsi_cmd (cmd_of g j)"
    "cmd_sn (cmd_of (fold (\<lambda>c. upd_cmd c (cstat_update f)) q g) j) = cmd_sn (cmd_of g j)" for f q g j
    by (induction q arbitrary: g) (simp_all add: upd_cstat_fields)
  ultimately show "scsi_cmd (cmd_of (batch_taken h) c) = scsi_cmd (cmd_of h c)"
    "cmd_sn (cmd_of (batch_taken h) c) = cmd_sn (cmd_of h c)" by simp_all
qed

lemma those_map_Some:
  "length xs = n \<Longrightarrow> (\<And>i. i < n \<Longrightarrow> f i = Some (xs ! i)) \<Longrightarrow> those (map f [0..<n]) = Some xs"
proof (induction n arbitrary: xs)
  case (Suc n)
  then have "xs \<noteq> []" by auto
  then obtain ys y where "xs = ys @ [y]" by (metis append_butlast_last_id)
  with Suc.prems(1) have xs: "xs = ys @ [y]" "length ys = n" by simp_all
  have "those (map f [0..<n]) = Some ys" using Suc.prems(2) xs by (intro Suc.IH) (auto simp: nth_append)
  moreover have "f n = Some y" using Suc.prems(2) [of n] xs nth_append_length [of ys y "[]"] by auto
  moreover have "those (zs @ [z]) = (case those zs of None \<Rightarrow> None | Some v \<Rightarrow> map_option (\<lambda>w. v @ [w]) z)" for zs and z :: "'a option"
    by (induction zs) (auto simp: option.map_comp comp_def split: option.splits)
  ultimately show ?case by (simp add: xs)
qed simp

lemma mark_counts_nth:
  "i < length xs \<Longrightarrow> msg_tag (smsg (mark_counts a b xs ! i)) = msg_tag (smsg (xs ! i)) \<and>
     msg_cmd_sn (smsg (mark_counts a b xs ! i)) = msg_cmd_sn (smsg (xs ! i))"
  by (cases xs; cases i) (simp_all add: mark_counts_def)

text \<open>What the target may assume when it starts, and keeps true.\<close>

definition readable :: "(byte list \<Rightarrow> nat) \<Rightarrow> nat multiset \<Rightarrow> vsc_ctrl_info \<Rightarrow> midlayer \<Rightarrow> bool" where
  "readable command_size H h m \<longleftrightarrow> host_inv H h \<and> phases_ok h \<and> cdbs_ok h m \<and>
     (\<forall>c\<in>set (cmpQ h). cdb_fits command_size (scmds m (the (scsi_cmd (cmd_of h c)))))"

definition stk_ok :: "vsc_msg_cdb list \<Rightarrow> bool" where
  "stk_ok stk \<longleftrightarrow> length stk = 4 \<and> (\<forall>x\<in>set stk. length (cdb x) = 16)"

lemma target_round:
  assumes r: "readable command_size H h m" and q: "cmpQ h \<noteq> []" and stk: "stk_ok stk" and mem: "mapped user_ptr 224 um"
  shows "\<exists>h' m' um'. target_loop command_size user_ptr (stk # stks) (h, m, um) = target_loop command_size user_ptr stks (h', m', um') \<and>
     readable command_size H h' m' \<and> mapped user_ptr 224 um' \<and> cmpQ h' = drop 4 (cmpQ h) \<and> reqQ h' = reqQ h \<and> rspQ h' = rspQ h \<and>
     done_log m' = done_log m @ map (ok_done h) (take 4 (cmpQ h)) \<and> (\<forall>c. scsi_cmd (cmd_of h' c) = scsi_cmd (cmd_of h c))"
proof -
  let ?n = "min (length (cmpQ h)) 4" and ?cs = "take 4 (cmpQ h)" and ?h1 = "batch_taken h"
  let ?M = "mark_counts ?n (length (cmpQ h) - 4) (map2 (cmd_msg command_size m h) ?cs stk)"
  let ?rs = "map answer_to ?M"
  have inv: "host_inv H h" "phases_ok h" "cdbs_ok h m" using r by (simp_all add: readable_def)
  have fits: "\<forall>c\<in>set ?cs. cdb_fits command_size (scmds m (the (scsi_cmd (cmd_of h c))))"
    using r set_take_subset [of 4 "cmpQ h"] by (auto simp: readable_def)
  have "mapped user_ptr (56 * ?n) um" using mem by (simp add: mapped_def)
  then obtain um1 where read: "vsc_get_multi_scsi_cmd_and_cdb command_size stk m user_ptr 224 h um = Some (int (56 * ?n), ?h1, um1)"
    "dom um1 = dom um" "\<And>i. i < ?n \<Longrightarrow> dec_msg_cdb (ubytes user_ptr (56 * ?n) um1) (i * 56) = Some (?M ! i)"
    using batch_delivered [OF inv(1) q _ _ fits, of stk user_ptr um] stk by (auto simp: stk_ok_def)
  have len: "length ?M = ?n" "length ?cs = ?n" using stk by (simp_all add: stk_ok_def)
  have dec: "decode_batch (ubytes user_ptr (56 * ?n) um1) = Some ?M"
    using those_map_Some [OF len(1), of "\<lambda>i. dec_msg_cdb (ubytes user_ptr (56 * ?n) um1) (i * 56)"] read(3)
    by (simp add: decode_batch_def)
  have d: "distinct (allQ h)" using inv(1) by (simp add: host_inv_defs)
  have sub: "set ?cs \<subseteq> set (allQ h)" using set_take_subset [of 4 "cmpQ h"] by (auto simp: allQ_def)
  note b = batch_taken_inv [OF inv(1)]
  have qs: "cmpQ ?h1 = drop 4 (cmpQ h)" "rspQ ?h1 = rspQ h @ ?cs" "reqQ ?h1 = reqQ h" by (simp_all add: batch_taken_def)
  have all1: "set (allQ ?h1) = set (allQ h)"
    using set_append [of "take 4 (cmpQ h)" "drop 4 (cmpQ h)"] unfolding append_take_drop_id by (auto simp: allQ_def qs)
  have cdb1: "cdbs_ok ?h1 m" using inv(3) by (simp add: cdbs_ok_def all1 batch_taken_cmds)
  have tag: "unat (cmd_index (cmd_of h c)) = c" if "c \<in> set (allQ h)" for c
    using host_inv_linked [OF inv(1) that] inv(1) unat_of_nat_u32 [of c] by (auto simp: host_inv_defs)
  have ans: "\<exists>x. dec_rsp_msg (answer_bytes ?rs) (0 + 28 * i) = Some x \<and> unat (rsp_tag x) = ?cs ! i \<and>
       rsp_cmd_sn x = cmd_sn (cmd_of ?h1 (?cs ! i)) \<and> rsp_command_status x = CMD_SUCCESS \<and> rsp_scsi_status x = 0"
    if "i < length ?cs" for i
  proof -
    have i: "i < length ?rs" "i < length stk" "i < length ?M" using that stk len by (auto simp: stk_ok_def)
    have "msg_tag (smsg (?M ! i)) = cmd_index (cmd_of h (?cs ! i)) \<and> msg_cmd_sn (smsg (?M ! i)) = cmd_sn (cmd_of h (?cs ! i))"
      using i that mark_counts_nth [of i "map2 (cmd_msg command_size m h) ?cs stk"] by (simp add: cmd_msg_def Let_def)
    moreover have "?cs ! i \<in> set (allQ h)" using nth_mem [OF that] sub by auto
    ultimately show ?thesis
      using announce_nth [OF i(1)] answer_bytes_dec [OF i(1)] i(3) tag batch_taken_cmds(2)
      by (auto simp: answer_to_def)
  qed
  have dcs: "distinct ?cs" using d by (simp add: allQ_def)
  obtain m' where loop: "rsp_loop (answer_bytes ?rs) (length ?cs) 0 0 ?h1 m = Some (Inr 0, fold answered ?cs ?h1, m')"
    and f: "host_inv H (fold answered ?cs ?h1)" "phases_ok (fold answered ?cs ?h1)" "cdbs_ok (fold answered ?cs ?h1) m'"
    "done_log m' = done_log m @ map (ok_done ?h1) ?cs" "\<forall>sc. cmnd (scmds m' sc) = cmnd (scmds m sc)"
    using rsp_loop_answers [OF b(1) b(3) [OF inv(2)] cdb1 dcs _ ans] qs(2) by auto
  let ?h2 = "fold answered ?cs ?h1"
  let ?h3 = "?h2\<lparr>put_rsp_times := put_rsp_times ?h2 + 1, put_rsp_total := put_rsp_total ?h2 + word_of_int (int ?n)\<rparr>"
  have n: "0 < ?n" "?n \<le> 4" using q by auto
  have lrs: "length ?rs = ?n" using len(1) by simp
  have head: "dec_rsp_msg (answer_bytes ?rs) 0 = Some (announce ?rs ! 0)" "rsp_reserved0 (announce ?rs ! 0) = of_nat ?n"
  proof -
    have ne: "0 < length ?rs" "?rs \<noteq> []" unfolding length_greater_0_conv [symmetric] lrs using n by simp_all
    show "dec_rsp_msg (answer_bytes ?rs) 0 = Some (announce ?rs ! 0)" using answer_bytes_dec [OF ne(1)] by simp
    show "rsp_reserved0 (announce ?rs ! 0) = of_nat ?n" using announce_head [OF ne(2)] unfolding lrs .
  qed
  have "k \<in> {1, 2, 3, 4}" if "0 < k" "k \<le> 4" for k :: nat using that by auto
  from this [OF n] have sn: "sint (of_nat ?n :: u32) = int ?n" by auto
  have resp: "vsc_response_multi_scsi_cmd (answer_bytes ?rs) 0 112 ?h1 m = Some (0, ?h3, m')"
    using head sn n loop len(2) by (simp add: vsc_response_multi_scsi_cmd_def MAX_BATCH_SCSI_RSP_COUNT_def Let_def)
  have step: "target_loop command_size user_ptr (stk # stks) (h, m, um) = target_loop command_size user_ptr stks (?h3, m', um1)"
  proof -
    have "nat (int (56 * ?n)) = 56 * ?n" by (rule nat_int)
    then show ?thesis by (simp only: target_loop.simps read(1) bind.bind_lunit prod.case) (simp add: dec resp)
  qed
  have q3: "cmpQ ?h3 = drop 4 (cmpQ h)" "reqQ ?h3 = reqQ h" "rspQ ?h3 = rspQ h"
  proof -
    have "set ?cs \<inter> set (drop 4 (cmpQ h)) = {}" "set ?cs \<inter> set (reqQ h) = {}" "distinct (rspQ h @ ?cs)"
      using d by (auto simp: allQ_def dest: in_set_takeD in_set_dropD) (metis append_take_drop_id disjoint_iff distinct_append)
    then show "cmpQ ?h3 = drop 4 (cmpQ h)" "reqQ ?h3 = reqQ h" "rspQ ?h3 = rspQ h"
      by (simp_all add: fold_answered_queues qs fold_remove1_notin fold_remove1_append)
  qed
  have sc3: "scsi_cmd (cmd_of ?h3 c) = scsi_cmd (cmd_of h c)" for c
    by (simp add: fold_answered_queues batch_taken_cmds)
  have same: "same_cmds ?h2 ?h3" by (simp add: same_cmds_def)
  have "host_inv H ?h3" "phases_ok ?h3" using f(1,2) host_inv_same_cmds [OF same] phases_same_cmds [OF same] by simp_all
  moreover have "cdbs_ok ?h3 m'" using f(3) by (simp add: cdbs_ok_def allQ_def)
  moreover have "cdb_fits command_size (scmds m' (the (scsi_cmd (cmd_of ?h3 c))))" if "c \<in> set (cmpQ ?h3)" for c
    using r that f(5) unfolding q3 sc3 by (auto simp: readable_def cdb_fits_def dest: in_set_dropD)
  ultimately have "readable command_size H ?h3 m'" by (simp add: readable_def)
  moreover have "mapped user_ptr 224 um1" using mem read(2) unfolding mapped_def by (metis domIff)
  moreover have "ok_done ?h1 = ok_done h" by (simp add: ok_done_def fun_eq_iff batch_taken_cmds)
  ultimately show ?thesis using step q3 sc3 f(4) by (metis (no_types, lifting))
qed

subsection \<open>Everything offered is answered\<close>

text \<open>
  (C15) Progress: with a target that reads and answers, whose buffer is mapped, \<open>k\<close> rounds complete all the
  commands that were offered if there are at most \<open>4 * k\<close>. Each is completed once, with result 0, in the order
  it was queued; nothing else is completed, no command waits any more, and the driver's invariant holds.
\<close>

theorem target_completes_offered:
  assumes "readable command_size H h m" "mapped user_ptr 224 um" "list_all stk_ok stks" "length (cmpQ h) \<le> 4 * length stks"
  shows "\<exists>h' m' um'. target_loop command_size user_ptr stks (h, m, um) = Some (h', m', um') \<and>
     readable command_size H h' m' \<and> cmpQ h' = [] \<and> reqQ h' = reqQ h \<and> rspQ h' = rspQ h \<and>
     done_log m' = done_log m @ map (\<lambda>c. (the (scsi_cmd (cmd_of h c)), 0)) (cmpQ h)"
proof -
  have "\<exists>h' m' um'. target_loop command_size user_ptr stks (h, m, um) = Some (h', m', um') \<and>
     readable command_size H h' m' \<and> cmpQ h' = [] \<and> reqQ h' = reqQ h \<and> rspQ h' = rspQ h \<and>
     done_log m' = done_log m @ map (ok_done h) (cmpQ h)"
    using assms
  proof (induction stks arbitrary: h m um)
    case (Cons stk stks)
    show ?case
    proof (cases "cmpQ h = []")
      case True
      then show ?thesis using Cons.prems(1) by (simp add: vsc_get_multi_scsi_cmd_and_cdb_def)
    next
      case False
      obtain h1 m1 um1 where step: "target_loop command_size user_ptr (stk # stks) (h, m, um) =
          target_loop command_size user_ptr stks (h1, m1, um1)"
        and r: "readable command_size H h1 m1" "mapped user_ptr 224 um1" "cmpQ h1 = drop 4 (cmpQ h)" "reqQ h1 = reqQ h"
        "rspQ h1 = rspQ h" "done_log m1 = done_log m @ map (ok_done h) (take 4 (cmpQ h))"
        "\<forall>c. scsi_cmd (cmd_of h1 c) = scsi_cmd (cmd_of h c)"
        using target_round [OF Cons.prems(1) False _ Cons.prems(2), of stk stks] Cons.prems(3) by auto
      have "ok_done h1 = ok_done h" using r(7) by (simp add: ok_done_def fun_eq_iff)
      then have "map (ok_done h) (take 4 (cmpQ h)) @ map (ok_done h1) (drop 4 (cmpQ h)) = map (ok_done h) (cmpQ h)"
        by (simp flip: map_append)
      then show ?thesis using Cons.IH [OF r(1,2)] Cons.prems(3,4) r(3-6) step by auto
    qed
  qed simp
  then show ?thesis by (simp add: ok_done_def [abs_def])
qed

text \<open>The host of the example with its first buffer offered to the target.\<close>

definition example_offered_host :: vsc_ctrl_info where
  "example_offered_host = example_host\<lparr>cmpQ := [0], io_running := 1, h_cmd_sn := 1,
     cmd_pool_tbl := [example_out_cmd\<lparr>cstat := CMD_STAT_REQUEST\<rparr>, example_cmd], cmd_pool_bits := [1]\<rparr>"

lemma example_offered_ok: "readable (\<lambda>_. 10) {#} example_offered_host (mid example_world)"
  by (auto simp: readable_def host_inv_defs allQ_def cmd_used_def example_offered_host_def example_out_cmd_def example_out_pool
      phases_ok_def cdbs_ok_def cdb_fits_def less_2_cases_iff) (simp_all add: example_host_def example_cmd_def zero_ctrl_def)

theorem target_completes_offered_witness:
  "\<exists>h' m' um'. target_loop (\<lambda>_. 10) 0x1000 [example_stk] (example_offered_host, mid example_world, \<lambda>_. Some 0) =
     Some (h', m', um') \<and> cmpQ h' = [] \<and> done_log m' = [(5, 0)]"
proof -
  have q: "cmpQ example_offered_host = [0]" "scsi_cmd (cmd_of example_offered_host 0) = Some 5"
    by (simp_all add: example_offered_host_def example_out_cmd_def)
  have "mapped 0x1000 224 (\<lambda>_. Some 0)" "list_all stk_ok [example_stk]"
    using example_stk_ok by (simp_all add: mapped_def stk_ok_def)
  from target_completes_offered [OF example_offered_ok this] show ?thesis using q by auto
qed

end
